(* ===== verification/Psnet_Prelude.thy ===== *)
theory Psnet_Prelude
  imports Main "HOL-Library.Word" "HOL-Library.Monad_Syntax"
begin

text \<open>
  Shared vocabulary of the development: the types of C values the models use, the
  convention for undefined behaviour, and generic lemmas on options, lists and words.

  Every operation of the program that can dereference a pointer, index a buffer or loop is a
  function into \<open>option\<close>. \<open>None\<close> stands for a run that C leaves undefined (NULL or
  dangling pointer, access outside a buffer) or that does not return. An error that the
  code itself reports (a return value \<open>-1\<close>, an error code) is an ordinary value under
  \<open>Some\<close>. A theorem \<open>f x = Some r\<close> therefore says that the run is defined, that it
  ends, and that it yields \<open>r\<close>.
\<close>

section \<open>Types\<close>

text \<open>The machine integers of the LP64 platform the program is built for.\<close>

type_synonym uint = "32 word"
type_synonym ulong = "64 word"
type_synonym u16 = "16 word"

text \<open>An address of a heap object, and a pointer: \<open>None\<close> is NULL.\<close>

type_synonym addr = nat
type_synonym ptr = "addr option"

named_theorems heap_simps "rewrite rules for loads and stores on modelled heaps"
named_theorems buf_simps "rewrite rules for reads and writes of C buffers"

section \<open>Options\<close>

lemma bind_eq_Some_iff:
  "Option.bind m f = Some r \<longleftrightarrow> (\<exists>x. m = Some x \<and> f x = Some r)"
  by (cases m) auto

lemma map_option_eq_cong:
  "h' a = h a \<Longrightarrow> map_option f (h' a) = map_option f (h a)"
  by simp

text \<open>A loop over a list whose body may be undefined.\<close>

fun foldM :: "('a \<Rightarrow> 's \<Rightarrow> 's option) \<Rightarrow> 'a list \<Rightarrow> 's \<Rightarrow> 's option" where
  "foldM f [] s = Some s"
| "foldM f (x # xs) s = do { s \<leftarrow> f x s; foldM f xs s }"

lemma foldM_append: "foldM f (xs @ ys) s = do { s \<leftarrow> foldM f xs s; foldM f ys s }"
  by (induction xs arbitrary: s) (auto split: bind_splits)

section \<open>Words\<close>

lemma unat_sub_word:
  fixes a b :: "'a::len word"
  assumes "unat b \<le> unat a"
  shows "unat (a - b) = unat a - unat b"
  using assms by (simp add: unat_sub word_le_nat_alt)

lemma unat_add_word:
  fixes a b :: "'a::len word"
  assumes "unat a + unat b < 2 ^ LENGTH('a)"
  shows "unat (a + b) = unat a + unat b"
  using assms by (simp add: unat_add_lem)

lemma unat_dec_word:
  fixes a :: "'a::len word"
  assumes "0 < unat a"
  shows "unat (a - 1) = unat a - 1"
proof -
  have "unat (1 :: 'a word) \<le> unat a" using assms by simp
  then show ?thesis by (simp add: unat_sub_word)
qed

lemma unat_uint_less: "unat (w :: uint) < 4294967296"
  using unsigned_less [of w, where 'a = nat] by simp

section \<open>Lists\<close>

lemma last_or_default_snoc [simp]:
  "(if xs @ [x] = [] then d else Some (last (xs @ [x]))) = Some x"
  by simp

lemma distinct_append_Cons_iff:
  "distinct (as @ a # bs) \<longleftrightarrow> distinct (as @ bs) \<and> a \<notin> set (as @ bs)"
  by auto

lemma list_update_same_nth: "i < length xs \<Longrightarrow> xs[i := y] ! i = y"
  by simp

end
