(* ===== verification/Deltalist.thy ===== *)
theory Deltalist
  imports Psnet_Prelude
begin

text \<open>
  The delta list of \<^verbatim>\<open>src/common/deltalist.c\<close>: a hash table whose nodes are also
  threaded, in order of expiry, on a doubly linked list. Each node stores the number of
  ticks between the expiry of its predecessor and its own.

  The nodes live in an explicit heap (a partial map from addresses to nodes), because the
  hash chains, the delta list and the pointers \<open>delta_head\<close> and \<open>delta_tail\<close>
  alias each other and the code is only correct when they agree. Data elements are values:
  nothing writes to an element after it has been put in a table. \<open>malloc\<close> returns an
  address that was never used before and does not fail. The mutex makes each public operation
  one atomic step, so every operation is a function from table to table.
\<close>

section \<open>Data\<close>

definition HT_SIZE :: nat where
  "HT_SIZE = 10"

record 'd delta_node =
  nd_data :: 'd
  nd_delta :: uint
  ht_next :: ptr
  dl_next :: ptr
  dl_prev :: ptr

text \<open>
  The fields of \<^verbatim>\<open>struct delta_list\<close>, the heap of nodes that belongs to it, the
  address the next \<open>malloc\<close> returns, and the calls of the function pointers
  \<open>act\<close> and \<open>free\<close> so far, in order.
\<close>

record 'd delta_list =
  resolution :: uint
  interval :: uint
  tbl_size :: uint
  tbl_delta :: uint
  delta_head :: ptr
  delta_tail :: ptr
  tbl_hash :: "'d \<Rightarrow> ulong"
  tbl_equals :: "'d \<Rightarrow> 'd \<Rightarrow> bool"
  table :: "ptr list"
  node_heap :: "addr \<rightharpoonup> 'd delta_node"
  node_brk :: addr
  acted :: "'d list"
  freed :: "'d list"

text \<open>Loads and stores through a pointer to a node; both fail on a dangling pointer.\<close>

definition get_nd :: "'d delta_list \<Rightarrow> addr \<Rightarrow> 'd delta_node option" where
  "get_nd t a = node_heap t a"

definition upd_nd :: "addr \<Rightarrow> ('d delta_node \<Rightarrow> 'd delta_node) \<Rightarrow> 'd delta_list \<Rightarrow> 'd delta_list option" where
  "upd_nd a f t = do {
     n \<leftarrow> node_heap t a;
     Some (t\<lparr>node_heap := (node_heap t)(a \<mapsto> f n)\<rparr>)
   }"

definition new_nd :: "'d \<Rightarrow> 'd delta_list \<Rightarrow> addr \<times> 'd delta_list" where
  "new_nd d t =
     (let a = node_brk t;
          n = \<lparr>nd_data = d, nd_delta = 0, ht_next = None, dl_next = None, dl_prev = None\<rparr>
      in (a, t\<lparr>node_heap := (node_heap t)(a \<mapsto> n), node_brk := Suc a\<rparr>))"

definition free_nd :: "addr \<Rightarrow> 'd delta_list \<Rightarrow> 'd delta_list option" where
  "free_nd a t = do {
     _ \<leftarrow> node_heap t a;
     Some (t\<lparr>node_heap := (node_heap t)(a := None)\<rparr>)
   }"

section \<open>Operations\<close>

definition ht_index :: "'d delta_list \<Rightarrow> 'd \<Rightarrow> nat" where
  "ht_index t d = unat (tbl_hash t d) mod HT_SIZE"

text \<open>The search loop: the matching node (or NULL) and the node before it in its bucket.\<close>

partial_function (option) get_node_loop ::
  "'d delta_list \<Rightarrow> 'd \<Rightarrow> ptr \<Rightarrow> ptr \<Rightarrow> (ptr \<times> ptr) option" where
  "get_node_loop t d it lst =
     (case it of
        None \<Rightarrow> Some (None, lst)
      | Some a \<Rightarrow> do {
          n \<leftarrow> get_nd t a;
          if tbl_equals t (nd_data n) d then Some (Some a, lst)
          else get_node_loop t d (ht_next n) (Some a)
        })"

definition get_node :: "'d delta_list \<Rightarrow> 'd \<Rightarrow> (ptr \<times> ptr) option" where
  "get_node t d = get_node_loop t d (table t ! ht_index t d) None"

definition hash_insert :: "addr \<Rightarrow> 'd delta_list \<Rightarrow> 'd delta_list option" where
  "hash_insert node t = do {
     n \<leftarrow> get_nd t node;
     let index = ht_index t (nd_data n);
     t \<leftarrow> upd_nd node (\<lambda>n. n\<lparr>ht_next := table t ! index\<rparr>) t;
     Some (t\<lparr>table := (table t)[index := Some node]\<rparr>)
   }"

definition dl_insert_node :: "addr \<Rightarrow> 'd delta_list \<Rightarrow> 'd delta_list option" where
  "dl_insert_node node t = do {
     t \<leftarrow> upd_nd node (\<lambda>n. n\<lparr>nd_delta := interval t\<rparr>) t;
     t \<leftarrow> (case delta_head t of
        None \<Rightarrow>
          upd_nd node (\<lambda>n. n\<lparr>dl_prev := None\<rparr>) (t\<lparr>delta_head := Some node, delta_tail := Some node\<rparr>)
      | Some _ \<Rightarrow> do {
          t \<leftarrow> upd_nd node (\<lambda>n. n\<lparr>nd_delta := nd_delta n - tbl_delta t\<rparr>) t;
          tail \<leftarrow> delta_tail t;
          t \<leftarrow> upd_nd tail (\<lambda>n. n\<lparr>dl_next := Some node\<rparr>) t;
          t \<leftarrow> upd_nd node (\<lambda>n. n\<lparr>dl_prev := delta_tail t\<rparr>) t;
          Some (t\<lparr>delta_tail := Some node\<rparr>)
        });
     t \<leftarrow> upd_nd node (\<lambda>n. n\<lparr>dl_next := None\<rparr>) t;
     Some (t\<lparr>tbl_delta := interval t\<rparr>)
   }"

definition dl_remove_node :: "addr \<Rightarrow> 'd delta_list \<Rightarrow> 'd delta_list option" where
  "dl_remove_node node t = do {
     n \<leftarrow> get_nd t node;
     t \<leftarrow> (case dl_next n of
        Some nx \<Rightarrow> do {
          t \<leftarrow> upd_nd nx (\<lambda>m. m\<lparr>nd_delta := nd_delta m + nd_delta n\<rparr>) t;
          upd_nd nx (\<lambda>m. m\<lparr>dl_prev := dl_prev n\<rparr>) t
        }
      | None \<Rightarrow> Some (t\<lparr>tbl_delta := tbl_delta t - nd_delta n\<rparr>));
     n \<leftarrow> get_nd t node;
     (case dl_prev n of
        Some pv \<Rightarrow> upd_nd pv (\<lambda>m. m\<lparr>dl_next := dl_next n\<rparr>) t
      | None \<Rightarrow> Some (t\<lparr>delta_head := dl_next n\<rparr>))
   }"

definition delta_delete :: "'d \<Rightarrow> 'd delta_list \<Rightarrow> (int \<times> 'd delta_list) option" where
  "delta_delete d t = do {
     (np, prev) \<leftarrow> get_node t d;
     (case np of
        None \<Rightarrow> Some (-1, t)
      | Some node \<Rightarrow> do {
          n \<leftarrow> get_nd t node;
          t \<leftarrow> (case prev of
             Some pv \<Rightarrow> upd_nd pv (\<lambda>m. m\<lparr>ht_next := ht_next n\<rparr>) t
           | None \<Rightarrow> Some (t\<lparr>table := (table t)[ht_index t d := ht_next n]\<rparr>));
          t \<leftarrow> dl_remove_node node t;
          let t = t\<lparr>tbl_size := tbl_size t - 1\<rparr>;
          n \<leftarrow> get_nd t node;
          let t = t\<lparr>freed := freed t @ [nd_data n]\<rparr>;
          t \<leftarrow> free_nd node t;
          Some (0, t)
        })
   }"

text \<open>The loop of \<open>delta_tick\<close> that removes the expired nodes at the head.\<close>

partial_function (option) delta_expire :: "'d delta_list \<Rightarrow> 'd delta_list option" where
  "delta_expire t =
     (case delta_head t of
        None \<Rightarrow> Some t
      | Some a \<Rightarrow> do {
          n \<leftarrow> get_nd t a;
          if nd_delta n \<noteq> 0 then Some t
          else do {
            (rc, t) \<leftarrow> delta_delete (nd_data n) (t\<lparr>acted := acted t @ [nd_data n]\<rparr>);
            delta_expire t
          }
        })"

definition delta_tick :: "'d delta_list \<Rightarrow> 'd delta_list option" where
  "delta_tick t =
     (case delta_head t of
        None \<Rightarrow> Some t
      | Some a \<Rightarrow> do {
          let t = t\<lparr>tbl_delta := tbl_delta t - 1\<rparr>;
          t \<leftarrow> upd_nd a (\<lambda>n. n\<lparr>nd_delta := nd_delta n - 1\<rparr>) t;
          delta_expire t
        })"

text \<open>
  The clock thread: \<open>for (left = table->resolution; left; left = sleep(left));\<close> and then a tick.
  \<open>sleep\<close> returns the seconds that are left when a signal ends it early; its results are a
  script. The time slept is counted, which the code does not do.
\<close>

fun clock_wait :: "uint \<Rightarrow> uint list \<Rightarrow> (nat \<times> uint list) option" where
  "clock_wait left [] = (if left = 0 then Some (0, []) else None)"
| "clock_wait left (r # rs) =
     (if left = 0 then Some (0, r # rs)
      else do { (n, rs) \<leftarrow> clock_wait r rs; Some (unat left - unat r + n, rs) })"

definition clock_turn :: "uint list \<Rightarrow> 'd delta_list \<Rightarrow> (nat \<times> uint list \<times> 'd delta_list) option" where
  "clock_turn sleeps t = do {
     (n, sleeps) \<leftarrow> clock_wait (resolution t) sleeps;
     t \<leftarrow> delta_tick t;
     Some (n, sleeps, t)
   }"

definition delta_insert :: "'d \<Rightarrow> 'd delta_list \<Rightarrow> 'd delta_list option" where
  "delta_insert d t = do {
     (np, prev) \<leftarrow> get_node t d;
     (case np of
        Some _ \<Rightarrow> Some t
      | None \<Rightarrow> do {
          let (node, t) = new_nd d t;
          t \<leftarrow> hash_insert node t;
          t \<leftarrow> dl_insert_node node t;
          Some (t\<lparr>tbl_size := tbl_size t + 1\<rparr>)
        })
   }"

definition delta_update :: "'d \<Rightarrow> 'd delta_list \<Rightarrow> (int \<times> 'd delta_list) option" where
  "delta_update d t = do {
     (np, prev) \<leftarrow> get_node t d;
     (node, rc, t) \<leftarrow> (case np of
        Some node \<Rightarrow> do {
          t \<leftarrow> dl_remove_node node t;
          Some (node, 1, t)
        }
      | None \<Rightarrow> do {
          let (node, t) = new_nd d t;
          t \<leftarrow> hash_insert node t;
          Some (node, 0, t\<lparr>tbl_size := tbl_size t + 1\<rparr>)
        });
     t \<leftarrow> dl_insert_node node t;
     Some (rc, t)
   }"

definition delta_remove :: "'d \<Rightarrow> 'd delta_list \<Rightarrow> (int \<times> 'd delta_list) option" where
  "delta_remove d t = delta_delete d t"

definition delta_contains :: "'d \<Rightarrow> 'd delta_list \<Rightarrow> int option" where
  "delta_contains d t = do {
     (np, prev) \<leftarrow> get_node t d;
     Some (if np \<noteq> None then 1 else 0)
   }"

definition delta_get :: "'d \<Rightarrow> 'd delta_list \<Rightarrow> 'd option option" where
  "delta_get d t = do {
     (np, prev) \<leftarrow> get_node t d;
     (case np of
        Some node \<Rightarrow> do { n \<leftarrow> get_nd t node; Some (Some (nd_data n)) }
      | None \<Rightarrow> Some None)
   }"

text \<open>The loop of \<open>delta_clear\<close> that frees every node of the delta list.\<close>

partial_function (option) clear_loop :: "ptr \<Rightarrow> 'd delta_list \<Rightarrow> 'd delta_list option" where
  "clear_loop it t =
     (case it of
        None \<Rightarrow> Some t
      | Some tmp \<Rightarrow> do {
          n \<leftarrow> get_nd t tmp;
          t \<leftarrow> free_nd tmp t;
          clear_loop (dl_next n) t
        })"

definition delta_clear :: "'d delta_list \<Rightarrow> 'd delta_list option" where
  "delta_clear t = do {
     t \<leftarrow> clear_loop (delta_head t) t;
     Some (t\<lparr>tbl_size := 0, tbl_delta := 0, delta_head := None, delta_tail := None,
             table := replicate HT_SIZE None\<rparr>)
   }"

text \<open>
  The iteration: the callback takes an element and the argument it updates, and its flag says
  whether iteration ceases.
\<close>

partial_function (option) foreach_loop ::
  "'d delta_list \<Rightarrow> ('d \<Rightarrow> 'a \<Rightarrow> bool \<times> 'a) \<Rightarrow> ptr \<Rightarrow> 'a \<Rightarrow> 'a option" where
  "foreach_loop t f it arg =
     (case it of
        None \<Rightarrow> Some arg
      | Some a \<Rightarrow> do {
          n \<leftarrow> get_nd t a;
          (case f (nd_data n) arg of (stop, arg') \<Rightarrow>
             if stop then Some arg' else foreach_loop t f (dl_next n) arg')
        })"

definition delta_foreach ::
  "'d delta_list \<Rightarrow> ('d \<Rightarrow> 'a \<Rightarrow> bool \<times> 'a) \<Rightarrow> 'a \<Rightarrow> 'a option" where
  "delta_foreach t f arg = foreach_loop t f (delta_head t) arg"

definition delta_size :: "'d delta_list \<Rightarrow> uint" where
  "delta_size t = tbl_size t"

declare get_node_loop.simps [code] delta_expire.simps [code] clear_loop.simps [code] foreach_loop.simps [code]

end
