(* ===== verification/Deltalist_Inv.thy ===== *)
theory Deltalist_Inv
  imports Deltalist
begin

text \<open>
  Correctness of the delta list. The invariant \<open>dl_inv\<close> says how the heap, the hash
  buckets, the doubly linked list and the deltas agree; \<open>dl_rep\<close> relates a table to the
  list of its elements with the number of ticks each has left, in order of expiry. The
  operations of the model are related to operations on that list, one refinement lemma each.
  The locale \<open>delta_table\<close> states what a table relies on: the contract of the function
  pointers \<open>hash\<close> and \<open>equals\<close> and a positive expiry interval.
\<close>

section \<open>Views of the heap\<close>

text \<open>One field of every node; the lists below depend on single fields only.\<close>

definition vw :: "('d delta_node \<Rightarrow> 'b) \<Rightarrow> (addr \<rightharpoonup> 'd delta_node) \<Rightarrow> addr \<rightharpoonup> 'b" where
  "vw f h = (\<lambda>a. map_option f (h a))"

lemma vw_apply [heap_simps]: "vw f h a = map_option f (h a)"
  by (simp add: vw_def)

lemma vw_upd [simp]: "vw f (h(a \<mapsto> n)) = (vw f h)(a \<mapsto> f n)"
  by (auto simp: vw_def)

lemma vw_del [simp]: "vw f (h(a := None)) = (vw f h)(a := None)"
  by (auto simp: vw_def)

lemma vw_idem [simp]: "h a = Some m \<Longrightarrow> (vw f h)(a \<mapsto> f m) = vw f h"
  by (auto simp: vw_def)

lemma vw_Some: "h a = Some n \<Longrightarrow> vw f h a = Some (f n)"
  by (simp add: vw_def)

lemma upd_nd_Some [heap_simps]:
  "node_heap t a = Some n \<Longrightarrow> upd_nd a f t = Some (t\<lparr>node_heap := (node_heap t)(a \<mapsto> f n)\<rparr>)"
  by (simp add: upd_nd_def)

lemma upd_nd_None [heap_simps]: "node_heap t a = None \<Longrightarrow> upd_nd a f t = None"
  by (simp add: upd_nd_def)

lemma get_nd_heap [heap_simps]: "get_nd t a = node_heap t a"
  by (simp add: get_nd_def)

text \<open>The last element of a list of nodes, as a pointer, with a default.\<close>

definition lastp :: "ptr \<Rightarrow> addr list \<Rightarrow> ptr" where
  "lastp p xs = (if xs = [] then p else Some (last xs))"

lemma lastp_simps [simp]:
  "lastp p [] = p"
  "lastp p (x # xs) = lastp (Some x) xs"
  "lastp p (xs @ [x]) = Some x"
  by (simp_all add: lastp_def)

lemma lastp_append [simp]: "lastp p (xs @ ys) = lastp (lastp p xs) ys"
  by (simp add: lastp_def)

subsection \<open>Doubly linked segments\<close>

fun dseg :: "(addr \<rightharpoonup> ptr) \<Rightarrow> (addr \<rightharpoonup> ptr) \<Rightarrow> ptr \<Rightarrow> ptr \<Rightarrow> addr list \<Rightarrow> ptr \<Rightarrow> bool" where
  "dseg nx pv p s [] e \<longleftrightarrow> s = e"
| "dseg nx pv p s (a # as) e \<longleftrightarrow>
     s = Some a \<and> pv a = Some p \<and> (\<exists>q. nx a = Some q \<and> dseg nx pv (Some a) q as e)"

lemma dseg_append:
  "dseg nx pv p s (as @ bs) e \<longleftrightarrow> (\<exists>q. dseg nx pv p s as q \<and> dseg nx pv (lastp p as) q bs e)"
  by (induction as arbitrary: p s) auto

lemma dseg_upd [simp]:
  "a \<notin> set as \<Longrightarrow> dseg (nx(a := v)) pv p s as e = dseg nx pv p s as e"
  "a \<notin> set as \<Longrightarrow> dseg nx (pv(a := w)) p s as e = dseg nx pv p s as e"
  by (induction as arbitrary: p s) auto

lemma dseg_snoc:
  "dseg nx pv p s (as @ [a]) e \<longleftrightarrow>
     dseg nx pv p s as (Some a) \<and> pv a = Some (lastp p as) \<and> nx a = Some e"
  by (auto simp: dseg_append)

text \<open>Redirecting the next pointer of the last node of a segment moves its end.\<close>

lemma dseg_set_end:
  assumes "dseg nx pv p s (as @ [a]) e" and "distinct (as @ [a])"
  shows "dseg (nx(a \<mapsto> e')) pv p s (as @ [a]) e'"
  using assms by (auto simp: dseg_snoc)

text \<open>Redirecting the prev pointer of the first node moves the start.\<close>

lemma dseg_set_start:
  assumes "dseg nx pv p s (a # as) e" and "distinct (a # as)"
  shows "dseg nx (pv(a \<mapsto> p')) p' s (a # as) e"
  using assms by auto

subsection \<open>Hash chains\<close>

fun hchain :: "(addr \<rightharpoonup> ptr) \<Rightarrow> ptr \<Rightarrow> addr list \<Rightarrow> bool" where
  "hchain ht s [] \<longleftrightarrow> s = None"
| "hchain ht s (a # as) \<longleftrightarrow> s = Some a \<and> (\<exists>q. ht a = Some q \<and> hchain ht q as)"

lemma hchain_upd [simp]: "a \<notin> set as \<Longrightarrow> hchain (ht(a := v)) s as = hchain ht s as"
  by (induction as arbitrary: s) auto

text \<open>Unlinking a node from the inside of a chain.\<close>

lemma hchain_unlink:
  assumes "hchain ht s (us @ [u] @ a # vs)" and "ht a = Some q" and "distinct (us @ [u] @ a # vs)"
  shows "hchain (ht(u \<mapsto> q)) s (us @ [u] @ vs)"
  using assms by (induction us arbitrary: s) auto

subsection \<open>Deltas\<close>

definition dsum :: "(addr \<rightharpoonup> uint) \<Rightarrow> addr list \<Rightarrow> nat" where
  "dsum dv xs = sum_list (map (\<lambda>a. unat (the (dv a))) xs)"

lemma dsum_simps [simp]:
  "dsum dv [] = 0"
  "dsum dv (a # xs) = unat (the (dv a)) + dsum dv xs"
  "dsum dv (xs @ ys) = dsum dv xs + dsum dv ys"
  by (simp_all add: dsum_def)

lemma dsum_upd [simp]: "a \<notin> set xs \<Longrightarrow> dsum (dv(a := v)) xs = dsum dv xs"
  by (induction xs) auto

text \<open>The elements with the ticks they have left, by adding up the deltas.\<close>

fun entries :: "(addr \<rightharpoonup> 'd) \<Rightarrow> (addr \<rightharpoonup> uint) \<Rightarrow> nat \<Rightarrow> addr list \<Rightarrow> ('d \<times> nat) list" where
  "entries dat dv k [] = []"
| "entries dat dv k (a # as) =
     (the (dat a), k + unat (the (dv a))) # entries dat dv (k + unat (the (dv a))) as"

lemma entries_append [simp]:
  "entries dat dv k (as @ bs) = entries dat dv k as @ entries dat dv (k + dsum dv as) bs"
  by (induction as arbitrary: k) (auto simp: add.assoc)

lemma entries_upd [simp]:
  "a \<notin> set as \<Longrightarrow> entries (dat(a := x)) dv k as = entries dat dv k as"
  "a \<notin> set as \<Longrightarrow> entries dat (dv(a := v)) k as = entries dat dv k as"
  by (induction as arbitrary: k) auto

lemma length_entries [simp]: "length (entries dat dv k as) = length as"
  by (induction as arbitrary: k) auto

lemma entries_Nil_iff [simp]: "entries dat dv k as = [] \<longleftrightarrow> as = []"
  by (cases as) auto

lemma map_fst_entries: "map fst (entries dat dv k as) = map (\<lambda>a. the (dat a)) as"
  by (induction as arbitrary: k) auto

section \<open>The invariant\<close>

definition order_ok :: "'d delta_list \<Rightarrow> addr list \<Rightarrow> bool" where
  "order_ok t xs \<longleftrightarrow> distinct xs \<and>
     dseg (vw dl_next (node_heap t)) (vw dl_prev (node_heap t)) None (delta_head t) xs None \<and>
     (xs \<noteq> [] \<longrightarrow> delta_tail t = Some (last xs))"

definition buckets_ok ::
  "('d \<Rightarrow> ulong) \<Rightarrow> 'd delta_list \<Rightarrow> addr list \<Rightarrow> (nat \<Rightarrow> addr list) \<Rightarrow> bool" where
  "buckets_ok hash t xs bs \<longleftrightarrow> length (table t) = HT_SIZE \<and>
     (\<forall>i < HT_SIZE. hchain (vw ht_next (node_heap t)) (table t ! i) (bs i) \<and> distinct (bs i) \<and>
        set (bs i) = {a \<in> set xs. unat (hash (the (vw nd_data (node_heap t) a))) mod HT_SIZE = i})"

lemma buckets_okD:
  assumes "buckets_ok hash t xs bs" and "i < HT_SIZE"
  shows "hchain (vw ht_next (node_heap t)) (table t ! i) (bs i)" and "distinct (bs i)"
    and "set (bs i) = {a \<in> set xs. unat (hash (the (vw nd_data (node_heap t) a))) mod HT_SIZE = i}"
  using assms by (simp_all add: buckets_ok_def)

lemma ht_index_less [simp]: "ht_index t d < HT_SIZE"
  by (simp add: ht_index_def HT_SIZE_def)

definition clock_ok :: "uint \<Rightarrow> 'd delta_list \<Rightarrow> addr list \<Rightarrow> bool" where
  "clock_ok iv t xs \<longleftrightarrow>
     unat (tbl_delta t) = dsum (vw nd_delta (node_heap t)) xs \<and>
     dsum (vw nd_delta (node_heap t)) xs \<le> unat iv"

definition keys_ok ::
  "('d \<Rightarrow> 'd \<Rightarrow> bool) \<Rightarrow> ('d \<Rightarrow> bool) \<Rightarrow> (addr \<rightharpoonup> 'd) \<Rightarrow> addr list \<Rightarrow> bool" where
  "keys_ok equals valid dat xs \<longleftrightarrow>
     (\<forall>a \<in> set xs. valid (the (dat a))) \<and>
     (\<forall>a \<in> set xs. \<forall>b \<in> set xs. equals (the (dat a)) (the (dat b)) \<longrightarrow> a = b)"

text \<open>
  All of the invariant but the element count, for a table whose nodes are those on the
  delta list (\<open>xs\<close>) and those that are in the hash table only (\<open>gs\<close>).
\<close>

definition dl_core ::
  "('d \<Rightarrow> ulong) \<Rightarrow> ('d \<Rightarrow> 'd \<Rightarrow> bool) \<Rightarrow> ('d \<Rightarrow> bool) \<Rightarrow> uint \<Rightarrow>
   'd delta_list \<Rightarrow> addr list \<Rightarrow> addr list \<Rightarrow> bool" where
  "dl_core hash equals valid iv t xs gs \<longleftrightarrow>
     tbl_hash t = hash \<and> tbl_equals t = equals \<and> interval t = iv \<and>
     dom (node_heap t) = set (xs @ gs) \<and> distinct (xs @ gs) \<and>
     (\<forall>a \<in> set (xs @ gs). a < node_brk t) \<and>
     order_ok t xs \<and> clock_ok iv t xs \<and>
     (\<exists>bs. buckets_ok hash t (xs @ gs) bs) \<and>
     keys_ok equals valid (vw nd_data (node_heap t)) (xs @ gs)"

definition dl_inv ::
  "('d \<Rightarrow> ulong) \<Rightarrow> ('d \<Rightarrow> 'd \<Rightarrow> bool) \<Rightarrow> ('d \<Rightarrow> bool) \<Rightarrow> uint \<Rightarrow> 'd delta_list \<Rightarrow> addr list \<Rightarrow> bool" where
  "dl_inv hash equals valid iv t xs \<longleftrightarrow>
     dl_core hash equals valid iv t xs [] \<and> tbl_size t = of_nat (length xs)"

text \<open>
  The simulation relation: the table holds the elements \<open>es\<close>, paired with the ticks each
  has left, in order of expiry, and no element is overdue.
\<close>

definition tbl_entries :: "'d delta_list \<Rightarrow> addr list \<Rightarrow> ('d \<times> nat) list" where
  "tbl_entries t xs = entries (vw nd_data (node_heap t)) (vw nd_delta (node_heap t)) 0 xs"

definition dl_rep ::
  "('d \<Rightarrow> ulong) \<Rightarrow> ('d \<Rightarrow> 'd \<Rightarrow> bool) \<Rightarrow> ('d \<Rightarrow> bool) \<Rightarrow> uint \<Rightarrow> 'd delta_list \<Rightarrow> ('d \<times> nat) list \<Rightarrow> bool" where
  "dl_rep hash equals valid iv t es \<longleftrightarrow>
     (\<exists>xs. dl_inv hash equals valid iv t xs \<and> es = tbl_entries t xs) \<and> (\<forall>e \<in> set es. 0 < snd e)"

section \<open>The abstract specification\<close>

definition spec_insert ::
  "('d \<Rightarrow> 'd \<Rightarrow> bool) \<Rightarrow> uint \<Rightarrow> 'd \<Rightarrow> ('d \<times> nat) list \<Rightarrow> ('d \<times> nat) list" where
  "spec_insert equals iv d es =
     (if list_ex (\<lambda>e. equals (fst e) d) es then es else es @ [(d, unat iv)])"

definition spec_remove ::
  "('d \<Rightarrow> 'd \<Rightarrow> bool) \<Rightarrow> 'd \<Rightarrow> ('d \<times> nat) list \<Rightarrow> ('d \<times> nat) list" where
  "spec_remove equals d es = filter (\<lambda>e. \<not> equals (fst e) d) es"

definition spec_update ::
  "('d \<Rightarrow> 'd \<Rightarrow> bool) \<Rightarrow> uint \<Rightarrow> 'd \<Rightarrow> ('d \<times> nat) list \<Rightarrow> ('d \<times> nat) list" where
  "spec_update equals iv d es =
     (case find (\<lambda>e. equals (fst e) d) es of
        None \<Rightarrow> es @ [(d, unat iv)]
      | Some e \<Rightarrow> spec_remove equals d es @ [(fst e, unat iv)])"

definition spec_tick :: "('d \<times> nat) list \<Rightarrow> ('d \<times> nat) list" where
  "spec_tick es = map (\<lambda>e. (fst e, snd e - 1)) (filter (\<lambda>e. 1 < snd e) es)"

fun spec_foreach :: "('d \<Rightarrow> 'a \<Rightarrow> bool \<times> 'a) \<Rightarrow> 'd list \<Rightarrow> 'a \<Rightarrow> 'a" where
  "spec_foreach f [] arg = arg"
| "spec_foreach f (d # ds) arg =
     (case f d arg of (stop, arg') \<Rightarrow> if stop then arg' else spec_foreach f ds arg')"

definition spec_expired :: "('d \<times> nat) list \<Rightarrow> 'd list" where
  "spec_expired es = map fst (filter (\<lambda>e. snd e \<le> 1) es)"


section \<open>Linking and unlinking a node\<close>

text \<open>What the two list routines leave alone.\<close>

definition dl_frame :: "'d delta_list \<Rightarrow> 'd delta_list \<Rightarrow> bool" where
  "dl_frame t t' \<longleftrightarrow>
     resolution t' = resolution t \<and> interval t' = interval t \<and> tbl_size t' = tbl_size t \<and>
     tbl_hash t' = tbl_hash t \<and> tbl_equals t' = tbl_equals t \<and> table t' = table t \<and>
     node_brk t' = node_brk t \<and> acted t' = acted t \<and> freed t' = freed t \<and>
     dom (node_heap t') = dom (node_heap t) \<and>
     vw ht_next (node_heap t') = vw ht_next (node_heap t) \<and>
     vw nd_data (node_heap t') = vw nd_data (node_heap t)"

text \<open>What deleting the element \<open>x\<close> changes besides the linked structures.\<close>

definition del_frame :: "'d \<Rightarrow> 'd delta_list \<Rightarrow> 'd delta_list \<Rightarrow> bool" where
  "del_frame x t t' \<longleftrightarrow>
     resolution t' = resolution t \<and> interval t' = interval t \<and> tbl_size t' = tbl_size t - 1 \<and>
     tbl_hash t' = tbl_hash t \<and> tbl_equals t' = tbl_equals t \<and> node_brk t' = node_brk t \<and>
     acted t' = acted t \<and> freed t' = freed t @ [x]"

lemma dl_frame_trans [trans]: "dl_frame t u \<Longrightarrow> dl_frame u v \<Longrightarrow> dl_frame t v"
  by (simp add: dl_frame_def)

lemma dl_insert_node_empty:
  assumes "delta_head t = None" and "node_heap t a = Some n"
  shows "dl_insert_node a t =
    Some (t\<lparr>node_heap := (node_heap t)(a \<mapsto> n\<lparr>nd_delta := interval t, dl_prev := None, dl_next := None\<rparr>),
            delta_head := Some a, delta_tail := Some a, tbl_delta := interval t\<rparr>)"
  using assms by (simp add: dl_insert_node_def upd_nd_def)

lemma dl_insert_node_tail:
  assumes "delta_head t = Some x" and "node_heap t a = Some n"
    and "delta_tail t = Some b" and "node_heap t b = Some m" and "b \<noteq> a"
  shows "dl_insert_node a t =
    Some (t\<lparr>node_heap := (node_heap t)(b \<mapsto> m\<lparr>dl_next := Some a\<rparr>,
              a \<mapsto> n\<lparr>nd_delta := interval t - tbl_delta t, dl_prev := Some b, dl_next := None\<rparr>),
            delta_tail := Some a, tbl_delta := interval t\<rparr>)"
  using assms by (simp add: dl_insert_node_def upd_nd_def fun_upd_twist)

lemma dl_insert_node_self:
  assumes "delta_head t = Some x" and "node_heap t a = Some n" and "delta_tail t = Some a"
  shows "dl_insert_node a t =
    Some (t\<lparr>node_heap := (node_heap t)(a \<mapsto>
              n\<lparr>nd_delta := interval t - tbl_delta t, dl_prev := Some a, dl_next := None\<rparr>),
            delta_tail := Some a, tbl_delta := interval t\<rparr>)"
  using assms by (simp add: dl_insert_node_def upd_nd_def)

lemma dl_insert_node_dangling:
  assumes "delta_head t = Some x" and "delta_tail t = Some b" and "node_heap t b = None"
  shows "dl_insert_node a t = None"
  using assms by (cases "node_heap t a") (auto simp: dl_insert_node_def upd_nd_def)

lemma foreach_loop_dseg:
  assumes "dseg (vw dl_next (node_heap t)) pv p s xs None"
  shows "foreach_loop t f s arg = Some (spec_foreach f (map (\<lambda>a. the (vw nd_data (node_heap t) a)) xs) arg)"
  using assms
proof (induction xs arbitrary: p s arg)
  case Nil
  then show ?case by (subst foreach_loop.simps) simp
next
  case (Cons a as)
  then show ?case
    by (subst foreach_loop.simps) (auto simp: heap_simps split: prod.splits)
qed

lemma dl_insert_node_ok:
  fixes t :: "'d delta_list"
  assumes ord: "order_ok t xs" and clk: "clock_ok iv t xs" and iv: "interval t = iv" "0 < unat iv"
    and a: "a \<notin> set xs" "node_heap t a = Some n" and sub: "set xs \<subseteq> dom (node_heap t)"
  obtains t' where "dl_insert_node a t = Some t'" and "dl_frame t t'"
    and "order_ok t' (xs @ [a])" and "clock_ok iv t' (xs @ [a])"
    and "\<And>dat :: addr \<rightharpoonup> 'd. entries dat (vw nd_delta (node_heap t')) 0 (xs @ [a]) =
           entries dat (vw nd_delta (node_heap t)) 0 xs @ [(the (dat a), unat iv)]"
proof (cases xs rule: rev_cases)
  case Nil
  then have "delta_head t = None" using ord by (simp add: order_ok_def)
  from dl_insert_node_empty [OF this a(2)] show ?thesis
    by (rule that)
      (use Nil a iv in \<open>auto simp: dl_frame_def order_ok_def clock_ok_def\<close>)
next
  case (snoc ys b)
  obtain m where m: "node_heap t b = Some m" using sub snoc by auto
  obtain x where hd: "delta_head t = Some x"
    using ord snoc by (cases ys) (auto simp: order_ok_def)
  have tl: "delta_tail t = Some b" and ba: "b \<noteq> a" using ord snoc a by (auto simp: order_ok_def)
  have dle: "unat (tbl_delta t) \<le> unat (interval t)" using clk iv by (simp add: clock_ok_def)
  have seg: "dseg (vw dl_next (node_heap t)) (vw dl_prev (node_heap t)) None (delta_head t) (ys @ [b]) None"
    and dist: "distinct (ys @ [b])" using ord snoc by (simp_all add: order_ok_def)
  let ?t' = "t\<lparr>node_heap := (node_heap t)(b \<mapsto> m\<lparr>dl_next := Some a\<rparr>,
       a \<mapsto> n\<lparr>nd_delta := interval t - tbl_delta t, dl_prev := Some b, dl_next := None\<rparr>),
     delta_tail := Some a, tbl_delta := interval t\<rparr>"
  note eq = dl_insert_node_tail [OF hd a(2) tl m ba]
  show ?thesis
  proof (rule that [OF eq])
    show "dl_frame t ?t'"
      using a m by (auto simp: dl_frame_def)
  next
    show "order_ok ?t' (xs @ [a])"
      using a snoc m seg dist by (auto simp: order_ok_def dseg_append fun_upd_twist)
  next
    show "clock_ok iv ?t' (xs @ [a])"
      using a snoc m clk iv dle by (cases ys) (auto simp: clock_ok_def unat_sub_word)
  next
    fix dat :: "addr \<rightharpoonup> 'd"
    show "entries dat (vw nd_delta (node_heap ?t')) 0 (xs @ [a]) =
           entries dat (vw nd_delta (node_heap t)) 0 xs @ [(the (dat a), unat iv)]"
      using a snoc m clk iv dle by (auto simp: clock_ok_def unat_sub_word)
  qed
qed


lemma order_ok_nodes:
  assumes "order_ok t (as @ a # bs)" and "set (as @ a # bs) \<subseteq> dom (node_heap t)"
  obtains n where "node_heap t a = Some n" and "dl_prev n = lastp None as"
    and "dl_next n = (case bs of [] \<Rightarrow> None | b # _ \<Rightarrow> Some b)"
proof -
  obtain n where n: "node_heap t a = Some n" using assms(2) by auto
  have "dseg (vw dl_next (node_heap t)) (vw dl_prev (node_heap t)) None (delta_head t) (as @ a # bs) None"
    using assms(1) by (simp add: order_ok_def)
  then have "dl_prev n = lastp None as" "dl_next n = (case bs of [] \<Rightarrow> None | b # _ \<Rightarrow> Some b)"
    using n by (auto simp: dseg_append vw_Some split: list.splits)
  with n show ?thesis by (rule that)
qed

definition unlink_next :: "'d delta_node \<Rightarrow> 'd delta_list \<Rightarrow> 'd delta_list option" where
  "unlink_next n t = (case dl_next n of
     Some nx \<Rightarrow> upd_nd nx (\<lambda>m. m\<lparr>nd_delta := nd_delta m + nd_delta n, dl_prev := dl_prev n\<rparr>) t
   | None \<Rightarrow> Some (t\<lparr>tbl_delta := tbl_delta t - nd_delta n\<rparr>))"

definition unlink_prev :: "'d delta_node \<Rightarrow> 'd delta_list \<Rightarrow> 'd delta_list option" where
  "unlink_prev n t = (case dl_prev n of
     Some pv \<Rightarrow> upd_nd pv (\<lambda>m. m\<lparr>dl_next := dl_next n\<rparr>) t
   | None \<Rightarrow> Some (t\<lparr>delta_head := dl_next n\<rparr>))"

lemma dl_remove_node_split:
  assumes "node_heap t a = Some n" and "dl_next n \<noteq> Some a"
  shows "dl_remove_node a t = do { t \<leftarrow> unlink_next n t; unlink_prev n t }"
proof (cases "dl_next n")
  case None
  with assms show ?thesis
    by (simp add: dl_remove_node_def unlink_next_def unlink_prev_def heap_simps)
next
  case nx: (Some b)
  show ?thesis
  proof (cases "node_heap t b")
    case None
    with nx assms show ?thesis by (simp add: dl_remove_node_def unlink_next_def heap_simps)
  next
    case (Some m)
    with nx assms show ?thesis
      by (simp add: dl_remove_node_def unlink_next_def unlink_prev_def heap_simps)
  qed
qed

text \<open>
  Unlinking keeps the other nodes linked in order and their expiry times; it never moves
  \<open>delta_tail\<close>.
\<close>

lemma unlink_next_ok:
  fixes t :: "'d delta_list"
  assumes ord: "order_ok t (as @ a # bs)" and clk: "clock_ok iv t (as @ a # bs)"
    and sub: "set (as @ a # bs) \<subseteq> dom (node_heap t)" and n: "node_heap t a = Some n"
  obtains t' where "unlink_next n t = Some t'" and "dl_frame t t'"
    and "delta_head t' = delta_head t" and "delta_tail t' = delta_tail t"
    and "vw dl_next (node_heap t') = vw dl_next (node_heap t)"
    and "dseg (vw dl_next (node_heap t')) (vw dl_prev (node_heap t')) None (delta_head t') as (Some a)"
    and "dseg (vw dl_next (node_heap t')) (vw dl_prev (node_heap t')) (lastp None as) (dl_next n) bs None"
    and "clock_ok iv t' (as @ bs)"
    and "\<And>dat :: addr \<rightharpoonup> 'd. entries dat (vw nd_delta (node_heap t')) 0 (as @ bs) =
           entries dat (vw nd_delta (node_heap t)) 0 as @
           entries dat (vw nd_delta (node_heap t)) (dsum (vw nd_delta (node_heap t)) (as @ [a])) bs"
proof -
  obtain n' where "node_heap t a = Some n'" "dl_prev n' = lastp None as"
    "dl_next n' = (case bs of [] \<Rightarrow> None | b # _ \<Rightarrow> Some b)"
    using ord sub by (rule order_ok_nodes)
  with n have pv: "dl_prev n = lastp None as"
    and nx: "dl_next n = (case bs of [] \<Rightarrow> None | b # _ \<Rightarrow> Some b)" by simp_all
  let ?h = "node_heap t"
  have seg: "dseg (vw dl_next ?h) (vw dl_prev ?h) None (delta_head t) as (Some a)"
      "dseg (vw dl_next ?h) (vw dl_prev ?h) (Some a) (dl_next n) bs None"
    using ord n by (auto simp: order_ok_def dseg_append vw_Some)
  show ?thesis
  proof (cases bs)
    case Nil
    let ?t' = "t\<lparr>tbl_delta := tbl_delta t - nd_delta n\<rparr>"
    have "unlink_next n t = Some ?t'" using nx Nil by (simp add: unlink_next_def)
    moreover have "clock_ok iv ?t' (as @ bs)"
      using clk Nil n by (cases as) (auto simp: clock_ok_def vw_Some unat_sub_word)
    ultimately show ?thesis using seg Nil by (intro that [of ?t']) (auto simp: dl_frame_def)
  next
    case (Cons b cs)
    obtain m where m: "?h b = Some m" using sub Cons by auto
    have dist: "b \<notin> set as" "b \<notin> set cs" "a \<noteq> b" using ord Cons by (auto simp: order_ok_def)
    have nov: "unat (nd_delta m) + unat (nd_delta n) < 2 ^ LENGTH(32)"
      using clk Cons n m unat_uint_less [of iv] by (auto simp: clock_ok_def vw_Some)
    let ?m = "m\<lparr>nd_delta := nd_delta m + nd_delta n, dl_prev := dl_prev n\<rparr>"
    let ?t' = "t\<lparr>node_heap := ?h(b \<mapsto> ?m)\<rparr>"
    have "unlink_next n t = Some ?t'" using nx Cons m by (simp add: unlink_next_def heap_simps)
    moreover have "clock_ok iv ?t' (as @ bs)"
      using clk Cons n m dist unat_add_word [OF nov]
      by (cases as) (auto simp: clock_ok_def vw_Some)
    ultimately show ?thesis
      using seg Cons m dist pv n unat_add_word [OF nov]
      by (intro that [of ?t']) (auto simp: dl_frame_def vw_Some add_ac)
  qed
qed

text \<open>
  Unlinking keeps the other nodes linked in order, keeps their expiry times, and never moves
  \<open>delta_tail\<close>.
\<close>

lemma dl_remove_node_ok:
  fixes t :: "'d delta_list"
  assumes ord: "order_ok t (as @ a # bs)" and clk: "clock_ok iv t (as @ a # bs)"
    and sub: "set (as @ a # bs) \<subseteq> dom (node_heap t)"
  obtains t' where "dl_remove_node a t = Some t'" and "dl_frame t t'"
    and "delta_tail t' = delta_tail t"
    and "dseg (vw dl_next (node_heap t')) (vw dl_prev (node_heap t')) None (delta_head t') (as @ bs) None"
    and "clock_ok iv t' (as @ bs)"
    and "\<And>dat :: addr \<rightharpoonup> 'd. entries dat (vw nd_delta (node_heap t')) 0 (as @ bs) =
           entries dat (vw nd_delta (node_heap t)) 0 as @
           entries dat (vw nd_delta (node_heap t)) (dsum (vw nd_delta (node_heap t)) (as @ [a])) bs"
proof -
  obtain n where n: "node_heap t a = Some n" and pv: "dl_prev n = lastp None as"
    and nx: "dl_next n = (case bs of [] \<Rightarrow> None | b # _ \<Rightarrow> Some b)"
    using ord sub by (rule order_ok_nodes)
  obtain u where u: "unlink_next n t = Some u" "dl_frame t u"
    "delta_head u = delta_head t" "delta_tail u = delta_tail t"
    "vw dl_next (node_heap u) = vw dl_next (node_heap t)"
    "dseg (vw dl_next (node_heap u)) (vw dl_prev (node_heap u)) None (delta_head u) as (Some a)"
    "dseg (vw dl_next (node_heap u)) (vw dl_prev (node_heap u)) (lastp None as) (dl_next n) bs None"
    "clock_ok iv u (as @ bs)"
    "\<And>dat :: addr \<rightharpoonup> 'd. entries dat (vw nd_delta (node_heap u)) 0 (as @ bs) =
       entries dat (vw nd_delta (node_heap t)) 0 as @
       entries dat (vw nd_delta (node_heap t)) (dsum (vw nd_delta (node_heap t)) (as @ [a])) bs"
    using ord clk sub n by (rule unlink_next_ok) blast
  have dist: "distinct (as @ a # bs)" using ord by (simp add: order_ok_def)
  then have "dl_next n \<noteq> Some a" using nx by (auto split: list.splits)
  with n u(1) have rm: "dl_remove_node a t = unlink_prev n u" by (simp add: dl_remove_node_split)
  show ?thesis
  proof (cases as rule: rev_cases)
    case Nil
    let ?t' = "u\<lparr>delta_head := dl_next n\<rparr>"
    have "dl_remove_node a t = Some ?t'" using rm pv Nil by (simp add: unlink_prev_def)
    then show ?thesis using u Nil
      by (intro that [of ?t']) (auto simp: dl_frame_def clock_ok_def)
  next
    case (snoc cs c)
    have "c \<in> dom (node_heap u)" using u(2) sub snoc by (auto simp: dl_frame_def)
    then obtain m where m: "node_heap u c = Some m" by blast
    have c: "c \<notin> set cs" "c \<notin> set bs" using dist snoc by auto
    let ?t' = "u\<lparr>node_heap := (node_heap u)(c \<mapsto> m\<lparr>dl_next := dl_next n\<rparr>)\<rparr>"
    have "dl_remove_node a t = Some ?t'"
      using rm pv snoc m by (simp add: unlink_prev_def heap_simps)
    moreover have "dl_frame u ?t'" using m by (auto simp: dl_frame_def)
    with u(2) have "dl_frame t ?t'" by (rule dl_frame_trans)
    moreover have "dseg (vw dl_next (node_heap ?t')) (vw dl_prev (node_heap ?t')) None (delta_head ?t') (as @ bs) None"
      using u(6,7) snoc m c by (auto simp: dseg_append)
    ultimately show ?thesis using u m
      by (intro that [of ?t']) (auto simp: clock_ok_def)
  qed
qed

text \<open>The first half of \<open>delta_delete\<close>: taking a node out of its bucket.\<close>

definition hash_unlink :: "'d \<Rightarrow> 'd delta_node \<Rightarrow> ptr \<Rightarrow> 'd delta_list \<Rightarrow> 'd delta_list option" where
  "hash_unlink d n prev t = (case prev of
     Some pv \<Rightarrow> upd_nd pv (\<lambda>m. m\<lparr>ht_next := ht_next n\<rparr>) t
   | None \<Rightarrow> Some (t\<lparr>table := (table t)[ht_index t d := ht_next n]\<rparr>))"

section \<open>The contract of a table\<close>

locale delta_table =
  fixes hash :: "'d \<Rightarrow> ulong"
    and equals :: "'d \<Rightarrow> 'd \<Rightarrow> bool"
    and valid :: "'d \<Rightarrow> bool"
    and iv :: uint
  assumes equals_refl: "valid d \<Longrightarrow> equals d d"
    and equals_sym: "equals d e \<Longrightarrow> equals e d"
    and equals_trans: "equals c d \<Longrightarrow> equals d e \<Longrightarrow> equals c e"
    and hash_cong: "equals d e \<Longrightarrow> hash d = hash e"
    and interval_pos: "0 < unat iv"
begin

abbreviation inv where "inv \<equiv> dl_inv hash equals valid iv"
abbreviation core where "core \<equiv> dl_core hash equals valid iv"
abbreviation rep where "rep \<equiv> dl_rep hash equals valid iv"
abbreviation dat where "dat t \<equiv> vw nd_data (node_heap t)"

lemma get_node_loop_miss:
  assumes "hchain (vw ht_next (node_heap t)) s ys"
    and "\<forall>a \<in> set ys. \<not> tbl_equals t (the (dat t a)) d"
  shows "get_node_loop t d s p = Some (None, lastp p ys)"
  using assms
  by (induction ys arbitrary: s p)
    (subst get_node_loop.simps, force simp: heap_simps)+

lemma get_node_loop_hit:
  assumes "hchain (vw ht_next (node_heap t)) s (us @ a # vs)"
    and "\<forall>u \<in> set us. \<not> tbl_equals t (the (dat t u)) d" and "tbl_equals t (the (dat t a)) d"
  shows "get_node_loop t d s p = Some (Some a, lastp p us)"
  using assms
  by (induction us arbitrary: s p)
    (subst get_node_loop.simps, force simp: heap_simps)+


subsection \<open>Searching\<close>

lemma get_node_miss:
  assumes ok: "buckets_ok hash t xs bs" and eq: "tbl_equals t = equals"
    and miss: "\<forall>a \<in> set xs. \<not> equals (the (dat t a)) d"
  shows "\<exists>p. get_node t d = Some (None, p)"
proof -
  note bs = buckets_okD [OF ok ht_index_less [of t d]]
  have "\<forall>a \<in> set (bs (ht_index t d)). \<not> tbl_equals t (the (dat t a)) d"
    using bs(3) miss eq by auto
  with bs(1) have "get_node_loop t d (table t ! ht_index t d) None = Some (None, lastp None (bs (ht_index t d)))"
    by (rule get_node_loop_miss)
  then show ?thesis by (simp add: get_node_def)
qed

lemma core_miss:
  assumes "core t xs gs" and "\<forall>a \<in> set (xs @ gs). \<not> equals (the (dat t a)) d"
  shows "\<exists>p. get_node t d = Some (None, p)"
  using assms get_node_miss [of t "xs @ gs"] by (auto simp: dl_core_def)

lemma keys_unique:
  assumes "keys_ok equals valid (dat t) ys" and "a \<in> set ys" and "b \<in> set ys"
    and "equals (the (dat t a)) d" and "equals (the (dat t b)) d"
  shows "a = b"
  using assms(1-3) equals_trans [OF assms(4) equals_sym [OF assms(5)]]
  by (auto simp: keys_ok_def)

lemma get_node_hit:
  assumes ok: "buckets_ok hash t ys bs" and keys: "keys_ok equals valid (dat t) ys"
    and eq: "tbl_equals t = equals" "tbl_hash t = hash"
    and a: "a \<in> set ys" and hit: "equals (the (dat t a)) d"
  obtains us vs where "bs (ht_index t d) = us @ a # vs"
    and "get_node t d = Some (Some a, lastp None us)"
proof -
  note bs = buckets_okD [OF ok ht_index_less [of t d]]
  have "a \<in> set (bs (ht_index t d))"
    unfolding bs(3) using a hash_cong [OF hit] by (simp add: ht_index_def eq)
  then obtain us vs where uv: "bs (ht_index t d) = us @ a # vs" by (blast dest: split_list)
  have "\<not> tbl_equals t (the (dat t u)) d" if u: "u \<in> set us" for u
  proof
    assume "tbl_equals t (the (dat t u)) d"
    then have "equals (the (dat t u)) d" by (simp only: eq)
    moreover have "u \<in> set (bs (ht_index t d))" using uv u by simp
    then have "u \<in> set ys" unfolding bs(3) by simp
    ultimately have "u = a" using keys_unique [OF keys _ a _ hit] by blast
    then show False using u bs(2) uv by simp
  qed
  then have "get_node_loop t d (table t ! ht_index t d) None = Some (Some a, lastp None us)"
    using bs(1) hit by (intro get_node_loop_hit [where vs = vs]) (simp_all add: uv eq)
  then show ?thesis by (intro that [OF uv]) (simp add: get_node_def)
qed

lemma core_hit:
  assumes "core t xs gs" and "a \<in> set (xs @ gs)" and "equals (the (dat t a)) d"
  obtains bs us vs where "buckets_ok hash t (xs @ gs) bs" and "bs (ht_index t d) = us @ a # vs"
    and "get_node t d = Some (Some a, lastp None us)"
proof -
  obtain bs where "buckets_ok hash t (xs @ gs) bs" "keys_ok equals valid (dat t) (xs @ gs)"
    "tbl_equals t = equals" "tbl_hash t = hash" using assms(1) by (auto simp: dl_core_def)
  with assms(2,3) show ?thesis using that get_node_hit by metis
qed

lemma core_dat:
  assumes "core t xs gs" and "a \<in> set (xs @ gs)"
  shows "dat t a = Some (the (dat t a))"
proof -
  have "a \<in> dom (node_heap t)" using assms by (simp add: dl_core_def)
  then show ?thesis by (auto simp: vw_def)
qed

subsection \<open>Moving a node on and off the delta list\<close>

lemma core_frame:
  assumes core: "core t xs gs" and fr: "dl_frame t t'" and "order_ok t' ys" and "clock_ok iv t' ys"
    and set: "set (ys @ hs) = set (xs @ gs)" and "distinct (ys @ hs)"
  shows "core t' ys hs"
proof -
  have "buckets_ok hash t' (ys @ hs) bs = buckets_ok hash t (xs @ gs) bs" for bs
    unfolding buckets_ok_def set using fr by (simp add: dl_frame_def)
  moreover have "keys_ok equals valid (dat t') (ys @ hs) = keys_ok equals valid (dat t) (xs @ gs)"
    unfolding keys_ok_def set using fr by (simp add: dl_frame_def)
  ultimately show ?thesis using assms unfolding dl_core_def dl_frame_def by metis
qed

lemma attach_ok:
  assumes core: "core t xs [a]"
  obtains t' where "dl_insert_node a t = Some t'" and "dl_frame t t'" and "core t' (xs @ [a]) []"
    and "tbl_entries t' (xs @ [a]) = tbl_entries t xs @ [(the (dat t a), unat iv)]"
proof -
  have "a \<in> dom (node_heap t)" "a \<notin> set xs" "set xs \<subseteq> dom (node_heap t)" "interval t = iv"
    "order_ok t xs" "clock_ok iv t xs" "distinct (xs @ [a])"
    using core by (auto simp: dl_core_def)
  moreover from this(1) obtain n where "node_heap t a = Some n" by blast
  ultimately obtain t' where t': "dl_insert_node a t = Some t'" "dl_frame t t'"
    "order_ok t' (xs @ [a])" "clock_ok iv t' (xs @ [a])"
    "\<And>dat :: addr \<rightharpoonup> 'd. entries dat (vw nd_delta (node_heap t')) 0 (xs @ [a]) =
       entries dat (vw nd_delta (node_heap t)) 0 xs @ [(the (dat a), unat iv)]"
    using interval_pos dl_insert_node_ok [of t xs iv a n] by blast
  have "core t' (xs @ [a]) []"
    using core_frame [OF core t'(2-4)] \<open>distinct (xs @ [a])\<close> by simp
  have dat: "dat t' = dat t" using t'(2) by (simp add: dl_frame_def)
  have "tbl_entries t' (xs @ [a]) = tbl_entries t xs @ [(the (dat t a), unat iv)]"
    unfolding tbl_entries_def dat by (rule t'(5))
  then show ?thesis by (rule that [OF t'(1,2) \<open>core t' (xs @ [a]) []\<close>])
qed

lemma detach_ok:
  assumes core: "core t (as @ a # bs) []" and ends: "bs \<noteq> [] \<or> as = []"
  obtains t' where "dl_remove_node a t = Some t'" and "dl_frame t t'" and "core t' (as @ bs) [a]"
    and "tbl_entries t' (as @ bs) = tbl_entries t as @ drop (Suc (length as)) (tbl_entries t (as @ a # bs))"
proof -
  have sub: "set (as @ a # bs) \<subseteq> dom (node_heap t)" and ord: "order_ok t (as @ a # bs)"
    and clk: "clock_ok iv t (as @ a # bs)" using core by (simp_all add: dl_core_def)
  from ord clk sub obtain t' where t': "dl_remove_node a t = Some t'" "dl_frame t t'"
    "delta_tail t' = delta_tail t"
    "dseg (vw dl_next (node_heap t')) (vw dl_prev (node_heap t')) None (delta_head t') (as @ bs) None"
    "clock_ok iv t' (as @ bs)"
    "\<And>dat :: addr \<rightharpoonup> 'd. entries dat (vw nd_delta (node_heap t')) 0 (as @ bs) =
       entries dat (vw nd_delta (node_heap t)) 0 as @
       entries dat (vw nd_delta (node_heap t)) (dsum (vw nd_delta (node_heap t)) (as @ [a])) bs"
    by (rule dl_remove_node_ok) blast
  have dist: "distinct (as @ a # bs)" using ord by (simp add: order_ok_def)
  then have "order_ok t' (as @ bs)" using t'(3,4) ends ord by (auto simp: order_ok_def)
  then have "core t' (as @ bs) [a]" using core_frame [OF core t'(2) _ t'(5)] dist by auto
  have dat: "dat t' = dat t" using t'(2) by (simp add: dl_frame_def)
  have "tbl_entries t' (as @ bs) = tbl_entries t as @ drop (Suc (length as)) (tbl_entries t (as @ a # bs))"
    unfolding tbl_entries_def dat t'(6) by simp
  then show ?thesis by (rule that [OF t'(1,2) \<open>core t' (as @ bs) [a]\<close>])
qed

subsection \<open>Entering a fresh node into the hash table\<close>

lemma hash_link_ok:
  assumes core: "core t xs []" and valid: "valid d" and miss: "\<forall>a \<in> set xs. \<not> equals (the (dat t a)) d"
  obtains t' where "hash_insert (node_brk t) (snd (new_nd d t)) = Some t'"
    and "core t' xs [node_brk t]" and "tbl_entries t' xs = tbl_entries t xs"
    and "dat t' (node_brk t) = Some d" and "tbl_size t' = tbl_size t"
    and "acted t' = acted t" and "freed t' = freed t" and "resolution t' = resolution t"
proof -
  let ?a = "node_brk t" and ?i = "ht_index t d"
  have a: "?a \<notin> set xs" using core by (auto simp: dl_core_def)
  obtain bs where bs: "buckets_ok hash t xs bs" using core by (auto simp: dl_core_def)
  let ?n = "\<lparr>nd_data = d, nd_delta = 0, ht_next = table t ! ?i, dl_next = None, dl_prev = None\<rparr>"
  let ?t' = "t\<lparr>node_heap := (node_heap t)(?a \<mapsto> ?n), node_brk := Suc ?a, table := (table t)[?i := Some ?a]\<rparr>"
  have eq: "hash_insert ?a (snd (new_nd d t)) = Some ?t'"
    by (simp add: hash_insert_def new_nd_def Let_def heap_simps ht_index_def)
  have hash: "tbl_hash t = hash" and len: "length (table t) = HT_SIZE"
    using core bs by (simp_all add: dl_core_def buckets_ok_def)
  have "buckets_ok hash ?t' (xs @ [?a]) (bs(?i := ?a # bs ?i))"
    unfolding buckets_ok_def
  proof (intro conjI allI impI)
    fix i assume i: "i < HT_SIZE"
    have out: "?a \<notin> set (bs i)" using buckets_okD(3) [OF bs i] a by auto
    show "hchain (vw ht_next (node_heap ?t')) (table ?t' ! i) ((bs(?i := ?a # bs ?i)) i)"
      using buckets_okD(1) [OF bs i] out i len by (cases "i = ?i") (simp_all)
    show "distinct ((bs(?i := ?a # bs ?i)) i)"
      using buckets_okD(2) [OF bs i] out by (cases "i = ?i") simp_all
    show "set ((bs(?i := ?a # bs ?i)) i) =
        {b \<in> set (xs @ [?a]). unat (hash (the (vw nd_data (node_heap ?t') b))) mod HT_SIZE = i}"
      using buckets_okD(3) [OF bs i] a by (auto simp: ht_index_def hash)
  qed (simp add: len)
  moreover have "order_ok ?t' xs" "clock_ok iv ?t' xs"
    using core a by (simp_all add: dl_core_def order_ok_def clock_ok_def)
  moreover have "keys_ok equals valid (dat ?t') (xs @ [?a])"
  proof -
    have "keys_ok equals valid (dat t) xs" using core by (simp add: dl_core_def)
    with a valid miss show ?thesis by (auto simp: keys_ok_def dest: equals_sym)
  qed
  ultimately have "core ?t' xs [?a]"
    using core a by (auto simp: dl_core_def less_Suc_eq)
  with eq a show ?thesis
    by (intro that [of ?t']) (simp_all add: tbl_entries_def)
qed


subsection \<open>Taking a node out of the hash table\<close>

lemma hash_unlink_ok:
  assumes bs: "buckets_ok hash t xs bs" and uv: "bs (ht_index t d) = us @ a # vs"
    and n: "node_heap t a = Some n" and sub: "set xs \<subseteq> dom (node_heap t)"
    and ys: "set ys = set xs - {a}"
  obtains h tb bs' where "hash_unlink d n (lastp None us) t = Some (t\<lparr>node_heap := h, table := tb\<rparr>)"
    and "buckets_ok hash (t\<lparr>node_heap := h, table := tb\<rparr>) ys bs'"
    and "dom h = dom (node_heap t)" and "vw nd_data h = vw nd_data (node_heap t)"
    and "vw nd_delta h = vw nd_delta (node_heap t)" and "vw dl_next h = vw dl_next (node_heap t)"
    and "vw dl_prev h = vw dl_prev (node_heap t)"
proof -
  let ?i = "ht_index t d"
  let ?bs = "bs(?i := us @ vs)"
  note D = buckets_okD [OF bs]
  have len: "length (table t) = HT_SIZE" using bs by (simp add: buckets_ok_def)
  have D_i: "hchain (vw ht_next (node_heap t)) (table t ! ?i) (us @ a # vs)" "distinct (us @ a # vs)"
    "set (us @ a # vs) = {b \<in> set xs. unat (hash (the (vw nd_data (node_heap t) b))) mod HT_SIZE = ?i}"
    using D [OF ht_index_less [of t d]] uv by simp_all
  have mem: "distinct (?bs i) \<and>
      set (?bs i) = {b \<in> set ys. unat (hash (the (vw nd_data (node_heap t) b))) mod HT_SIZE = i}"
    if i: "i < HT_SIZE" for i
  proof (cases "i = ?i")
    case True
    have "set (us @ vs) = set (us @ a # vs) - {a}" using D_i(2) by auto
    also have "\<dots> = {b \<in> set ys. unat (hash (the (vw nd_data (node_heap t) b))) mod HT_SIZE = ?i}"
      unfolding D_i(3) ys by auto
    finally show ?thesis using True D_i(2) by simp
  next
    case False
    have "a \<in> set (us @ a # vs)" by simp
    then have "unat (hash (the (vw nd_data (node_heap t) a))) mod HT_SIZE = ?i"
      unfolding D_i(3) by simp
    then show ?thesis using False D(2,3) [OF i] ys by auto
  qed
  show ?thesis
  proof (cases us rule: rev_cases)
    case Nil
    let ?tb = "(table t)[?i := ht_next n]"
    have "hchain (vw ht_next (node_heap t)) (?tb ! i) (?bs i)" if "i < HT_SIZE" for i
      using D(1) [OF that] D_i(1) Nil n len that by (cases "i = ?i") (auto simp: vw_Some)
    then have "buckets_ok hash (t\<lparr>node_heap := node_heap t, table := ?tb\<rparr>) ys ?bs"
      using mem len by (simp add: buckets_ok_def del: fun_upd_apply)
    then show ?thesis using Nil by (intro that) (simp_all add: hash_unlink_def)
  next
    case (snoc ws u)
    have "u \<in> set (us @ a # vs)" using snoc by simp
    then have "u \<in> set xs" unfolding D_i(3) by simp
    then obtain m where m: "node_heap t u = Some m" using sub by blast
    let ?h = "(node_heap t)(u \<mapsto> m\<lparr>ht_next := ht_next n\<rparr>)"
    have "hchain (vw ht_next ?h) (table t ! i) (?bs i)" if i: "i < HT_SIZE" for i
    proof (cases "i = ?i")
      case True
      have "hchain ((vw ht_next (node_heap t))(u \<mapsto> ht_next n)) (table t ! ?i) (ws @ [u] @ vs)"
        using D_i(1,2) snoc n by (intro hchain_unlink [where a = a]) (simp_all add: vw_Some)
      then show ?thesis using True snoc by simp
    next
      case False
      have "u \<in> set (us @ a # vs)" using snoc by simp
      then have "unat (hash (the (vw nd_data (node_heap t) u))) mod HT_SIZE = ?i"
        unfolding D_i(3) by simp
      then have "u \<notin> set (bs i)" using False D(3) [OF i] by auto
      then show ?thesis using False D(1) [OF i] by simp
    qed
    then have "buckets_ok hash (t\<lparr>node_heap := ?h, table := table t\<rparr>) ys ?bs"
      using mem len m by (simp add: buckets_ok_def del: fun_upd_apply)
    then show ?thesis using snoc m
      by (intro that [of "table t" ?h ?bs]) (auto simp: hash_unlink_def heap_simps)
  qed
qed


lemma delta_delete_gen:
  assumes core: "core t (as @ a # bs) []" and hit: "equals (the (dat t a)) d"
  obtains t' where "delta_delete d t = Some (0, t')"
    and "dom (node_heap t') = set (as @ bs)" and "delta_tail t' = delta_tail t"
    and "dseg (vw dl_next (node_heap t')) (vw dl_prev (node_heap t')) None (delta_head t') (as @ bs) None"
    and "clock_ok iv t' (as @ bs)" and "\<exists>ks. buckets_ok hash t' (as @ bs) ks"
    and "keys_ok equals valid (dat t') (as @ bs)"
    and "tbl_entries t' (as @ bs) = tbl_entries t as @ drop (Suc (length as)) (tbl_entries t (as @ a # bs))"
    and "del_frame (the (dat t a)) t t'"
proof -
  have dist: "distinct (as @ a # bs)" and dom: "dom (node_heap t) = set (as @ a # bs)"
    and ord: "order_ok t (as @ a # bs)" and clk: "clock_ok iv t (as @ a # bs)"
    using core by (simp_all add: dl_core_def)
  obtain n where n: "node_heap t a = Some n" using dom by auto
  obtain ks us vs where ks: "buckets_ok hash t (as @ a # bs) ks" "ks (ht_index t d) = us @ a # vs"
    and get: "get_node t d = Some (Some a, lastp None us)"
    using core_hit [OF core _ hit] by (metis append_Nil2 in_set_conv_decomp)
  have sub: "set (as @ a # bs) \<subseteq> dom (node_heap t)" using dom by simp
  have ys: "set (as @ bs) = set (as @ a # bs) - {a}" using dist by auto
  obtain h tb ks' where u: "hash_unlink d n (lastp None us) t = Some (t\<lparr>node_heap := h, table := tb\<rparr>)"
    "buckets_ok hash (t\<lparr>node_heap := h, table := tb\<rparr>) (as @ bs) ks'" "dom h = dom (node_heap t)"
    "vw nd_data h = vw nd_data (node_heap t)" "vw nd_delta h = vw nd_delta (node_heap t)"
    "vw dl_next h = vw dl_next (node_heap t)" "vw dl_prev h = vw dl_prev (node_heap t)"
    using ks n sub ys by (rule hash_unlink_ok)
  let ?u = "t\<lparr>node_heap := h, table := tb\<rparr>"
  have "order_ok ?u (as @ a # bs)" "clock_ok iv ?u (as @ a # bs)" "set (as @ a # bs) \<subseteq> dom (node_heap ?u)"
    using ord clk u sub by (simp_all add: order_ok_def clock_ok_def)
  then obtain v where v: "dl_remove_node a ?u = Some v" "dl_frame ?u v" "delta_tail v = delta_tail ?u"
    "dseg (vw dl_next (node_heap v)) (vw dl_prev (node_heap v)) None (delta_head v) (as @ bs) None"
    "clock_ok iv v (as @ bs)"
    "\<And>dat :: addr \<rightharpoonup> 'd. entries dat (vw nd_delta (node_heap v)) 0 (as @ bs) =
       entries dat (vw nd_delta (node_heap ?u)) 0 as @
       entries dat (vw nd_delta (node_heap ?u)) (dsum (vw nd_delta (node_heap ?u)) (as @ [a])) bs"
    by (rule dl_remove_node_ok) blast
  have datv: "dat v = dat t" using v(2) u(4) by (simp add: dl_frame_def)
  have "a \<in> dom (node_heap v)" using v(2) u(3) dom by (simp add: dl_frame_def)
  then obtain m where m: "node_heap v a = Some m" by blast
  then have ma: "the (dat t a) = nd_data m" using datv by (metis option.sel vw_Some)
  let ?t' = "v\<lparr>tbl_size := tbl_size v - 1, freed := freed v @ [nd_data m], node_heap := (node_heap v)(a := None)\<rparr>"
  show ?thesis
  proof (rule that [of ?t'])
    show "delta_delete d t = Some (0, ?t')"
      using get n u(1) v(1) m
      by (simp add: delta_delete_def hash_unlink_def get_nd_def free_nd_def Let_def)
  next
    show "dom (node_heap ?t') = set (as @ bs)" using v(2) u(3) dom dist by (auto simp: dl_frame_def)
    show "delta_tail ?t' = delta_tail t" using v(3) by simp
    show "dseg (vw dl_next (node_heap ?t')) (vw dl_prev (node_heap ?t')) None (delta_head ?t') (as @ bs) None"
      using v(4) dist by simp
    show "clock_ok iv ?t' (as @ bs)" using v(5) dist by (simp add: clock_ok_def)
  next
    have "buckets_ok hash v (as @ bs) ks'" using u(2) v(2) by (simp add: buckets_ok_def dl_frame_def)
    then have "buckets_ok hash ?t' (as @ bs) ks'" using dist by (auto simp: buckets_ok_def)
    then show "\<exists>ks. buckets_ok hash ?t' (as @ bs) ks" by blast
  next
    have "keys_ok equals valid (dat t) (as @ a # bs)" using core by (simp add: dl_core_def)
    then have "keys_ok equals valid (dat v) (as @ bs)" unfolding datv keys_ok_def by auto
    then show "keys_ok equals valid (dat ?t') (as @ bs)" using dist by (auto simp: keys_ok_def)
  next
    show "tbl_entries ?t' (as @ bs) = tbl_entries t as @ drop (Suc (length as)) (tbl_entries t (as @ a # bs))"
      using v(6) [of "dat t"] dist u(5) by (simp add: tbl_entries_def datv)
  next
    show "del_frame (the (dat t a)) t ?t'" using v(2) ma by (simp add: dl_frame_def del_frame_def)
  qed
qed

lemma delta_delete_ok:
  assumes core: "core t (as @ a # bs) []" and hit: "equals (the (dat t a)) d" and ends: "bs \<noteq> [] \<or> as = []"
  obtains t' where "delta_delete d t = Some (0, t')" and "core t' (as @ bs) []"
    and "tbl_entries t' (as @ bs) = tbl_entries t as @ drop (Suc (length as)) (tbl_entries t (as @ a # bs))"
    and "del_frame (the (dat t a)) t t'"
proof -
  from core hit obtain t' where t': "delta_delete d t = Some (0, t')"
    "dom (node_heap t') = set (as @ bs)" "delta_tail t' = delta_tail t"
    "dseg (vw dl_next (node_heap t')) (vw dl_prev (node_heap t')) None (delta_head t') (as @ bs) None"
    "clock_ok iv t' (as @ bs)" "\<exists>ks. buckets_ok hash t' (as @ bs) ks"
    "keys_ok equals valid (dat t') (as @ bs)"
    "tbl_entries t' (as @ bs) = tbl_entries t as @ drop (Suc (length as)) (tbl_entries t (as @ a # bs))"
    "del_frame (the (dat t a)) t t'" by (rule delta_delete_gen)
  have "order_ok t' (as @ bs)" using t'(3,4) core ends by (auto simp: dl_core_def order_ok_def)
  then have "core t' (as @ bs) []" using core t' by (auto simp: dl_core_def del_frame_def)
  with t' show ?thesis by (intro that)
qed


subsection \<open>Refinement of the operations\<close>

lemma tbl_entries_append:
  "tbl_entries t (as @ bs) =
     tbl_entries t as @ entries (dat t) (vw nd_delta (node_heap t)) (dsum (vw nd_delta (node_heap t)) as) bs"
  by (simp add: tbl_entries_def)

lemma repE:
  assumes "rep t es"
  obtains xs where "core t xs []" and "tbl_size t = of_nat (length xs)" and "es = tbl_entries t xs"
    and "\<forall>e \<in> set es. 0 < snd e"
  using assms by (auto simp: dl_rep_def dl_inv_def)

lemma repI:
  assumes "core t xs []" and "tbl_size t = of_nat (length xs)" and "tbl_entries t xs = es"
    and "\<forall>e \<in> set es. 0 < snd e"
  shows "rep t es"
  using assms by (auto simp: dl_rep_def dl_inv_def)

lemma entries_split:
  assumes "tbl_entries t xs = fs @ e # gs"
  obtains as a bs where "xs = as @ a # bs" and "length as = length fs" and "length bs = length gs"
    and "fst e = the (dat t a)" and "tbl_entries t as = fs"
    and "drop (Suc (length as)) (tbl_entries t (as @ a # bs)) = gs"
proof -
  have len: "length xs = length fs + Suc (length gs)"
    using arg_cong [OF assms, of length] by (simp add: tbl_entries_def)
  then obtain as a bs where xs: "xs = as @ a # bs" and la: "length as = length fs"
    by (metis id_take_nth_drop less_add_Suc1 length_take min.absorb2 order_less_imp_le add_Suc_right)
  let ?E = "entries (dat t) (vw nd_delta (node_heap t))"
  let ?k = "dsum (vw nd_delta (node_heap t)) (as @ [a])"
  have "tbl_entries t as @ (the (dat t a), ?k) # ?E ?k bs = fs @ e # gs"
    using assms xs by (simp add: tbl_entries_append)
  then have "tbl_entries t as = fs \<and> (the (dat t a), ?k) # ?E ?k bs = e # gs"
    by (subst (asm) append_eq_append_conv) (simp_all add: la tbl_entries_def)
  moreover have "drop (Suc (length as)) (tbl_entries t (as @ a # bs)) = ?E ?k bs"
    by (simp add: tbl_entries_def)
  ultimately show ?thesis using xs la len by (intro that [of as a bs]) auto
qed

lemma entries_keys: "fst ` set (tbl_entries t xs) = (\<lambda>a. the (dat t a)) ` set xs"
  unfolding set_map [symmetric] tbl_entries_def map_fst_entries by simp

lemma rep_valid:
  assumes "rep t es" and "e \<in> set es"
  shows "valid (fst e)"
proof -
  obtain xs where xs: "es = tbl_entries t xs" "\<forall>a \<in> set xs. valid (the (dat t a))"
    using assms(1) by (auto simp: dl_rep_def dl_inv_def dl_core_def keys_ok_def)
  have "fst e \<in> (\<lambda>a. the (dat t a)) ` set xs" using assms(2) unfolding xs(1) entries_keys [symmetric] by blast
  then show ?thesis using xs(2) by auto
qed

lemma miss_keys:
  "list_ex (\<lambda>e. equals (fst e) d) (tbl_entries t xs) \<longleftrightarrow> (\<exists>a \<in> set xs. equals (the (dat t a)) d)"
proof -
  have "list_ex (\<lambda>e. equals (fst e) d) (tbl_entries t xs) \<longleftrightarrow>
      (\<exists>x \<in> fst ` set (tbl_entries t xs). equals x d)" by (auto simp: list_ex_iff)
  then show ?thesis unfolding entries_keys by simp
qed

lemma get_node_rep:
  assumes "rep t es"
  shows "\<exists>np p. get_node t d = Some (np, p) \<and>
    (case np of None \<Rightarrow> \<not> list_ex (\<lambda>e. equals (fst e) d) es
     | Some a \<Rightarrow> (\<exists>n k. node_heap t a = Some n \<and> equals (nd_data n) d \<and> (nd_data n, k) \<in> set es))"
proof -
  obtain xs where xs: "core t xs []" "es = tbl_entries t xs" using assms by (rule repE)
  show ?thesis
  proof (cases "\<exists>a \<in> set xs. equals (the (dat t a)) d")
    case True
    then obtain a where a: "a \<in> set xs" "equals (the (dat t a)) d" by blast
    then obtain p where "get_node t d = Some (Some a, p)"
      using core_hit [OF xs(1)] by (metis append_Nil2)
    moreover obtain n where "node_heap t a = Some n" using xs(1) a by (auto simp: dl_core_def)
    moreover have "the (dat t a) \<in> fst ` set es" unfolding xs(2) entries_keys using a by blast
    ultimately show ?thesis using a by (force simp: vw_Some)
  next
    case False
    then show ?thesis using core_miss [OF xs(1), of d] miss_keys [of d t xs] xs(2) by auto
  qed
qed

lemma fresh_link:
  assumes "rep t es" and "valid d" and miss: "\<not> list_ex (\<lambda>e. equals (fst e) d) es"
  obtains xs t' where "hash_insert (node_brk t) (snd (new_nd d t)) = Some t'"
    and "core t' xs [node_brk t]" and "tbl_entries t' xs = es" and "dat t' (node_brk t) = Some d"
    and "tbl_size t' = of_nat (length xs)" and "acted t' = acted t" and "freed t' = freed t"
    and "resolution t' = resolution t"
proof -
  obtain xs where xs: "core t xs []" "tbl_size t = of_nat (length xs)" "es = tbl_entries t xs"
    using assms(1) by (rule repE)
  have "\<forall>a \<in> set xs. \<not> equals (the (dat t a)) d" using miss miss_keys xs(3) by blast
  from hash_link_ok [OF xs(1) assms(2) this] obtain t' where
    "hash_insert (node_brk t) (snd (new_nd d t)) = Some t'" "core t' xs [node_brk t]"
    "tbl_entries t' xs = tbl_entries t xs" "dat t' (node_brk t) = Some d" "tbl_size t' = tbl_size t"
    "acted t' = acted t" "freed t' = freed t" "resolution t' = resolution t" by blast
  with xs show ?thesis by (intro that [of t' xs]) simp_all
qed

lemma attach_rep:
  assumes core: "core t xs [a]" and "tbl_size t' = of_nat (Suc (length xs))" and "dat t a = Some d"
    and "dl_insert_node a t = Some u" and u: "t' = u\<lparr>tbl_size := tbl_size t'\<rparr>"
    and "\<forall>e \<in> set (tbl_entries t xs). 0 < snd e"
  shows "rep t' (tbl_entries t xs @ [(d, unat iv)])" and "dl_frame t u"
proof -
  obtain v where "dl_insert_node a t = Some v" "dl_frame t v" "core v (xs @ [a]) []"
    "tbl_entries v (xs @ [a]) = tbl_entries t xs @ [(the (dat t a), unat iv)]"
    using core by (rule attach_ok)
  then have v: "dl_frame t u" "core u (xs @ [a]) []"
    "tbl_entries u (xs @ [a]) = tbl_entries t xs @ [(d, unat iv)]"
    using assms(3,4) by simp_all
  show "dl_frame t u" by fact
  have "core t' (xs @ [a]) []"
    using v(2) by (subst u) (simp add: dl_core_def order_ok_def clock_ok_def buckets_ok_def)
  moreover have "tbl_entries t' (xs @ [a]) = tbl_entries t xs @ [(d, unat iv)]"
    using v(3) by (subst u) (simp add: tbl_entries_def)
  ultimately show "rep t' (tbl_entries t xs @ [(d, unat iv)])"
    using assms(2,6) interval_pos by (intro repI) auto
qed

lemma delta_insert_rep:
  assumes rep: "rep t es" and valid: "valid d"
  obtains t' where "delta_insert d t = Some t'" and "rep t' (spec_insert equals iv d es)"
    and "acted t' = acted t" and "freed t' = freed t"
proof -
  obtain np p where get: "get_node t d = Some (np, p)" and
    np: "case np of None \<Rightarrow> \<not> list_ex (\<lambda>e. equals (fst e) d) es
       | Some a \<Rightarrow> (\<exists>n k. node_heap t a = Some n \<and> equals (nd_data n) d \<and> (nd_data n, k) \<in> set es)"
    using get_node_rep [OF rep] by blast
  show ?thesis
  proof (cases np)
    case (Some a)
    then have "list_ex (\<lambda>e. equals (fst e) d) es" using np by (force simp: list_ex_iff)
    with Some get rep show ?thesis
      by (intro that [of t]) (simp_all add: delta_insert_def spec_insert_def)
  next
    case None
    then have miss: "\<not> list_ex (\<lambda>e. equals (fst e) d) es" using np by simp
    from rep valid miss obtain xs u where u: "hash_insert (node_brk t) (snd (new_nd d t)) = Some u"
      "core u xs [node_brk t]" "tbl_entries u xs = es" "dat u (node_brk t) = Some d"
      "tbl_size u = of_nat (length xs)" "acted u = acted t" "freed u = freed t"
      by (rule fresh_link)
    obtain v where v: "dl_insert_node (node_brk t) u = Some v" using u(2) by (rule attach_ok)
    let ?t' = "v\<lparr>tbl_size := of_nat (Suc (length xs))\<rparr>"
    have pos: "\<forall>e \<in> set (tbl_entries u xs). 0 < snd e" using rep u(3) by (auto simp: dl_rep_def)
    have r: "rep ?t' (es @ [(d, unat iv)])" "dl_frame u v"
      using attach_rep [OF u(2) _ u(4) v _ pos, of ?t'] u(3) by simp_all
    have "delta_insert d t = Some ?t'"
      using get None u(1,5) v r(2)
      by (simp add: delta_insert_def split_def Let_def new_nd_def dl_frame_def add.commute)
    then show ?thesis using r u miss
      by (intro that [of ?t']) (simp_all add: spec_insert_def dl_frame_def)
  qed
qed


lemma core_tbl_size [simp]: "core (t\<lparr>tbl_size := s\<rparr>) xs gs = core t xs gs"
  by (simp add: dl_core_def order_ok_def clock_ok_def buckets_ok_def)

lemma tbl_entries_tbl_size [simp]: "tbl_entries (t\<lparr>tbl_size := s\<rparr>) xs = tbl_entries t xs"
  by (simp add: tbl_entries_def)

lemma rep_unique:
  assumes "rep t (fs @ e # gs)" and "equals (fst e) d"
  shows "spec_remove equals d (fs @ e # gs) = fs @ gs"
    and "find (\<lambda>e. equals (fst e) d) (fs @ e # gs) = Some e"
proof -
  obtain xs where xs: "core t xs []" "fs @ e # gs = tbl_entries t xs" using assms(1) by (rule repE)
  from xs(2) [symmetric] obtain as a bs where split: "xs = as @ a # bs" "fst e = the (dat t a)"
    "tbl_entries t as = fs" "drop (Suc (length as)) (tbl_entries t (as @ a # bs)) = gs"
    by (rule entries_split)
  have dist: "distinct (as @ a # bs)" using xs(1) split(1) by (simp add: dl_core_def)
  have out: "\<not> equals x d" if "x \<in> (\<lambda>b. the (dat t b)) ` set (as @ bs)" for x
  proof -
    have "keys_ok equals valid (dat t) (as @ a # bs)" using xs(1) split(1) by (simp add: dl_core_def)
    from keys_unique [OF this, of _ a d] show ?thesis using that assms(2) split(2) dist by fastforce
  qed
  have "fst ` set fs = (\<lambda>b. the (dat t b)) ` set as"
    unfolding split(3) [symmetric] by (rule entries_keys)
  moreover have "map fst gs = map (\<lambda>b. the (dat t b)) bs"
    using map_fst_entries [of "dat t" "vw nd_delta (node_heap t)" 0 "as @ a # bs"]
    unfolding split(4) [symmetric] tbl_entries_def drop_map [symmetric] by (simp add: drop_map)
  then have "fst ` set gs = (\<lambda>b. the (dat t b)) ` set bs" by (metis set_map)
  ultimately have miss: "\<not> equals (fst f) d" if "f \<in> set (fs @ gs)" for f
    using that out [of "fst f"] by force
  show "spec_remove equals d (fs @ e # gs) = fs @ gs"
    using miss assms(2) by (simp add: spec_remove_def)
  have "find (\<lambda>e. equals (fst e) d) fs = None" using miss by (fastforce simp: find_None_iff)
  moreover have "find P (us @ v # vs) = Some v" if "find P us = None" "P v" for P us and v :: "'d \<times> nat" and vs
    using that by (induction us) (auto split: if_splits)
  ultimately show "find (\<lambda>e. equals (fst e) d) (fs @ e # gs) = Some e" using assms(2) by blast
qed

lemma rep_miss:
  assumes "rep t es" and "\<not> list_ex (\<lambda>e. equals (fst e) d) es"
  shows "\<exists>p. get_node t d = Some (None, p)"
proof -
  obtain xs where xs: "core t xs []" "es = tbl_entries t xs" using assms(1) by (rule repE)
  with assms(2) miss_keys [of d t xs] show ?thesis by (intro core_miss [OF xs(1)]) simp
qed

lemma delta_remove_miss:
  assumes "rep t es" and "\<not> list_ex (\<lambda>e. equals (fst e) d) es"
  shows "delta_remove d t = Some (-1, t)"
  using rep_miss [OF assms] by (auto simp: delta_remove_def delta_delete_def)

lemma delta_remove_rep:
  assumes rep: "rep t (fs @ e # gs)" and hit: "equals (fst e) d" and ends: "gs \<noteq> [] \<or> fs = []"
  obtains t' where "delta_remove d t = Some (0, t')" and "rep t' (fs @ gs)"
    and "acted t' = acted t" and "freed t' = freed t @ [fst e]"
proof -
  obtain xs where xs: "core t xs []" "tbl_size t = of_nat (length xs)" "fs @ e # gs = tbl_entries t xs"
    and pos: "\<forall>e \<in> set (fs @ e # gs). 0 < snd e" using rep by (rule repE)
  from xs(3) [symmetric] obtain as a bs where sp: "xs = as @ a # bs" "length as = length fs"
    "length bs = length gs" "fst e = the (dat t a)" "tbl_entries t as = fs"
    "drop (Suc (length as)) (tbl_entries t (as @ a # bs)) = gs" by (rule entries_split)
  have core: "core t (as @ a # bs) []" and h: "equals (the (dat t a)) d"
    using xs(1) sp(1,4) hit by simp_all
  obtain t' where t': "delta_delete d t = Some (0, t')" "core t' (as @ bs) []"
    "tbl_entries t' (as @ bs) = tbl_entries t as @ drop (Suc (length as)) (tbl_entries t (as @ a # bs))"
    "del_frame (the (dat t a)) t t'"
    using core h by (rule delta_delete_ok) (use ends sp(2,3) in auto)
  note t'(2)
  moreover have "tbl_size t' = of_nat (length (as @ bs))" 
    using t'(4) xs(2) sp(1) by (simp add: del_frame_def)
  moreover have "tbl_entries t' (as @ bs) = fs @ gs" using t'(3) sp(5,6) by simp
  ultimately have "rep t' (fs @ gs)" using pos by (intro repI) auto
  then show ?thesis using t'(1,4) sp(4)
    by (intro that [of t']) (simp_all add: delta_remove_def del_frame_def)
qed


lemma delta_update_fresh:
  assumes rep: "rep t es" and valid: "valid d" and miss: "\<not> list_ex (\<lambda>e. equals (fst e) d) es"
  obtains t' where "delta_update d t = Some (0, t')" and "rep t' (es @ [(d, unat iv)])"
    and "acted t' = acted t" and "freed t' = freed t"
proof -
  obtain p where get: "get_node t d = Some (None, p)" using rep_miss [OF rep miss] by blast
  from rep valid miss obtain xs u where u: "hash_insert (node_brk t) (snd (new_nd d t)) = Some u"
    "core u xs [node_brk t]" "tbl_entries u xs = es" "dat u (node_brk t) = Some d"
    "tbl_size u = of_nat (length xs)" "acted u = acted t" "freed u = freed t"
    by (rule fresh_link)
  let ?u = "u\<lparr>tbl_size := tbl_size u + 1\<rparr>"
  have core: "core ?u xs [node_brk t]" and dat: "dat ?u (node_brk t) = Some d"
    and ent: "tbl_entries ?u xs = es" using u by simp_all
  obtain v where v: "dl_insert_node (node_brk t) ?u = Some v" "dl_frame ?u v"
    using core by (rule attach_ok)
  have pos: "\<forall>e \<in> set (tbl_entries ?u xs). 0 < snd e" using rep ent by (auto simp: dl_rep_def)
  have sz: "tbl_size v = of_nat (Suc (length xs))" using v(2) u(5) by (simp add: dl_frame_def)
  have r: "rep v (es @ [(d, unat iv)])"
    using attach_rep(1) [OF core sz dat v(1) _ pos] ent by simp
  have "delta_update d t = Some (0, v)"
    using get u(1) v(1) by (simp add: delta_update_def split_def Let_def new_nd_def)
  then show ?thesis using r u v(2) by (intro that [of v]) (simp_all add: dl_frame_def)
qed

lemma delta_update_hit:
  assumes rep: "rep t (fs @ e # gs)" and hit: "equals (fst e) d" and ends: "gs \<noteq> [] \<or> fs = []"
  obtains t' where "delta_update d t = Some (1, t')" and "rep t' (fs @ gs @ [(fst e, unat iv)])"
    and "acted t' = acted t" and "freed t' = freed t"
proof -
  obtain xs where xs: "core t xs []" "tbl_size t = of_nat (length xs)" "fs @ e # gs = tbl_entries t xs"
    and pos: "\<forall>e \<in> set (fs @ e # gs). 0 < snd e" using rep by (rule repE)
  from xs(3) [symmetric] obtain as a bs where sp: "xs = as @ a # bs" "length as = length fs"
    "length bs = length gs" "fst e = the (dat t a)" "tbl_entries t as = fs"
    "drop (Suc (length as)) (tbl_entries t (as @ a # bs)) = gs" by (rule entries_split)
  have core: "core t (as @ a # bs) []" and a: "a \<in> set ((as @ a # bs) @ [])"
    and h: "equals (the (dat t a)) d" using xs(1) sp(1,4) hit by simp_all
  obtain p where get: "get_node t d = Some (Some a, p)" using core a h by (rule core_hit)
  obtain u where u: "dl_remove_node a t = Some u" "dl_frame t u" "core u (as @ bs) [a]"
    "tbl_entries u (as @ bs) = tbl_entries t as @ drop (Suc (length as)) (tbl_entries t (as @ a # bs))"
    using core by (rule detach_ok) (use ends sp(2,3) in auto)
  have dat: "dat u a = Some (fst e)"
    using core_dat [OF core a] u(2) sp(4) by (simp add: dl_frame_def)
  obtain v where v: "dl_insert_node a u = Some v" "dl_frame u v" using u(3) by (rule attach_ok)
  have ent: "tbl_entries u (as @ bs) = fs @ gs" using u(4) sp(5,6) by simp
  have pos': "\<forall>e \<in> set (tbl_entries u (as @ bs)). 0 < snd e" using pos ent by auto
  have sz: "tbl_size v = of_nat (Suc (length (as @ bs)))"
    using u(2) v(2) xs(2) sp(1) by (simp add: dl_frame_def)
  have "rep v (fs @ gs @ [(fst e, unat iv)])"
    using attach_rep(1) [OF u(3) sz dat v(1) _ pos'] ent by simp
  moreover have "delta_update d t = Some (1, v)" using get u(1) v(1) by (simp add: delta_update_def)
  ultimately show ?thesis using u(2) v(2) by (intro that [of v]) (simp_all add: dl_frame_def)
qed


lemma delta_foreach_rep:
  assumes "rep t es"
  shows "delta_foreach t f arg = Some (spec_foreach f (map fst es) arg)"
proof -
  obtain xs where xs: "core t xs []" "es = tbl_entries t xs" using assms by (rule repE)
  then have "delta_foreach t f arg = Some (spec_foreach f (map (\<lambda>a. the (dat t a)) xs) arg)"
    unfolding delta_foreach_def 
    by (intro foreach_loop_dseg [where pv = "vw dl_prev (node_heap t)" and p = None])
      (simp add: dl_core_def order_ok_def)
  then show ?thesis by (simp add: xs(2) tbl_entries_def map_fst_entries)
qed

lemma delta_contains_rep:
  assumes "rep t es"
  shows "delta_contains d t = Some (if list_ex (\<lambda>e. equals (fst e) d) es then 1 else 0)"
  using get_node_rep [OF assms, of d]
  by (force simp: delta_contains_def list_ex_iff split: option.splits)

lemma delta_get_rep:
  assumes "rep t es"
  shows "delta_get d t = Some (map_option fst (find (\<lambda>e. equals (fst e) d) es))"
proof -
  obtain np p where get: "get_node t d = Some (np, p)" and
    np: "case np of None \<Rightarrow> \<not> list_ex (\<lambda>e. equals (fst e) d) es
       | Some a \<Rightarrow> (\<exists>n k. node_heap t a = Some n \<and> equals (nd_data n) d \<and> (nd_data n, k) \<in> set es)"
    using get_node_rep [OF assms] by blast
  show ?thesis
  proof (cases np)
    case None
    then have "find (\<lambda>e. equals (fst e) d) es = None"
      using np by (auto simp: find_None_iff list_ex_iff)
    with get None show ?thesis by (simp add: delta_get_def)
  next
    case (Some a)
    then obtain n k where n: "node_heap t a = Some n" "equals (nd_data n) d" "(nd_data n, k) \<in> set es"
      using np by auto
    from n(3) obtain fs gs where es: "es = fs @ (nd_data n, k) # gs" by (blast dest: split_list)
    have "find (\<lambda>e. equals (fst e) d) es = Some (nd_data n, k)"
      using rep_unique(2) [of t fs "(nd_data n, k)" gs d] assms es n(2) by simp
    with get Some n(1) show ?thesis by (simp add: delta_get_def get_nd_def)
  qed
qed

lemma delta_size_rep: "rep t es \<Longrightarrow> delta_size t = of_nat (length es)"
  by (erule repE) (simp add: delta_size_def tbl_entries_def)

subsection \<open>Time\<close>

lemma sorted_entries: "sorted (map snd (entries dt dv k xs)) \<and> (\<forall>e \<in> set (entries dt dv k xs). k \<le> snd e)"
  by (induction xs arbitrary: k) (auto simp: le_trans, fastforce)

lemma delta_expire_ok:
  assumes "core t xs []" and "tbl_size t = of_nat (length xs)" and "tbl_entries t xs = es"
  shows "\<exists>t' ys. delta_expire t = Some t' \<and> core t' ys [] \<and> tbl_size t' = of_nat (length ys) \<and>
    tbl_entries t' ys = dropWhile (\<lambda>e. snd e = 0) es \<and>
    acted t' = acted t @ map fst (takeWhile (\<lambda>e. snd e = 0) es) \<and>
    freed t' = freed t @ map fst (takeWhile (\<lambda>e. snd e = 0) es)"
  using assms
proof (induction xs arbitrary: t es)
  case Nil
  then have "delta_head t = None" by (simp add: dl_core_def order_ok_def)
  with Nil show ?case by (subst delta_expire.simps) (auto simp: tbl_entries_def)
next
  case (Cons a xs)
  let ?t = "t\<lparr>acted := acted t @ [the (dat t a)]\<rparr>"
  have hd: "delta_head t = Some a" and "a \<in> dom (node_heap t)"
    using Cons.prems(1) by (auto simp: dl_core_def order_ok_def)
  then obtain n where n: "node_heap t a = Some n" by blast
  have es: "es = (nd_data n, unat (nd_delta n)) # entries (dat t) (vw nd_delta (node_heap t)) (unat (nd_delta n)) xs"
    using Cons.prems(3) n by (simp add: tbl_entries_def vw_Some)
  show ?case
  proof (cases "nd_delta n = 0")
    case False
    then have "unat (nd_delta n) \<noteq> 0" by (simp add: unat_eq_zero)
    with False hd n Cons.prems es show ?thesis
      by (subst delta_expire.simps) (auto simp: heap_simps)
  next
    case True
    have core: "core ?t ([] @ a # xs) []"
      using Cons.prems(1) by (simp add: dl_core_def order_ok_def clock_ok_def buckets_ok_def)
    have "valid (the (dat t a))" using Cons.prems(1) by (simp add: dl_core_def keys_ok_def)
    then have hit: "equals (the (dat ?t a)) (the (dat t a))" using equals_refl by simp
    obtain u where u: "delta_delete (the (dat t a)) ?t = Some (0, u)" "core u ([] @ xs) []"
      "tbl_entries u ([] @ xs) = tbl_entries ?t [] @ drop (Suc (length ([] :: addr list))) (tbl_entries ?t ([] @ a # xs))"
      "del_frame (the (dat ?t a)) ?t u"
      using core hit by (rule delta_delete_ok) simp
    have "core u xs []" using u(2) by simp
    moreover have "tbl_size u = of_nat (length xs)"
      using u(4) Cons.prems(2) by (simp add: del_frame_def)
    moreover have "tbl_entries u xs = tl es"
      using u(3) es True n by (simp add: tbl_entries_def vw_Some drop_Suc)
    ultimately obtain t' ys where ys: "delta_expire u = Some t'" "core t' ys []"
      "tbl_size t' = of_nat (length ys)"
      "tbl_entries t' ys = dropWhile (\<lambda>e. snd e = 0) (tl es)"
      "acted t' = acted u @ map fst (takeWhile (\<lambda>e. snd e = 0) (tl es))"
      "freed t' = freed u @ map fst (takeWhile (\<lambda>e. snd e = 0) (tl es))"
      using Cons.IH by blast
    have "delta_expire t = delta_expire u"
      using hd n True u(1) by (subst delta_expire.simps) (simp add: heap_simps)
    then show ?thesis using ys u(4) es True n
      by (intro exI [of _ t'] exI [of _ ys]) (simp add: vw_Some del_frame_def)
  qed
qed


lemma entries_shift: "0 < k \<Longrightarrow> entries dt dv (k - 1) xs = map (\<lambda>e. (fst e, snd e - 1)) (entries dt dv k xs)"
  by (induction xs arbitrary: k) (auto simp: add.commute)

lemma tick_filter:
  assumes "sorted (map snd es)" and "\<forall>e \<in> set es. 0 < snd e"
  shows "dropWhile (\<lambda>e. snd e = 0) (map (\<lambda>e. (fst e, snd e - 1)) es) = spec_tick es"
    and "map fst (takeWhile (\<lambda>e. snd e = 0) (map (\<lambda>e. (fst e, snd e - 1)) es)) = spec_expired es"
  using assms
proof (induction es)
  case (Cons e es)
  {
    case 1
    have "filter (\<lambda>x. Suc 0 < snd x) es = es" if "Suc 0 < snd e"
      using that 1 by (intro filter_True) fastforce
    then show ?case using 1 Cons.IH(1) by (auto simp: spec_tick_def)
  next
    case 2
    have "filter (\<lambda>x. snd x \<le> Suc 0) es = []" if "Suc 0 < snd e"
      using that 2 by (intro filter_False) fastforce
    then show ?case using 2 Cons.IH(2) by (auto simp: spec_expired_def)
  }
qed (simp_all add: spec_tick_def spec_expired_def)

lemma delta_tick_rep:
  assumes rep: "rep t es"
  obtains t' where "delta_tick t = Some t'" and "rep t' (spec_tick es)"
    and "acted t' = acted t @ spec_expired es" and "freed t' = freed t @ spec_expired es"
proof -
  obtain xs where xs: "core t xs []" "tbl_size t = of_nat (length xs)" "es = tbl_entries t xs"
    and pos: "\<forall>e \<in> set es. 0 < snd e" using rep by (rule repE)
  show ?thesis
  proof (cases xs)
    case Nil
    then have "delta_tick t = Some t" "es = []"
      using xs by (simp_all add: delta_tick_def dl_core_def order_ok_def tbl_entries_def)
    with rep show ?thesis by (intro that [of t]) (simp_all add: spec_tick_def spec_expired_def)
  next
    case (Cons a as)
    have hd: "delta_head t = Some a" and "a \<in> dom (node_heap t)" and a: "a \<notin> set as"
      using xs(1) Cons by (auto simp: dl_core_def order_ok_def)
    then obtain n where n: "node_heap t a = Some n" by blast
    let ?dv = "vw nd_delta (node_heap t)" and ?n = "n\<lparr>nd_delta := nd_delta n - 1\<rparr>"
    let ?t = "t\<lparr>tbl_delta := tbl_delta t - 1, node_heap := (node_heap t)(a \<mapsto> ?n)\<rparr>"
    have dn: "0 < unat (nd_delta n)" using pos xs(3) Cons n by (simp add: tbl_entries_def vw_Some)
    note dec = unat_dec_word [OF dn]
    have clk: "clock_ok iv t xs" using xs(1) by (simp add: dl_core_def)
    then have "0 < unat (tbl_delta t)" using dn Cons n by (simp add: clock_ok_def vw_Some)
    then have "clock_ok iv ?t xs"
      using clk Cons n a dec dn by (auto simp: clock_ok_def vw_Some unat_dec_word)
    then have "core ?t xs []"
      using xs(1) n by (auto simp: dl_core_def order_ok_def buckets_ok_def)
    moreover have "tbl_size ?t = of_nat (length xs)" using xs(2) by simp
    moreover have "tbl_entries ?t xs = map (\<lambda>e. (fst e, snd e - 1)) es"
      using xs(3) Cons n a dec dn entries_shift [of "unat (nd_delta n)" "dat t" ?dv as]
      by (simp add: tbl_entries_def vw_Some)
    ultimately obtain t' ys where ys: "delta_expire ?t = Some t'" "core t' ys []"
      "tbl_size t' = of_nat (length ys)"
      "tbl_entries t' ys = dropWhile (\<lambda>e. snd e = 0) (map (\<lambda>e. (fst e, snd e - 1)) es)"
      "acted t' = acted ?t @ map fst (takeWhile (\<lambda>e. snd e = 0) (map (\<lambda>e. (fst e, snd e - 1)) es))"
      "freed t' = freed ?t @ map fst (takeWhile (\<lambda>e. snd e = 0) (map (\<lambda>e. (fst e, snd e - 1)) es))"
      using delta_expire_ok by blast
    have sorted: "sorted (map snd es)"
      using xs(3) sorted_entries [of "dat t" ?dv 0 xs] by (simp add: tbl_entries_def)
    have "delta_tick t = Some t'"
      using hd n ys(1) by (simp add: delta_tick_def Let_def heap_simps)
    moreover have "rep t' (spec_tick es)"
      using ys(2-4) tick_filter(1) [OF sorted pos] by (intro repI) (auto simp: spec_tick_def)
    ultimately show ?thesis
      using ys(5,6) tick_filter(2) [OF sorted pos] by (intro that [of t']) simp_all
  qed
qed

subsection \<open>Emptying the table\<close>

lemma clear_loop_ok:
  assumes "dseg (vw dl_next (node_heap t)) pv p s xs None" and "distinct xs" and "set xs \<subseteq> dom (node_heap t)"
  shows "clear_loop s t = Some (t\<lparr>node_heap := node_heap t |` (- set xs)\<rparr>)"
  using assms
proof (induction xs arbitrary: p s t)
  case Nil
  then show ?case by (subst clear_loop.simps) (simp add: restrict_map_def)
next
  case (Cons a as)
  then obtain n where n: "node_heap t a = Some n" by auto
  let ?t = "t\<lparr>node_heap := (node_heap t)(a := None)\<rparr>"
  have "clear_loop (dl_next n) ?t = Some (?t\<lparr>node_heap := node_heap ?t |` (- set as)\<rparr>)"
    using Cons.prems n
    by (intro Cons.IH [of _ "Some a"]) (auto simp: vw_Some simp del: fun_upd_apply)
  moreover have "clear_loop s t = clear_loop (dl_next n) ?t"
    using Cons.prems n by (subst clear_loop.simps) (simp add: heap_simps free_nd_def)
  moreover have "(node_heap t)(a := None) |` (- set as) = node_heap t |` (- set (a # as))"
    by (auto simp: restrict_map_def)
  ultimately show ?case by simp
qed

lemma rep_empty:
  assumes "tbl_hash t = hash" and "tbl_equals t = equals" and "interval t = iv" and "tbl_size t = 0"
    and "tbl_delta t = 0" and "delta_head t = None" and "table t = replicate HT_SIZE None"
    and "node_heap t = Map.empty"
  shows "rep t []"
proof (rule repI)
  have "buckets_ok hash t [] (\<lambda>_. [])" using assms by (simp add: buckets_ok_def)
  then show "core t [] []"
    using assms by (auto simp: dl_core_def order_ok_def clock_ok_def keys_ok_def)
qed (use assms in \<open>simp_all add: tbl_entries_def\<close>)

lemma delta_clear_rep:
  assumes "rep t es"
  obtains t' where "delta_clear t = Some t'" and "rep t' []" and "freed t' = freed t"
proof -
  obtain xs where xs: "core t xs []" using assms by (rule repE)
  have ord: "dseg (vw dl_next (node_heap t)) (vw dl_prev (node_heap t)) None (delta_head t) xs None"
    "distinct xs" and dom: "dom (node_heap t) = set xs"
    using xs by (simp_all add: dl_core_def order_ok_def)
  have loop: "clear_loop (delta_head t) t = Some (t\<lparr>node_heap := node_heap t |` (- set xs)\<rparr>)"
    using ord dom by (intro clear_loop_ok) simp_all
  have none: "node_heap t |` (- set xs) = Map.empty"
    using dom by (auto simp: restrict_map_def fun_eq_iff)
  let ?t' = "t\<lparr>node_heap := Map.empty, tbl_size := 0, tbl_delta := 0,
      delta_head := None, delta_tail := None, table := replicate HT_SIZE None\<rparr>"
  from loop none have "delta_clear t = Some ?t'" by (simp add: delta_clear_def)
  moreover have "rep ?t' []" using xs by (intro rep_empty) (simp_all add: dl_core_def)
  ultimately show ?thesis by (rule that) simp
qed

end

end
