(* ===== verification/Deltalist_Stale.thy ===== *)
theory Deltalist_Stale
  imports Deltalist_Inv
begin

text \<open>
  What happens to a table whose \<open>delta_tail\<close> has gone stale: \<open>dl_remove_node\<close> does not move it
  when the node it unlinks is the last of several. An update then leaves a node that is in the
  hash table only, and no number of ticks takes it out; a removal leaves a dangling pointer.
\<close>

context delta_table
begin

section \<open>Tables with nodes outside the delta list\<close>

text \<open>The nodes \<open>xs\<close> are on the delta list, the nodes \<open>gs\<close> in the hash table only; nothing is said
  of \<open>delta_tail\<close> and of the deltas.\<close>

definition listed :: "'d delta_list \<Rightarrow> addr list \<Rightarrow> addr list \<Rightarrow> bool" where
  "listed t xs gs \<longleftrightarrow> tbl_hash t = hash \<and> tbl_equals t = equals \<and>
     dom (node_heap t) = set (xs @ gs) \<and> distinct (xs @ gs) \<and>
     dseg (vw dl_next (node_heap t)) (vw dl_prev (node_heap t)) None (delta_head t) xs None \<and>
     (\<exists>bs. buckets_ok hash t (xs @ gs) bs) \<and> keys_ok equals valid (dat t) (xs @ gs)"

lemma listed_hit:
  assumes "listed t xs gs" and "a \<in> set (xs @ gs)" and "equals (the (dat t a)) d"
  obtains bs us vs where "buckets_ok hash t (xs @ gs) bs" and "bs (ht_index t d) = us @ a # vs"
    and "get_node t d = Some (Some a, lastp None us)"
proof -
  obtain bs where "buckets_ok hash t (xs @ gs) bs" "keys_ok equals valid (dat t) (xs @ gs)"
    "tbl_equals t = equals" "tbl_hash t = hash" using assms(1) by (auto simp: listed_def)
  with assms(2,3) show ?thesis using that get_node_hit by metis
qed

text \<open>Unlinking the first node of the list.\<close>

lemma remove_head:
  assumes seg: "dseg (vw dl_next (node_heap t)) (vw dl_prev (node_heap t)) None (delta_head t) (a # xs) None"
    and dom: "set (a # xs) \<subseteq> dom (node_heap t)" and dist: "distinct (a # xs)"
  obtains t' where "dl_remove_node a t = Some t'" and "dl_frame t t'"
    and "dseg (vw dl_next (node_heap t')) (vw dl_prev (node_heap t')) None (delta_head t') xs None"
proof -
  obtain n where n: "node_heap t a = Some n" using dom by auto
  have p: "dl_prev n = None" and s: "dseg (vw dl_next (node_heap t)) (vw dl_prev (node_heap t)) (Some a) (dl_next n) xs None"
    using seg n by (auto simp: vw_Some)
  show ?thesis
  proof (cases xs)
    case Nil
    then have "dl_next n = None" using s by simp
    then show ?thesis using n p Nil
      by (intro that [of "t\<lparr>tbl_delta := tbl_delta t - nd_delta n, delta_head := None\<rparr>"])
        (simp_all add: dl_remove_node_split unlink_next_def unlink_prev_def dl_frame_def)
  next
    case (Cons b ys)
    then have b: "dl_next n = Some b" "b \<noteq> a" using s dist by auto
    obtain m where m: "node_heap t b = Some m" using dom Cons by auto
    let ?h = "(node_heap t)(b \<mapsto> m\<lparr>nd_delta := nd_delta m + nd_delta n, dl_prev := None\<rparr>)"
    let ?t' = "t\<lparr>node_heap := ?h, delta_head := Some b\<rparr>"
    have "dl_remove_node a t = Some ?t'"
      using n b m p by (simp add: dl_remove_node_split unlink_next_def unlink_prev_def upd_nd_def)
    moreover have "dseg (vw dl_next ?h) (vw dl_prev ?h) None (Some b) xs None"
      using s Cons m dist by (auto simp: vw_Some)
    ultimately show ?thesis using m by (intro that [of ?t']) (auto simp: dl_frame_def)
  qed
qed

lemma delete_head:
  assumes t: "listed t (a # xs) gs" and hit: "equals (the (dat t a)) d"
  obtains t' where "delta_delete d t = Some (0, t')" and "listed t' xs gs" and "\<forall>b \<in> set gs. dat t' b = dat t b"
proof -
  have dom: "dom (node_heap t) = set (a # xs @ gs)" and dist: "distinct (a # xs @ gs)" using t by (simp_all add: listed_def)
  obtain n where n: "node_heap t a = Some n" using dom by auto
  obtain ks us vs where ks: "buckets_ok hash t ((a # xs) @ gs) ks" "ks (ht_index t d) = us @ a # vs"
    and get: "get_node t d = Some (Some a, lastp None us)"
    using listed_hit [OF t _ hit] by (metis append_Cons list.set_intros(1))
  have ys: "set ((a # xs) @ gs) \<subseteq> dom (node_heap t)" "set (xs @ gs) = set ((a # xs) @ gs) - {a}" using dom dist by auto
  obtain h tb ks' where u: "hash_unlink d n (lastp None us) t = Some (t\<lparr>node_heap := h, table := tb\<rparr>)"
    "buckets_ok hash (t\<lparr>node_heap := h, table := tb\<rparr>) (xs @ gs) ks'" "dom h = dom (node_heap t)"
    "vw nd_data h = vw nd_data (node_heap t)" "vw nd_delta h = vw nd_delta (node_heap t)"
    "vw dl_next h = vw dl_next (node_heap t)" "vw dl_prev h = vw dl_prev (node_heap t)"
    using ks n ys by (rule hash_unlink_ok)
  let ?u = "t\<lparr>node_heap := h, table := tb\<rparr>"
  have "dseg (vw dl_next (node_heap ?u)) (vw dl_prev (node_heap ?u)) None (delta_head ?u) (a # xs) None"
    "set (a # xs) \<subseteq> dom (node_heap ?u)" "distinct (a # xs)" using t u dist dom by (auto simp: listed_def)
  then obtain v where v: "dl_remove_node a ?u = Some v" "dl_frame ?u v"
    "dseg (vw dl_next (node_heap v)) (vw dl_prev (node_heap v)) None (delta_head v) xs None" by (rule remove_head)
  have datv: "dat v = dat t" using v(2) u(4) by (simp add: dl_frame_def)
  have domv: "dom (node_heap v) = set (a # xs @ gs)" using v(2) u(3) dom by (simp add: dl_frame_def)
  then obtain m where m: "node_heap v a = Some m" by auto
  let ?t' = "v\<lparr>tbl_size := tbl_size v - 1, freed := freed v @ [nd_data m], node_heap := (node_heap v)(a := None)\<rparr>"
  have "buckets_ok hash v (xs @ gs) ks'" using u(2) v(2) by (simp add: buckets_ok_def dl_frame_def)
  then have "buckets_ok hash ?t' (xs @ gs) ks'" using dist by (auto simp: buckets_ok_def)
  moreover have "keys_ok equals valid (dat v) (xs @ gs)" using t unfolding datv listed_def keys_ok_def by auto
  then have "keys_ok equals valid (dat ?t') (xs @ gs)" using dist by (auto simp: keys_ok_def)
  moreover have "tbl_hash ?t' = hash" "tbl_equals ?t' = equals" using t v(2) by (simp_all add: listed_def dl_frame_def)
  ultimately have "listed ?t' xs gs" using v(3) dist domv by (auto simp: listed_def)
  moreover have "delta_delete d t = Some (0, ?t')"
    using get n u(1) v(1) m by (simp add: delta_delete_def hash_unlink_def get_nd_def free_nd_def Let_def)
  moreover have "\<forall>b \<in> set gs. dat ?t' b = dat t b" using datv dist by auto
  ultimately show ?thesis by (intro that)
qed

text \<open>The expiry loop ends and never reaches the nodes outside the list.\<close>

lemma expire_listed:
  "listed t xs gs \<Longrightarrow> \<exists>t' ys. delta_expire t = Some t' \<and> listed t' ys gs \<and> (\<forall>b \<in> set gs. dat t' b = dat t b)"
proof (induction xs arbitrary: t)
  case Nil
  then have "delta_head t = None" by (simp add: listed_def)
  then show ?case using Nil by (subst delta_expire.simps) auto
next
  case (Cons a xs)
  have hd: "delta_head t = Some a" and "a \<in> dom (node_heap t)" using Cons.prems by (auto simp: listed_def)
  then obtain n where n: "node_heap t a = Some n" by blast
  let ?t = "t\<lparr>acted := acted t @ [nd_data n]\<rparr>"
  show ?case
  proof (cases "nd_delta n = 0")
    case False
    then show ?thesis using hd n Cons.prems by (subst delta_expire.simps) (auto simp: get_nd_def)
  next
    case True
    have "listed ?t (a # xs) gs" using Cons.prems by (simp add: listed_def buckets_ok_def)
    moreover have "valid (nd_data n)" using Cons.prems n by (simp add: listed_def keys_ok_def vw_Some)
    then have "equals (the (dat ?t a)) (nd_data n)" using n equals_refl by (simp add: vw_Some)
    ultimately obtain u where u: "delta_delete (nd_data n) ?t = Some (0, u)" "listed u xs gs" "\<forall>b \<in> set gs. dat u b = dat ?t b"
      by (rule delete_head)
    obtain t' ys where "delta_expire u = Some t'" "listed t' ys gs" "\<forall>b \<in> set gs. dat t' b = dat u b"
      using Cons.IH [OF u(2)] by blast
    then show ?thesis using hd n True u by (subst delta_expire.simps) (auto simp: get_nd_def)
  qed
qed

lemma tick_listed:
  assumes "listed t xs gs"
  shows "\<exists>t' ys. delta_tick t = Some t' \<and> listed t' ys gs \<and> (\<forall>b \<in> set gs. dat t' b = dat t b)"
proof (cases "delta_head t")
  case None
  then show ?thesis using assms by (auto simp: delta_tick_def)
next
  case (Some a)
  then have "a \<in> dom (node_heap t)" using assms by (cases xs) (auto simp: listed_def)
  then obtain n where n: "node_heap t a = Some n" by blast
  let ?t = "t\<lparr>tbl_delta := tbl_delta t - 1, node_heap := (node_heap t)(a \<mapsto> n\<lparr>nd_delta := nd_delta n - 1\<rparr>)\<rparr>"
  have "dom (node_heap ?t) = dom (node_heap t)" using n by auto
  then have "listed ?t xs gs" using assms n by (simp add: listed_def buckets_ok_def)
  then show ?thesis using expire_listed [of ?t xs gs] Some n by (simp add: delta_tick_def upd_nd_def Let_def)
qed

lemma listed_contains: "listed t xs gs \<Longrightarrow> a \<in> set gs \<Longrightarrow> equals (the (dat t a)) d \<Longrightarrow> delta_contains d t = Some 1"
  by (rule listed_hit [of t xs gs a d]) (auto simp: delta_contains_def)

section \<open>The last node of a longer list\<close>

text \<open>
  \<open>dl_remove_node\<close> does not move \<open>delta_tail\<close> when the node it unlinks is the last of
  several. What the two callers then do is stated here for every such table.
\<close>

lemma last_split:
  assumes rep: "rep t (fs @ [e])" and ne: "fs \<noteq> []"
  obtains as a where "core t (as @ [a]) []" and "as \<noteq> []" and "fst e = the (dat t a)"
    and "map fst fs = map (\<lambda>b. the (dat t b)) as" and "delta_tail t = Some a"
proof -
  obtain xs where xs: "core t xs []" "fs @ [e] = tbl_entries t xs" using rep by (rule repE)
  from xs(2) [symmetric] obtain as a bs where sp: "xs = as @ a # bs" "length as = length fs"
    "length bs = length ([] :: ('d \<times> nat) list)" "fst e = the (dat t a)" "tbl_entries t as = fs"
    by (rule entries_split)
  have "map fst fs = map (\<lambda>b. the (dat t b)) as"
    using sp(5) by (metis map_fst_entries tbl_entries_def)
  moreover have "as \<noteq> []" using sp(2) ne by auto
  moreover have "delta_tail t = Some a" using xs(1) sp(1,3) by (simp add: dl_core_def order_ok_def)
  ultimately show ?thesis using xs(1) sp by (intro that [of as a]) simp_all
qed

lemma delta_update_last:
  assumes rep: "rep t (fs @ [e])" and ne: "fs \<noteq> []" and hit: "equals (fst e) d"
  obtains t' where "delta_update d t = Some (1, t')" and "delta_contains d t' = Some 1"
    and "delta_size t' = delta_size t"
    and "\<And>f (arg :: 'a). delta_foreach t' f arg = Some (spec_foreach f (map fst fs) arg)"
    and "\<exists>xs a. listed t' xs [a] \<and> equals (the (dat t' a)) d"
proof -
  obtain as a where core: "core t (as @ [a]) []" and as: "as \<noteq> []" "fst e = the (dat t a)"
    "map fst fs = map (\<lambda>b. the (dat t b)) as" "delta_tail t = Some a"
    using rep ne by (rule last_split)
  have h: "equals (the (dat t a)) d" using hit as(2) by simp
  obtain p where get: "get_node t d = Some (Some a, p)"
    by (rule core_hit [OF core _ h]) simp_all
  have ord: "order_ok t (as @ a # [])" and clk: "clock_ok iv t (as @ a # [])"
    and dom: "set (as @ a # []) \<subseteq> dom (node_heap t)" and dist: "a \<notin> set as"
    using core by (simp_all add: dl_core_def)
  obtain u where u: "dl_remove_node a t = Some u" "dl_frame t u" "delta_tail u = delta_tail t"
    "dseg (vw dl_next (node_heap u)) (vw dl_prev (node_heap u)) None (delta_head u) (as @ []) None"
    using ord clk dom by (rule dl_remove_node_ok)
  obtain x where x: "delta_head u = Some x" using u(4) as(1) by (cases as) auto
  have "a \<in> dom (node_heap u)" using u(2) dom by (simp add: dl_frame_def)
  then obtain n where n: "node_heap u a = Some n" by blast
  let ?t' = "u\<lparr>node_heap := (node_heap u)(a \<mapsto>
      n\<lparr>nd_delta := interval u - tbl_delta u, dl_prev := Some a, dl_next := None\<rparr>),
    delta_tail := Some a, tbl_delta := interval u\<rparr>"
  have ins: "dl_insert_node a u = Some ?t'"
    using x n u(3) as(4) by (simp add: dl_insert_node_self)
  have fr: "dl_frame u ?t'" using n by (auto simp: dl_frame_def)
  have frt: "dl_frame t ?t'" using u(2) fr by (rule dl_frame_trans)
  obtain bs where "buckets_ok hash t (as @ [a]) bs" "keys_ok equals valid (dat t) (as @ [a])"
    "tbl_equals t = equals" "tbl_hash t = hash" using core by (auto simp: dl_core_def)
  then have bs: "buckets_ok hash ?t' (as @ [a]) bs" "keys_ok equals valid (dat ?t') (as @ [a])"
    "tbl_equals ?t' = equals" "tbl_hash ?t' = hash" "a \<in> set (as @ [a])" "equals (the (dat ?t' a)) d"
    using frt h unfolding dl_frame_def buckets_ok_def by simp_all
  from bs obtain q where "get_node ?t' d = Some (Some a, q)" by (rule get_node_hit)
  then have "delta_contains d ?t' = Some 1" by (simp add: delta_contains_def)
  moreover have "delta_update d t = Some (1, ?t')" using get u(1) ins by (simp add: delta_update_def)
  moreover have "delta_foreach ?t' f arg = Some (spec_foreach f (map fst fs) arg)" for f and arg :: 'a
  proof -
    have "delta_foreach ?t' f arg = Some (spec_foreach f (map (\<lambda>b. the (dat ?t' b)) as) arg)"
      unfolding delta_foreach_def
      by (rule foreach_loop_dseg [where pv = "vw dl_prev (node_heap u)" and p = None])
        (use u(4) dist in simp)
    moreover have "dat ?t' = dat t" using frt by (simp add: dl_frame_def)
    ultimately show ?thesis by (simp only: as(3))
  qed
  moreover have "delta_size ?t' = delta_size t" using frt by (simp add: dl_frame_def delta_size_def)
  moreover have "listed ?t' as [a]"
    using core frt bs u(4) dist by (auto simp: listed_def dl_core_def dl_frame_def)
  then have "\<exists>xs a. listed ?t' xs [a] \<and> equals (the (dat ?t' a)) d" using bs(6) by blast
  ultimately show ?thesis by (intro that)
qed


lemma delta_remove_last:
  assumes rep: "rep t (fs @ [e])" and ne: "fs \<noteq> []" and hit: "equals (fst e) d"
    and fresh: "\<not> list_ex (\<lambda>e. equals (fst e) d') fs"
  shows "\<exists>t'. delta_remove d t = Some (0, t') \<and> delta_insert d' t' = None \<and> delta_update d' t' = None"
proof -
  obtain as a where core: "core t (as @ a # []) []" and as: "as \<noteq> []" "fst e = the (dat t a)"
    "map fst fs = map (\<lambda>b. the (dat t b)) as" "delta_tail t = Some a"
    using rep ne by (rule last_split)
  have h: "equals (the (dat t a)) d" using hit as(2) by simp
  obtain t' where t': "delta_delete d t = Some (0, t')" "dom (node_heap t') = set (as @ [])"
    "delta_tail t' = delta_tail t"
    "dseg (vw dl_next (node_heap t')) (vw dl_prev (node_heap t')) None (delta_head t') (as @ []) None"
    "clock_ok iv t' (as @ [])" "\<exists>ks. buckets_ok hash t' (as @ []) ks"
    "keys_ok equals valid (dat t') (as @ [])"
    "tbl_entries t' (as @ []) = tbl_entries t as @ drop (Suc (length as)) (tbl_entries t (as @ a # []))"
    "del_frame (the (dat t a)) t t'"
    using core h by (rule delta_delete_gen)
  have fr: "tbl_equals t' = equals" "node_brk t' = node_brk t"
    using t'(9) core by (simp_all add: dl_core_def del_frame_def)
  obtain x where x: "delta_head t' = Some x" using t'(4) as(1) by (cases as) auto
  have a: "a \<notin> set as" "a < node_brk t" using core by (simp_all add: dl_core_def)
  have dangling: "node_heap t' a = None" using t'(2) a(1) by auto
  have "map fst (tbl_entries t' as) = map fst (tbl_entries t as)" using t'(8) by (simp add: tbl_entries_def)
  then have keys: "map (\<lambda>b. the (dat t' b)) as = map fst fs"
    unfolding tbl_entries_def map_fst_entries as(3) .
  have "\<not> equals k d'" if "k \<in> set (map fst fs)" for k
    using that fresh by (auto simp: list_ex_iff)
  then have "\<forall>b \<in> set as. \<not> equals (the (dat t' b)) d'"
    unfolding keys [symmetric] by simp
  then obtain p where get: "get_node t' d' = Some (None, p)"
    using t'(6) fr(1) get_node_miss by (metis append_Nil2)
  obtain u where u: "hash_insert (node_brk t') (snd (new_nd d' t')) = Some u" "delta_head u = Some x"
    "delta_tail u = Some a" "node_heap u a = None"
    using x as(4) t'(3) dangling a(2) fr(2)
    by (simp add: hash_insert_def new_nd_def Let_def heap_simps)
  have "dl_insert_node b (u\<lparr>tbl_size := s\<rparr>) = None" for b s
    using u by (intro dl_insert_node_dangling) simp_all
  moreover have "dl_insert_node b u = None" for b using u by (intro dl_insert_node_dangling)
  ultimately have "delta_insert d' t' = None" "delta_update d' t' = None"
    using get u(1) by (simp_all add: delta_insert_def delta_update_def split_def Let_def new_nd_def)
  with t'(1) show ?thesis by (auto simp: delta_remove_def)
qed

end

end
