(* ===== verification/Deltalist_Props.thy ===== *)
theory Deltalist_Props
  imports Deltalist_Stale
begin

text \<open>
  Histories of a delta list: any interleaving of the atomic operations of the threads that
  share a table is a list of operations. The properties of the component are stated here: the
  refinement of each operation, of a whole history, the lifetime of an element, and the
  behaviour of the table when the last of several nodes is unlinked.
\<close>

section \<open>Histories\<close>

datatype 'd dl_op = OpInsert 'd | OpUpdate 'd | OpRemove 'd | OpTick

fun dl_step :: "'d dl_op \<Rightarrow> 'd delta_list \<Rightarrow> 'd delta_list option" where
  "dl_step (OpInsert d) t = delta_insert d t"
| "dl_step (OpUpdate d) t = map_option snd (delta_update d t)"
| "dl_step (OpRemove d) t = map_option snd (delta_remove d t)"
| "dl_step OpTick t = delta_tick t"

fun dl_run :: "'d dl_op list \<Rightarrow> 'd delta_list \<Rightarrow> 'd delta_list option" where
  "dl_run [] t = Some t"
| "dl_run (op # ops) t = Option.bind (dl_step op t) (dl_run ops)"

fun spec_step :: "('d \<Rightarrow> 'd \<Rightarrow> bool) \<Rightarrow> uint \<Rightarrow> 'd dl_op \<Rightarrow> ('d \<times> nat) list \<Rightarrow> ('d \<times> nat) list" where
  "spec_step equals iv (OpInsert d) es = spec_insert equals iv d es"
| "spec_step equals iv (OpUpdate d) es = spec_update equals iv d es"
| "spec_step equals iv (OpRemove d) es = spec_remove equals d es"
| "spec_step equals iv OpTick es = spec_tick es"

fun spec_run :: "('d \<Rightarrow> 'd \<Rightarrow> bool) \<Rightarrow> uint \<Rightarrow> 'd dl_op list \<Rightarrow> ('d \<times> nat) list \<Rightarrow> ('d \<times> nat) list" where
  "spec_run equals iv [] es = es"
| "spec_run equals iv (op # ops) es = spec_run equals iv ops (spec_step equals iv op es)"

text \<open>The element is the last of at least two.\<close>

definition hits_last :: "('d \<Rightarrow> 'd \<Rightarrow> bool) \<Rightarrow> 'd \<Rightarrow> ('d \<times> nat) list \<Rightarrow> bool" where
  "hits_last equals d es \<longleftrightarrow> 2 \<le> length es \<and> equals (fst (last es)) d"

fun op_ok :: "('d \<Rightarrow> 'd \<Rightarrow> bool) \<Rightarrow> ('d \<Rightarrow> bool) \<Rightarrow> 'd dl_op \<Rightarrow> ('d \<times> nat) list \<Rightarrow> bool" where
  "op_ok equals valid (OpInsert d) es \<longleftrightarrow> valid d"
| "op_ok equals valid (OpUpdate d) es \<longleftrightarrow> valid d \<and> \<not> hits_last equals d es"
| "op_ok equals valid (OpRemove d) es \<longleftrightarrow> \<not> hits_last equals d es"
| "op_ok equals valid OpTick es \<longleftrightarrow> True"

fun ops_ok ::
  "('d \<Rightarrow> 'd \<Rightarrow> bool) \<Rightarrow> ('d \<Rightarrow> bool) \<Rightarrow> uint \<Rightarrow> 'd dl_op list \<Rightarrow> ('d \<times> nat) list \<Rightarrow> bool" where
  "ops_ok equals valid iv [] es \<longleftrightarrow> True"
| "ops_ok equals valid iv (op # ops) es \<longleftrightarrow>
     op_ok equals valid op es \<and> ops_ok equals valid iv ops (spec_step equals iv op es)"

definition ticks :: "'d dl_op list \<Rightarrow> nat" where
  "ticks ops = length (filter (\<lambda>op. case op of OpTick \<Rightarrow> True | _ \<Rightarrow> False) ops)"

fun touches :: "('d \<Rightarrow> 'd \<Rightarrow> bool) \<Rightarrow> 'd \<Rightarrow> 'd dl_op \<Rightarrow> bool" where
  "touches equals d (OpInsert e) = equals e d"
| "touches equals d (OpUpdate e) = equals e d"
| "touches equals d (OpRemove e) = equals e d"
| "touches equals d OpTick = False"

text \<open>The ticks an element has left; 0 for an element that is not in the table.\<close>

definition ttl :: "('d \<Rightarrow> 'd \<Rightarrow> bool) \<Rightarrow> 'd \<Rightarrow> ('d \<times> nat) list \<Rightarrow> nat" where
  "ttl equals d es = (case find (\<lambda>e. equals (fst e) d) es of None \<Rightarrow> 0 | Some e \<Rightarrow> snd e)"

text \<open>A statically initialised table: zeroed fields and buckets.\<close>

definition static_table :: "uint \<Rightarrow> uint \<Rightarrow> ('d \<Rightarrow> ulong) \<Rightarrow> ('d \<Rightarrow> 'd \<Rightarrow> bool) \<Rightarrow> 'd delta_list" where
  "static_table res iv h eq =
     \<lparr>resolution = res, interval = iv, tbl_size = 0, tbl_delta = 0, delta_head = None,
      delta_tail = None, tbl_hash = h, tbl_equals = eq, table = replicate HT_SIZE None,
      node_heap = Map.empty, node_brk = 0, acted = [], freed = []\<rparr>"

context delta_table
begin

lemma static_rep: "rep (static_table res iv hash equals) []"
  by (rule rep_empty) (simp_all add: static_table_def)

lemma delta_remove_total:
  assumes rep: "rep t es" and ok: "\<not> hits_last equals d es"
  obtains rc t' where "delta_remove d t = Some (rc, t')" and "rep t' (spec_remove equals d es)"
    and "rc = (if list_ex (\<lambda>e. equals (fst e) d) es then 0 else -1)"
proof (cases "list_ex (\<lambda>e. equals (fst e) d) es")
  case False
  then have "spec_remove equals d es = es"
    unfolding spec_remove_def by (intro filter_True) (auto simp: list_ex_iff)
  with rep False delta_remove_miss [OF rep False] show ?thesis by (intro that) simp_all
next
  case True
  then obtain fs e gs where es: "es = fs @ e # gs" and e: "equals (fst e) d"
    by (auto simp: list_ex_iff dest!: split_list)
  have rep': "rep t (fs @ e # gs)" using rep es by simp
  have ends: "gs \<noteq> [] \<or> fs = []" using ok es e by (cases gs; cases fs) (auto simp: hits_last_def)
  obtain t' where "delta_remove d t = Some (0, t')" "rep t' (fs @ gs)"
    using delta_remove_rep [OF rep' e ends] .
  then show ?thesis using True es rep_unique(1) [OF rep' e] by (intro that) simp_all
qed

lemma delta_update_total:
  assumes rep: "rep t es" and "valid d" and ok: "\<not> hits_last equals d es"
  obtains rc t' where "delta_update d t = Some (rc, t')" and "rep t' (spec_update equals iv d es)"
    and "rc = (if list_ex (\<lambda>e. equals (fst e) d) es then 1 else 0)"
    and "acted t' = acted t" and "freed t' = freed t"
proof (cases "list_ex (\<lambda>e. equals (fst e) d) es")
  case False
  then have "find (\<lambda>e. equals (fst e) d) es = None" by (auto simp: list_ex_iff find_None_iff)
  moreover obtain t' where "delta_update d t = Some (0, t')" "rep t' (es @ [(d, unat iv)])"
      "acted t' = acted t" "freed t' = freed t"
    using delta_update_fresh [OF assms(1,2) False] .
  ultimately show ?thesis using False by (intro that [of 0 t']) (simp_all add: spec_update_def)
next
  case True
  then obtain fs e gs where es: "es = fs @ e # gs" and e: "equals (fst e) d"
    by (auto simp: list_ex_iff dest!: split_list)
  have rep': "rep t (fs @ e # gs)" using rep es by simp
  have ends: "gs \<noteq> [] \<or> fs = []" using ok es e by (cases gs; cases fs) (auto simp: hits_last_def)
  obtain t' where "delta_update d t = Some (1, t')" "rep t' (fs @ gs @ [(fst e, unat iv)])"
      "acted t' = acted t" "freed t' = freed t"
    using delta_update_hit [OF rep' e ends] .
  then show ?thesis using True es rep_unique [OF rep' e]
    by (intro that [of 1 t']) (simp_all add: spec_update_def)
qed

lemma dl_step_rep:
  assumes "rep t es" and "op_ok equals valid op es"
  obtains t' where "dl_step op t = Some t'" and "rep t' (spec_step equals iv op es)"
proof (cases op)
  case (OpInsert d)
  with assms obtain t' where "delta_insert d t = Some t'" "rep t' (spec_insert equals iv d es)"
    using delta_insert_rep [of t es d] by auto
  with OpInsert show ?thesis by (intro that) simp_all
next
  case (OpUpdate d)
  with assms obtain rc t' where "delta_update d t = Some (rc, t')" "rep t' (spec_update equals iv d es)"
    by (auto intro: delta_update_total [of t es d])
  with OpUpdate show ?thesis by (intro that) simp_all
next
  case (OpRemove d)
  with assms obtain rc t' where "delta_remove d t = Some (rc, t')" "rep t' (spec_remove equals d es)"
    by (auto intro: delta_remove_total [of t es d])
  with OpRemove show ?thesis by (intro that) simp_all
next
  case OpTick
  with assms obtain t' where "delta_tick t = Some t'" "rep t' (spec_tick es)"
    using delta_tick_rep [of t es] by auto
  with OpTick show ?thesis by (intro that) simp_all
qed

lemma dl_run_rep:
  assumes "rep t es" and "ops_ok equals valid iv ops es"
  shows "\<exists>t'. dl_run ops t = Some t' \<and> rep t' (spec_run equals iv ops es)"
  using assms
proof (induction ops arbitrary: t es)
  case (Cons op ops)
  from Cons.prems obtain u where "dl_step op t = Some u" "rep u (spec_step equals iv op es)"
    by (auto intro: dl_step_rep)
  with Cons show ?case by simp
qed simp

subsection \<open>Lifetimes\<close>

lemma ttl_None: "\<forall>e \<in> set es. \<not> equals (fst e) d \<Longrightarrow> ttl equals d es = 0"
  by (auto simp: ttl_def find_Some_iff split: option.splits dest!: nth_mem)

lemma ttl_unique:
  assumes "rep t es" and "e \<in> set es" and "equals (fst e) d"
  shows "ttl equals d es = snd e"
  using assms rep_unique(2) [of t _ e _ d] by (auto simp: ttl_def dest!: split_list)

lemma rep_keys:
  assumes "rep t es" and "e \<in> set es" and "e' \<in> set es" and "equals (fst e) d" and "equals (fst e') d"
  shows "e = e'"
proof -
  obtain fs gs where es: "es = fs @ e # gs" using assms(2) by (blast dest: split_list)
  then have "rep t (fs @ e # gs)" using assms(1) by simp
  from rep_unique(1) [OF this assms(4)]
  have "set (fs @ gs) = {f \<in> set (fs @ e # gs). \<not> equals (fst f) d}"
    unfolding spec_remove_def by (metis set_filter)
  then have "e' \<notin> set (fs @ gs)" using assms(5) by blast
  then show ?thesis using es assms(3) by auto
qed

lemma spec_step_other:
  assumes rep: "rep t es" and ok: "op_ok equals valid op es" and un: "\<not> touches equals d op"
    and op: "op \<noteq> OpTick" and e: "equals (fst e) d"
  shows "e \<in> set (spec_step equals iv op es) \<longleftrightarrow> e \<in> set es"
proof (cases op)
  case (OpInsert c)
  have "e \<noteq> (c, unat iv)" using un OpInsert e by auto
  then show ?thesis using OpInsert by (auto simp: spec_insert_def)
next
  case (OpRemove c)
  have "\<not> equals (fst e) c"
  proof
    assume "equals (fst e) c"
    from equals_trans [OF equals_sym [OF this] e] show False using un OpRemove by simp
  qed
  then show ?thesis using OpRemove by (auto simp: spec_remove_def)
next
  case (OpUpdate c)
  have ec: "\<not> equals (fst e) c"
  proof
    assume "equals (fst e) c"
    from equals_trans [OF equals_sym [OF this] e] show False using un OpUpdate by simp
  qed
  have "e \<noteq> (c, unat iv)" using un OpUpdate e by auto
  then show ?thesis using OpUpdate ec
    by (auto simp: spec_update_def spec_remove_def find_Some_iff split: option.splits) (metis fst_conv)
qed (use op in simp)

lemma ttl_step:
  assumes rep: "rep t es" and ok: "op_ok equals valid op es" and un: "\<not> touches equals d op"
  shows "ttl equals d (spec_step equals iv op es) = ttl equals d es - ticks [op]"
proof -
  obtain t' where rep': "rep t' (spec_step equals iv op es)" using dl_step_rep [OF rep ok] .
  show ?thesis
  proof (cases "\<exists>e \<in> set es. equals (fst e) d")
    case True
    then obtain e where e: "e \<in> set es" "equals (fst e) d" by blast
    note ttl_e = ttl_unique [OF rep e]
    show ?thesis
    proof (cases op)
      case OpTick
      show ?thesis
      proof (cases "1 < snd e")
        case True
        then have "(fst e, snd e - 1) \<in> set (spec_tick es)" using e(1) by (force simp: spec_tick_def)
        then show ?thesis using ttl_unique [OF rep', of "(fst e, snd e - 1)"] OpTick e ttl_e
          by (simp add: ticks_def)
      next
        case False
        then have "\<forall>f \<in> set (spec_tick es). \<not> equals (fst f) d"
          using rep_keys [OF rep e(1) _ e(2)] by (auto simp: spec_tick_def)
        then show ?thesis using OpTick ttl_e False by (simp add: ttl_None ticks_def)
      qed
    qed (use spec_step_other [OF rep ok un _ e(2)] ttl_unique [OF rep' _ e(2)] e(1) ttl_e in
         \<open>auto simp: ticks_def\<close>)
  next
    case False
    have "\<not> equals (fst e) d" if "e \<in> set (spec_step equals iv op es)" for e
    proof
      assume eq: "equals (fst e) d"
      show False
        using that False spec_step_other [OF rep ok un _ eq] eq
        by (cases op) (auto simp: spec_tick_def)
    qed
    then show ?thesis using False by (simp add: ttl_None)
  qed
qed

lemma ttl_run:
  assumes "rep t es" and "ops_ok equals valid iv ops es" and "\<forall>op \<in> set ops. \<not> touches equals d op"
  shows "ttl equals d (spec_run equals iv ops es) = ttl equals d es - ticks ops"
  using assms
proof (induction ops arbitrary: t es)
  case (Cons op ops)
  from Cons.prems obtain u where "rep u (spec_step equals iv op es)" by (auto intro: dl_step_rep)
  with Cons.IH Cons.prems have
    "ttl equals d (spec_run equals iv (op # ops) es) = ttl equals d (spec_step equals iv op es) - ticks ops"
    by simp
  also have "\<dots> = ttl equals d es - ticks [op] - ticks ops"
    using Cons.prems ttl_step [of t es op d] by simp
  also have "\<dots> = ttl equals d es - ticks (op # ops)" by (simp add: ticks_def)
  finally show ?case .
qed (simp add: ticks_def)

lemma contains_ttl:
  assumes "rep t es"
  shows "delta_contains d t = Some (if 0 < ttl equals d es then 1 else 0)"
proof -
  have "list_ex (\<lambda>e. equals (fst e) d) es \<longleftrightarrow> 0 < ttl equals d es"
  proof (cases "\<exists>e \<in> set es. equals (fst e) d")
    case True
    then obtain e where "e \<in> set es" "equals (fst e) d" by blast
    moreover have "0 < snd e" using assms calculation(1) by (simp add: dl_rep_def)
    ultimately show ?thesis using ttl_unique [OF assms] by (auto simp: list_ex_iff)
  qed (auto simp: list_ex_iff ttl_None)
  then show ?thesis using delta_contains_rep [OF assms] by simp
qed

end


section \<open>A lost element\<close>

context delta_table
begin

lemma ticks_listed:
  "listed t xs gs \<Longrightarrow> \<exists>t' ys. dl_run (replicate n OpTick) t = Some t' \<and> listed t' ys gs \<and> (\<forall>b \<in> set gs. dat t' b = dat t b)"
proof (induction n arbitrary: t xs)
  case (Suc n)
  obtain u ys where u: "delta_tick t = Some u" "listed u ys gs" "\<forall>b \<in> set gs. dat u b = dat t b"
    using tick_listed [OF Suc.prems] by blast
  then show ?case using Suc.IH [OF u(2)] by auto
qed auto

lemma update_last_lost:
  assumes "rep t (es @ [e])" and "es \<noteq> []" and "equals (fst e) d"
  shows "\<exists>t'. delta_update d t = Some (1, t') \<and> delta_contains d t' = Some 1 \<and>
      delta_size t' = of_nat (length es + 1) \<and>
      (\<forall>f (arg :: 'a). delta_foreach t' f arg = Some (spec_foreach f (map fst es) arg)) \<and>
      (\<forall>n. \<exists>u. dl_run (replicate n OpTick) t' = Some u \<and> delta_contains d u = Some 1)"
proof -
  have sz: "delta_size t = of_nat (length es + 1)" using delta_size_rep [OF assms(1)] by simp
  obtain t' where t': "delta_update d t = Some (1, t')" "delta_contains d t' = Some 1" "delta_size t' = delta_size t"
    "\<And>f (arg :: 'a). delta_foreach t' f arg = Some (spec_foreach f (map fst es) arg)"
    "\<exists>xs a. listed t' xs [a] \<and> equals (the (dat t' a)) d"
    using assms by (rule delta_update_last) blast
  then obtain xs a where l: "listed t' xs [a]" "equals (the (dat t' a)) d" by blast
  have "\<exists>u. dl_run (replicate n OpTick) t' = Some u \<and> delta_contains d u = Some 1" for n
  proof -
    obtain u ys where u: "dl_run (replicate n OpTick) t' = Some u" "listed u ys [a]" "dat u a = dat t' a"
      using ticks_listed [OF l(1), of n] by auto
    then show ?thesis using l(2) by (intro exI [of _ u] conjI listed_contains [OF u(2), of a]) simp_all
  qed
  then show ?thesis using t' sz by (intro exI [of _ t']) simp
qed

end

section \<open>Properties\<close>

text \<open>
  C1. Any interleaving of insertions, updates, removals and ticks on a statically initialised
  table runs without undefined behaviour, and the table then holds exactly the elements, in the
  order and with the remaining ticks, that the list specification computes, provided that no
  update or removal names the last of several elements.
\<close>

theorem delta_history_refines:
  assumes "delta_table hash equals valid iv" and "ops_ok equals valid iv ops []"
  shows "\<exists>t. dl_run ops (static_table res iv hash equals) = Some t \<and>
             dl_rep hash equals valid iv t (spec_run equals iv ops [])"
proof -
  note rep = delta_table.static_rep [OF assms(1), of res]
  show ?thesis using delta_table.dl_run_rep [OF assms(1) rep assms(2)] .
qed

lemma nat_table: "delta_table of_nat (=) (\<lambda>d :: nat. True) 3"
  by unfold_locales simp_all

theorem delta_history_refines_witness:
  "\<exists>t. dl_run [OpInsert 7, OpTick, OpInsert 17, OpUpdate 7, OpTick, OpTick] (static_table 1 3 of_nat (=)) = Some t \<and>
       dl_rep of_nat (=) (\<lambda>d :: nat. True) 3 t [(17, 1), (7, 1)]"
proof -
  let ?ops = "[OpInsert 7, OpTick, OpInsert 17, OpUpdate 7, OpTick, OpTick] :: nat dl_op list"
  have "ops_ok (=) (\<lambda>d. True) 3 ?ops []"
    by (simp add: spec_insert_def spec_tick_def spec_update_def spec_remove_def hits_last_def)
  moreover have "spec_run (=) 3 ?ops [] = [(17, 1), (7, 1)]"
    by (simp add: spec_insert_def spec_tick_def spec_update_def spec_remove_def)
  ultimately show ?thesis using delta_history_refines [OF nat_table, of ?ops 1] by simp
qed

lemma clock_wait_all:
  "0 \<notin> set (left # rs) \<Longrightarrow> sorted_wrt (\<ge>) (left # rs) \<Longrightarrow> clock_wait left (rs @ 0 # rest) = Some (unat left, rest)"
proof (induction rs arbitrary: left)
  case Nil
  then show ?case by (cases rest) simp_all
next
  case (Cons r rs)
  have "clock_wait r (rs @ 0 # rest) = Some (unat r, rest)" by (rule Cons.IH) (use Cons.prems in simp_all)
  moreover have "unat r \<le> unat left" using Cons.prems(2) by (simp add: word_le_nat_alt)
  ultimately show ?case using Cons.prems(1) by simp
qed

text \<open>
  C2. A tick takes one tick off every element, removes exactly those that had one left, and
  calls \<open>act\<close> and \<open>free\<close> on each of them once, in order of expiry. The expiry loop
  terminates. The clock thread waits for exactly \<open>resolution\<close> seconds before a tick, also when its sleep
  is interrupted any number of times.
\<close>

theorem delta_tick_expires:
  assumes "delta_table hash equals valid iv" and "dl_rep hash equals valid iv t es"
  shows "\<exists>t'. delta_tick t = Some t' \<and> dl_rep hash equals valid iv t' (spec_tick es) \<and>
    acted t' = acted t @ spec_expired es \<and> freed t' = freed t @ spec_expired es \<and>
    (\<forall>rs rest. 0 \<notin> set (resolution t # rs) \<and> sorted_wrt (\<ge>) (resolution t # rs) \<longrightarrow>
      clock_turn (rs @ 0 # rest) t = Some (unat (resolution t), rest, t'))"
proof -
  obtain t' where t': "delta_tick t = Some t'" "dl_rep hash equals valid iv t' (spec_tick es)"
    "acted t' = acted t @ spec_expired es" "freed t' = freed t @ spec_expired es"
    using delta_table.delta_tick_rep [OF assms] by metis
  then show ?thesis using clock_wait_all [of "resolution t"] by (simp add: clock_turn_def)
qed

theorem delta_tick_expires_witness:
  "\<exists>t t'. dl_rep of_nat (=) (\<lambda>d :: nat. True) 3 t [(17, 1), (7, 1)] \<and> delta_tick t = Some t' \<and>
     dl_rep of_nat (=) (\<lambda>d. True) 3 t' [] \<and> acted t' = acted t @ [17, 7]"
proof -
  obtain t where t: "dl_rep of_nat (=) (\<lambda>d :: nat. True) 3 t [(17, 1), (7, 1)]"
    using delta_table.dl_run_rep [OF nat_table delta_table.static_rep [OF nat_table],
      of "[OpInsert 17, OpInsert 7, OpTick, OpTick]"]
    by (auto simp: spec_insert_def spec_tick_def)
  from delta_tick_expires [OF nat_table t] t show ?thesis
    by (auto simp: spec_tick_def spec_expired_def)
qed

text \<open>
  C3. Lifetime of an element. An element that is not in an intact table and is then inserted stays
  in it for exactly \<open>interval\<close> ticks while insertions, updates and removals of other
  elements are interleaved, as long as none of the updates and removals names the element that is the last of several at that
  moment (\<open>ops_ok\<close>; C6 is what happens otherwise): after \<open>n\<close> ticks it is contained if and only if \<open>n < interval\<close>.
\<close>

theorem delta_lifetime:
  assumes tab: "delta_table hash equals valid iv" and rep: "dl_rep hash equals valid iv t es"
    and "valid d" and fresh: "delta_contains d t = Some 0"
    and ok: "ops_ok equals valid iv ops (es @ [(d, unat iv)])"
    and un: "\<forall>op \<in> set ops. \<not> touches equals d op"
  shows "\<exists>t'. dl_run (OpInsert d # ops) t = Some t' \<and>
    delta_contains d t' = Some (if ticks ops < unat iv then 1 else 0)"
proof -
  have miss: "\<not> list_ex (\<lambda>e. equals (fst e) d) es"
    using delta_table.delta_contains_rep [OF tab rep, of d] fresh by (auto split: if_splits)
  obtain u where u: "delta_insert d t = Some u" "dl_rep hash equals valid iv u (es @ [(d, unat iv)])"
    using delta_table.delta_insert_rep [OF tab rep \<open>valid d\<close>] miss by (metis spec_insert_def)
  obtain t' where t': "dl_run ops u = Some t'"
    "dl_rep hash equals valid iv t' (spec_run equals iv ops (es @ [(d, unat iv)]))"
    using delta_table.dl_run_rep [OF tab u(2) ok] by blast
  have "ttl equals d (es @ [(d, unat iv)]) = unat iv"
    using delta_table.ttl_unique [OF tab u(2), of "(d, unat iv)" d]
      delta_table.equals_refl [OF tab \<open>valid d\<close>] by simp
  then have "ttl equals d (spec_run equals iv ops (es @ [(d, unat iv)])) = unat iv - ticks ops"
    using delta_table.ttl_run [OF tab u(2) ok un] by simp
  then show ?thesis using u(1) t' delta_table.contains_ttl [OF tab t'(2), of d] by auto
qed

theorem delta_lifetime_witness:
  "(\<exists>t'. dl_run [OpInsert 5, OpTick, OpInsert 6, OpTick] (static_table 1 3 of_nat (=)) = Some t' \<and>
      delta_contains (5 :: nat) t' = Some 1) \<and>
   (\<exists>t'. dl_run [OpInsert 5, OpTick, OpInsert 6, OpTick, OpTick] (static_table 1 3 of_nat (=)) = Some t' \<and>
      delta_contains (5 :: nat) t' = Some 0)"
proof -
  let ?t = "static_table 1 3 of_nat (=) :: nat delta_list"
  note rep = delta_table.static_rep [OF nat_table, of 1]
  have fresh: "delta_contains 5 ?t = Some 0"
    using delta_table.delta_contains_rep [OF nat_table rep, of 5] by simp
  note L = delta_lifetime [OF nat_table rep TrueI fresh]
  show ?thesis
    using L [of "[OpTick, OpInsert 6, OpTick]"] L [of "[OpTick, OpInsert 6, OpTick, OpTick]"]
    by (simp add: ticks_def)
qed

text \<open>
  C4. One operation on an intact table, whose argument is not the last of several elements (\<open>hits_last\<close>; C6 is about that one).
  \<open>delta_update\<close>: an element that is not in the table is added with a full
  interval (return value 0); one that is there moves to the end of the list with a full interval
  and keeps its data (return value 1). \<open>delta_remove\<close> takes out the element equal to its
  argument (return value 0), leaves every other element with the ticks it had, and returns -1 when
  there is none. \<open>delta_clear\<close> empties the table.
  The queries agree with the contents: \<open>delta_contains\<close> and \<open>delta_get\<close> find
  exactly the elements of the list, \<open>delta_size\<close> is its length modulo \<open>2^32\<close>, and
  \<open>delta_foreach\<close> visits the elements in order of expiry until the callback stops it.
\<close>

theorem delta_operations_refine:
  assumes "delta_table hash equals valid iv" and "dl_rep hash equals valid iv t es"
    and "valid d" and "\<not> hits_last equals d es"
  shows "(\<exists>t'. delta_update d t = Some (if list_ex (\<lambda>e. equals (fst e) d) es then 1 else 0, t') \<and>
      dl_rep hash equals valid iv t' (spec_update equals iv d es)) \<and>
    (\<exists>t'. delta_remove d t = Some (if list_ex (\<lambda>e. equals (fst e) d) es then 0 else -1, t') \<and>
      dl_rep hash equals valid iv t' (spec_remove equals d es)) \<and>
    (\<exists>t'. delta_clear t = Some t' \<and> dl_rep hash equals valid iv t' []) \<and>
    delta_contains d' t = Some (if list_ex (\<lambda>e. equals (fst e) d') es then 1 else 0) \<and>
    delta_get d' t = Some (map_option fst (find (\<lambda>e. equals (fst e) d') es)) \<and>
    delta_size t = of_nat (length es) \<and>
    delta_foreach t f arg = Some (spec_foreach f (map fst es) arg)"
proof (intro conjI)
  show "\<exists>t'. delta_update d t = Some (if list_ex (\<lambda>e. equals (fst e) d) es then 1 else 0, t') \<and>
      dl_rep hash equals valid iv t' (spec_update equals iv d es)"
    by (rule delta_table.delta_update_total [OF assms]) auto
  show "\<exists>t'. delta_remove d t = Some (if list_ex (\<lambda>e. equals (fst e) d) es then 0 else -1, t') \<and>
      dl_rep hash equals valid iv t' (spec_remove equals d es)"
    by (rule delta_table.delta_remove_total [OF assms(1,2,4)]) auto
  show "\<exists>t'. delta_clear t = Some t' \<and> dl_rep hash equals valid iv t' []"
    using delta_table.delta_clear_rep [OF assms(1,2)] by blast
qed (use delta_table.delta_contains_rep [OF assms(1,2)] delta_table.delta_get_rep [OF assms(1,2)]
    delta_table.delta_size_rep [OF assms(1,2)] delta_table.delta_foreach_rep [OF assms(1,2)] in simp_all)

theorem delta_operations_refine_witness:
  "\<exists>t t' t''. dl_rep of_nat (=) (\<lambda>d :: nat. True) 3 t [(1, 2), (2, 3)] \<and>
     delta_update 1 t = Some (1, t') \<and> dl_rep of_nat (=) (\<lambda>d. True) 3 t' [(2, 3), (1, 3)] \<and>
     delta_remove 1 t = Some (0, t'') \<and> dl_rep of_nat (=) (\<lambda>d. True) 3 t'' [(2, 3)] \<and>
     delta_contains 2 t = Some 1 \<and> delta_get 5 t = Some None \<and> delta_size t = 2 \<and>
     delta_foreach t (\<lambda>d ds. (False, ds @ [d])) [] = Some [1, 2]"
proof -
  obtain t where t: "dl_rep of_nat (=) (\<lambda>d :: nat. True) 3 t [(1, 2), (2, 3)]"
    using delta_table.dl_run_rep [OF nat_table delta_table.static_rep [OF nat_table],
      of "[OpInsert 1, OpTick, OpInsert 2]"]
    by (auto simp: spec_insert_def spec_tick_def)
  note R = delta_operations_refine [OF nat_table t, of 1, where f = "\<lambda>d ds. (False, ds @ [d])" and arg = "[] :: nat list"]
  have "delta_get 5 t = Some None" "delta_contains 2 t = Some 1" "delta_size t = 2"
    "delta_foreach t (\<lambda>d ds. (False, ds @ [d])) [] = Some [1, 2]"
    using R [of 5] R [of 2] by (simp_all add: hits_last_def)
  with R [of 1] t show ?thesis
    by (auto simp: spec_update_def spec_remove_def hits_last_def)
qed

text \<open>
  C6. \<open>dl_remove_node\<close> leaves \<open>delta_tail\<close> on the node it unlinks. Updating the last of
  several elements therefore reports success but drops the element from the delta list: the
  iteration no longer visits it, while the hash table and the size still count it, and it never
  expires: after any number of ticks it is still found in the table. Removing the
  last of several elements leaves \<open>delta_tail\<close> pointing to freed memory: the next insertion or
  update of a new element writes through it.
\<close>

theorem delta_stale_tail:
  assumes "delta_table hash equals valid iv" and "dl_rep hash equals valid iv t (es @ [e])"
    and "es \<noteq> []" and "equals (fst e) d" and "\<not> list_ex (\<lambda>x. equals (fst x) d') es"
  shows "(\<exists>t'. delta_update d t = Some (1, t') \<and> delta_contains d t' = Some 1 \<and>
      delta_size t' = of_nat (length es + 1) \<and>
      (\<forall>f arg. delta_foreach t' f arg = Some (spec_foreach f (map fst es) arg)) \<and>
      (\<forall>n. \<exists>u. dl_run (replicate n OpTick) t' = Some u \<and> delta_contains d u = Some 1)) \<and>
    (\<exists>t'. delta_remove d t = Some (0, t') \<and> delta_insert d' t' = None \<and> delta_update d' t' = None)"
proof
  show "\<exists>t'. delta_update d t = Some (1, t') \<and> delta_contains d t' = Some 1 \<and>
      delta_size t' = of_nat (length es + 1) \<and>
      (\<forall>f arg. delta_foreach t' f arg = Some (spec_foreach f (map fst es) arg)) \<and>
      (\<forall>n. \<exists>u. dl_run (replicate n OpTick) t' = Some u \<and> delta_contains d u = Some 1)"
    by (rule delta_table.update_last_lost [OF assms(1-4)])
  show "\<exists>t'. delta_remove d t = Some (0, t') \<and> delta_insert d' t' = None \<and> delta_update d' t' = None"
    by (rule delta_table.delta_remove_last [OF assms])
qed

theorem delta_stale_tail_witness:
  "\<exists>t t' t''. dl_rep of_nat (=) (\<lambda>d :: nat. True) 3 t [(1, 3), (2, 3)] \<and>
     delta_update 2 t = Some (1, t') \<and> delta_contains 2 t' = Some 1 \<and>
     delta_foreach t' (\<lambda>d ds. (False, ds @ [d])) [] = Some [1] \<and>
     (\<exists>u. dl_run (replicate 99 OpTick) t' = Some u \<and> delta_contains 2 u = Some 1) \<and>
     delta_remove 2 t = Some (0, t'') \<and> delta_insert 3 t'' = None"
proof -
  obtain t where t: "dl_rep of_nat (=) (\<lambda>d :: nat. True) 3 t ([(1, 3)] @ [(2, 3)])"
    using delta_table.dl_run_rep [OF nat_table delta_table.static_rep [OF nat_table],
      of "[OpInsert 1, OpInsert 2]"]
    by (auto simp: spec_insert_def)
  obtain t' t'' where t': "delta_update 2 t = Some (1, t')" "delta_contains 2 t' = Some 1"
    "\<forall>f (arg :: nat list). delta_foreach t' f arg = Some (spec_foreach f (map fst [(1 :: nat, 3 :: nat)]) arg)"
    "\<forall>n. \<exists>u. dl_run (replicate n OpTick) t' = Some u \<and> delta_contains 2 u = Some 1"
    "delta_remove 2 t = Some (0, t'')" "delta_insert 3 t'' = None"
    using delta_stale_tail [OF nat_table t, of 2 3] by auto
  have "\<exists>u. dl_run (replicate 99 OpTick) t' = Some u \<and> delta_contains 2 u = Some 1" using t'(4) by blast
  moreover have "delta_foreach t' (\<lambda>d ds. (False, ds @ [d])) [] = Some [1 :: nat]" using t'(3) by simp
  ultimately show ?thesis using t t'(1,2,5,6) by (intro exI [of _ t] exI [of _ t'] exI [of _ t'']) simp
qed

end
