(* ===== verification/Linked_List.thy ===== *)
theory Linked_List
  imports Psnet_Prelude
begin

text \<open>
  The circular doubly linked lists of \<^verbatim>\<open>src/include/list.h\<close>. A \<open>struct list_head\<close> is a cell of
  a heap, a list is a head cell whose \<open>next\<close> pointers go through the entries and back to the
  head. The operations are the assignments of the C functions in their order, so that aliasing
  (an empty list, neighbours that coincide) is part of the model. The specification is a map
  from heads to lists of entries.
\<close>

section \<open>Model\<close>

record list_head =
  nxt :: addr
  prv :: addr

type_synonym lheap = "addr \<rightharpoonup> list_head"

definition LIST_POISON1 :: addr where "LIST_POISON1 = 0x00100100"
definition LIST_POISON2 :: addr where "LIST_POISON2 = 0x00200200"

text \<open>\<open>p->next\<close>, \<open>p->prev\<close> and the assignments to them.\<close>

definition ld_next :: "addr \<Rightarrow> lheap \<Rightarrow> addr option" where
  "ld_next p h = map_option nxt (h p)"

definition ld_prev :: "addr \<Rightarrow> lheap \<Rightarrow> addr option" where
  "ld_prev p h = map_option prv (h p)"

definition st_next :: "addr \<Rightarrow> addr \<Rightarrow> lheap \<Rightarrow> lheap option" where
  "st_next p v h = do { n \<leftarrow> h p; Some (h(p \<mapsto> n\<lparr>nxt := v\<rparr>)) }"

definition st_prev :: "addr \<Rightarrow> addr \<Rightarrow> lheap \<Rightarrow> lheap option" where
  "st_prev p v h = do { n \<leftarrow> h p; Some (h(p \<mapsto> n\<lparr>prv := v\<rparr>)) }"

definition INIT_LIST_HEAD :: "addr \<Rightarrow> lheap \<Rightarrow> lheap option" where
  "INIT_LIST_HEAD l h = do { h \<leftarrow> st_next l l h; st_prev l l h }"

definition list_add_between :: "addr \<Rightarrow> addr \<Rightarrow> addr \<Rightarrow> lheap \<Rightarrow> lheap option" where
  "list_add_between new prev next h = do {
     h \<leftarrow> st_prev next new h;
     h \<leftarrow> st_next new next h;
     h \<leftarrow> st_prev new prev h;
     st_next prev new h
   }"

definition list_add :: "addr \<Rightarrow> addr \<Rightarrow> lheap \<Rightarrow> lheap option" where
  "list_add new head h = do { n \<leftarrow> ld_next head h; list_add_between new head n h }"

definition list_add_tail :: "addr \<Rightarrow> addr \<Rightarrow> lheap \<Rightarrow> lheap option" where
  "list_add_tail new head h = do { p \<leftarrow> ld_prev head h; list_add_between new p head h }"

definition list_del_between :: "addr \<Rightarrow> addr \<Rightarrow> lheap \<Rightarrow> lheap option" where
  "list_del_between prev next h = do { h \<leftarrow> st_prev next prev h; st_next prev next h }"

definition list_del_entry :: "addr \<Rightarrow> lheap \<Rightarrow> lheap option" where
  "list_del_entry entry h = do {
     p \<leftarrow> ld_prev entry h;
     n \<leftarrow> ld_next entry h;
     list_del_between p n h
   }"

definition list_del :: "addr \<Rightarrow> lheap \<Rightarrow> lheap option" where
  "list_del entry h = do {
     p \<leftarrow> ld_prev entry h;
     n \<leftarrow> ld_next entry h;
     h \<leftarrow> list_del_between p n h;
     h \<leftarrow> st_next entry LIST_POISON1 h;
     st_prev entry LIST_POISON2 h
   }"

definition list_replace :: "addr \<Rightarrow> addr \<Rightarrow> lheap \<Rightarrow> lheap option" where
  "list_replace old new h = do {
     n \<leftarrow> ld_next old h;
     h \<leftarrow> st_next new n h;
     n \<leftarrow> ld_next new h;
     h \<leftarrow> st_prev n new h;
     p \<leftarrow> ld_prev old h;
     h \<leftarrow> st_prev new p h;
     p \<leftarrow> ld_prev new h;
     st_next p new h
   }"

definition list_replace_init :: "addr \<Rightarrow> addr \<Rightarrow> lheap \<Rightarrow> lheap option" where
  "list_replace_init old new h = do { h \<leftarrow> list_replace old new h; INIT_LIST_HEAD old h }"

definition list_del_init :: "addr \<Rightarrow> lheap \<Rightarrow> lheap option" where
  "list_del_init entry h = do { h \<leftarrow> list_del_entry entry h; INIT_LIST_HEAD entry h }"

definition list_move :: "addr \<Rightarrow> addr \<Rightarrow> lheap \<Rightarrow> lheap option" where
  "list_move l head h = do { h \<leftarrow> list_del_entry l h; list_add l head h }"

definition list_move_tail :: "addr \<Rightarrow> addr \<Rightarrow> lheap \<Rightarrow> lheap option" where
  "list_move_tail l head h = do { h \<leftarrow> list_del_entry l h; list_add_tail l head h }"

definition list_is_last :: "addr \<Rightarrow> addr \<Rightarrow> lheap \<Rightarrow> bool option" where
  "list_is_last l head h = do { n \<leftarrow> ld_next l h; Some (n = head) }"

definition list_empty :: "addr \<Rightarrow> lheap \<Rightarrow> bool option" where
  "list_empty head h = do { n \<leftarrow> ld_next head h; Some (n = head) }"

definition list_empty_careful :: "addr \<Rightarrow> lheap \<Rightarrow> bool option" where
  "list_empty_careful head h = do {
     n \<leftarrow> ld_next head h;
     p \<leftarrow> ld_prev head h;
     Some (n = head \<and> n = p)
   }"

definition list_rotate_left :: "addr \<Rightarrow> lheap \<Rightarrow> lheap option" where
  "list_rotate_left head h = do {
     e \<leftarrow> list_empty head h;
     if \<not> e then do { first \<leftarrow> ld_next head h; list_move_tail first head h } else Some h
   }"

definition list_is_singular :: "addr \<Rightarrow> lheap \<Rightarrow> bool option" where
  "list_is_singular head h = do {
     e \<leftarrow> list_empty head h;
     n \<leftarrow> ld_next head h;
     p \<leftarrow> ld_prev head h;
     Some (\<not> e \<and> n = p)
   }"

definition list_cut_position_between :: "addr \<Rightarrow> addr \<Rightarrow> addr \<Rightarrow> lheap \<Rightarrow> lheap option" where
  "list_cut_position_between l head entry h = do {
     new_first \<leftarrow> ld_next entry h;
     n \<leftarrow> ld_next head h;
     h \<leftarrow> st_next l n h;
     n \<leftarrow> ld_next l h;
     h \<leftarrow> st_prev n l h;
     h \<leftarrow> st_prev l entry h;
     h \<leftarrow> st_next entry l h;
     h \<leftarrow> st_next head new_first h;
     st_prev new_first head h
   }"

definition list_cut_position :: "addr \<Rightarrow> addr \<Rightarrow> addr \<Rightarrow> lheap \<Rightarrow> lheap option" where
  "list_cut_position l head entry h = do {
     e \<leftarrow> list_empty head h;
     if e then Some h
     else do {
       s \<leftarrow> list_is_singular head h;
       n \<leftarrow> ld_next head h;
       if s \<and> n \<noteq> entry \<and> head \<noteq> entry then Some h
       else if entry = head then INIT_LIST_HEAD l h
       else list_cut_position_between l head entry h
     }
   }"

definition list_splice_between :: "addr \<Rightarrow> addr \<Rightarrow> addr \<Rightarrow> lheap \<Rightarrow> lheap option" where
  "list_splice_between l prev next h = do {
     first \<leftarrow> ld_next l h;
     last \<leftarrow> ld_prev l h;
     h \<leftarrow> st_prev first prev h;
     h \<leftarrow> st_next prev first h;
     h \<leftarrow> st_next last next h;
     st_prev next last h
   }"

definition list_splice :: "addr \<Rightarrow> addr \<Rightarrow> lheap \<Rightarrow> lheap option" where
  "list_splice l head h = do {
     e \<leftarrow> list_empty l h;
     if \<not> e then do { n \<leftarrow> ld_next head h; list_splice_between l head n h } else Some h
   }"

definition list_splice_tail :: "addr \<Rightarrow> addr \<Rightarrow> lheap \<Rightarrow> lheap option" where
  "list_splice_tail l head h = do {
     e \<leftarrow> list_empty l h;
     if \<not> e then do { p \<leftarrow> ld_prev head h; list_splice_between l p head h } else Some h
   }"

definition list_splice_init :: "addr \<Rightarrow> addr \<Rightarrow> lheap \<Rightarrow> lheap option" where
  "list_splice_init l head h = do {
     e \<leftarrow> list_empty l h;
     if \<not> e then do {
       n \<leftarrow> ld_next head h;
       h \<leftarrow> list_splice_between l head n h;
       INIT_LIST_HEAD l h
     } else Some h
   }"

definition list_splice_tail_init :: "addr \<Rightarrow> addr \<Rightarrow> lheap \<Rightarrow> lheap option" where
  "list_splice_tail_init l head h = do {
     e \<leftarrow> list_empty l h;
     if \<not> e then do {
       p \<leftarrow> ld_prev head h;
       h \<leftarrow> list_splice_between l p head h;
       INIT_LIST_HEAD l h
     } else Some h
   }"

text \<open>The loops. The body of \<open>list_for_each\<close> and \<open>list_for_each_prev\<close> changes a state \<open>s\<close>
  but not the list; the body of \<open>list_for_each_safe\<close> may change the heap, and the successor is
  read before it runs.\<close>

partial_function (option) for_each_from ::
  "(addr \<Rightarrow> 's \<Rightarrow> 's option) \<Rightarrow> lheap \<Rightarrow> addr \<Rightarrow> addr \<Rightarrow> 's \<Rightarrow> 's option" where
  "for_each_from f h head pos s =
     (if pos = head then Some s
      else do { s \<leftarrow> f pos s; n \<leftarrow> ld_next pos h; for_each_from f h head n s })"

definition list_for_each :: "(addr \<Rightarrow> 's \<Rightarrow> 's option) \<Rightarrow> addr \<Rightarrow> lheap \<Rightarrow> 's \<Rightarrow> 's option" where
  "list_for_each f head h s = do { pos \<leftarrow> ld_next head h; for_each_from f h head pos s }"

partial_function (option) for_each_prev_from ::
  "(addr \<Rightarrow> 's \<Rightarrow> 's option) \<Rightarrow> lheap \<Rightarrow> addr \<Rightarrow> addr \<Rightarrow> 's \<Rightarrow> 's option" where
  "for_each_prev_from f h head pos s =
     (if pos = head then Some s
      else do { s \<leftarrow> f pos s; n \<leftarrow> ld_prev pos h; for_each_prev_from f h head n s })"

definition list_for_each_prev :: "(addr \<Rightarrow> 's \<Rightarrow> 's option) \<Rightarrow> addr \<Rightarrow> lheap \<Rightarrow> 's \<Rightarrow> 's option" where
  "list_for_each_prev f head h s = do { pos \<leftarrow> ld_prev head h; for_each_prev_from f h head pos s }"

partial_function (option) for_each_safe_from ::
  "(addr \<Rightarrow> lheap \<Rightarrow> lheap option) \<Rightarrow> addr \<Rightarrow> addr \<Rightarrow> addr \<Rightarrow> lheap \<Rightarrow> lheap option" where
  "for_each_safe_from f head pos n h =
     (if pos = head then Some h
      else do { h \<leftarrow> f pos h; n' \<leftarrow> ld_next n h; for_each_safe_from f head n n' h })"

definition list_for_each_safe :: "(addr \<Rightarrow> lheap \<Rightarrow> lheap option) \<Rightarrow> addr \<Rightarrow> lheap \<Rightarrow> lheap option" where
  "list_for_each_safe f head h = do {
     pos \<leftarrow> ld_next head h;
     n \<leftarrow> ld_next pos h;
     for_each_safe_from f head pos n h
   }"

declare for_each_from.simps [code] for_each_prev_from.simps [code] for_each_safe_from.simps [code]

section \<open>Representation\<close>

text \<open>The list at \<open>l\<close> with the entries \<open>xs\<close>: neighbours in the cycle point to each other.\<close>

definition link :: "lheap \<Rightarrow> addr \<Rightarrow> addr \<Rightarrow> bool" where
  "link h a b \<longleftrightarrow> ld_next a h = Some b \<and> ld_prev b h = Some a"

definition dlist :: "lheap \<Rightarrow> addr \<Rightarrow> addr list \<Rightarrow> bool" where
  "dlist h l xs \<longleftrightarrow> distinct (l # xs) \<and> successively (link h) (l # xs @ [l])"

text \<open>The heap \<open>h'\<close> has the cells of \<open>h\<close> and differs from it at most in \<open>S\<close>.\<close>

definition keeps :: "addr set \<Rightarrow> lheap \<Rightarrow> lheap \<Rightarrow> bool" where
  "keeps S h h' \<longleftrightarrow> dom h' = dom h \<and> (\<forall>a. a \<notin> S \<longrightarrow> h' a = h a)"

text \<open>Stores as total functions.\<close>

definition up_next :: "addr \<Rightarrow> addr \<Rightarrow> lheap \<Rightarrow> lheap" where
  "up_next p v h = h(p := map_option (\<lambda>n. n\<lparr>nxt := v\<rparr>) (h p))"

definition up_prev :: "addr \<Rightarrow> addr \<Rightarrow> lheap \<Rightarrow> lheap" where
  "up_prev p v h = h(p := map_option (\<lambda>n. n\<lparr>prv := v\<rparr>) (h p))"

lemma st_dom [heap_simps]:
  "p \<in> dom h \<Longrightarrow> st_next p v h = Some (up_next p v h)"
  "p \<in> dom h \<Longrightarrow> st_prev p v h = Some (up_prev p v h)"
  by (auto simp: st_next_def st_prev_def up_next_def up_prev_def)

lemma ld_up [heap_simps]:
  "p \<in> dom h \<Longrightarrow> ld_next q (up_next p v h) = (if q = p then Some v else ld_next q h)"
  "p \<in> dom h \<Longrightarrow> ld_prev q (up_prev p v h) = (if q = p then Some v else ld_prev q h)"
  "ld_next q (up_prev p v h) = ld_next q h"
  "ld_prev q (up_next p v h) = ld_prev q h"
  by (auto simp: ld_next_def ld_prev_def up_next_def up_prev_def option.map_comp comp_def)

lemma dom_up [heap_simps]: "dom (up_next p v h) = dom h" "dom (up_prev p v h) = dom h"
  by (auto simp: up_next_def up_prev_def dom_def split: if_splits)

lemma ld_dom: "ld_next p h = Some v \<Longrightarrow> p \<in> dom h" "ld_prev p h = Some v \<Longrightarrow> p \<in> dom h"
  by (auto simp: ld_next_def ld_prev_def)

lemma keeps_refl [simp]: "keeps S h h"
  by (simp add: keeps_def)

lemma keeps_trans: "keeps S h h' \<Longrightarrow> keeps S h' h'' \<Longrightarrow> keeps S h h''"
  by (auto simp: keeps_def)

lemma keeps_mono: "keeps S h h' \<Longrightarrow> S \<subseteq> S' \<Longrightarrow> keeps S' h h'"
  by (auto simp: keeps_def)

lemma keeps_dom: "keeps S h h' \<Longrightarrow> dom h' = dom h"
  by (simp add: keeps_def)

lemma keeps_ld: "keeps S h h' \<Longrightarrow> a \<notin> S \<Longrightarrow> ld_next a h' = ld_next a h \<and> ld_prev a h' = ld_prev a h"
  by (simp add: keeps_def ld_next_def ld_prev_def)

lemma keeps_up:
  "p \<in> S \<Longrightarrow> keeps S h (up_next p v h') = keeps S h h'"
  "p \<in> S \<Longrightarrow> keeps S h (up_prev p v h') = keeps S h h'"
  by (auto simp: keeps_def dom_up) (auto simp: up_next_def up_prev_def, metis+)

lemma successively_weaken:
  assumes "successively R xs" "\<And>a b. a \<in> set (butlast xs) \<Longrightarrow> b \<in> set (tl xs) \<Longrightarrow> R a b \<Longrightarrow> Q a b"
  shows "successively Q xs"
  using assms
proof (induction xs rule: induct_list012)
  case (3 x y zs)
  have "successively Q (y # zs)" by (rule 3) (use 3 in \<open>auto split: if_splits\<close>)
  then show ?case using 3 by auto
qed auto

lemma dlist_dom: "dlist h l xs \<Longrightarrow> set (l # xs) \<subseteq> dom h"
proof -
  have "successively (link h) (as @ [l]) \<Longrightarrow> set as \<subseteq> dom h" for as
    by (induction as rule: induct_list012) (auto simp: link_def dest: ld_dom)
  from this [of "l # xs"] show "dlist h l xs \<Longrightarrow> set (l # xs) \<subseteq> dom h" by (simp add: dlist_def)
qed

lemma dlist_distinct: "dlist h l xs \<Longrightarrow> distinct (l # xs)"
  by (simp add: dlist_def)

lemma dlist_at:
  assumes "dlist h l (xs @ e # ys)"
  shows "ld_next e h = Some (hd (ys @ [l]))" "ld_prev e h = Some (last (l # xs))"
proof -
  have "successively (link h) ((l # xs) @ e # ys @ [l])" using assms by (simp add: dlist_def)
  then have "link h (last (l # xs)) e" "successively (link h) (e # ys @ [l])"
    by (simp_all only: successively_append_iff) simp_all
  then show "ld_next e h = Some (hd (ys @ [l]))" "ld_prev e h = Some (last (l # xs))"
    by (cases ys; simp add: link_def)+
qed

lemma dlist_head:
  assumes "dlist h l xs"
  shows "ld_next l h = Some (hd (xs @ [l]))" "ld_prev l h = Some (last (l # xs))"
proof -
  have *: "successively (link h) ((l # xs) @ [l])" using assms by (simp add: dlist_def)
  from * show "ld_next l h = Some (hd (xs @ [l]))" by (cases xs) (simp_all add: link_def)
  from * have "link h (last (l # xs)) l" by (simp only: successively_append_iff) simp
  then show "ld_prev l h = Some (last (l # xs))" by (simp add: link_def)
qed

lemma dlist_keeps:
  assumes "dlist h l xs" "keeps S h h'" "S \<inter> set (l # xs) = {}"
  shows "dlist h' l xs"
proof -
  have "successively (link h') (l # xs @ [l])"
    by (rule successively_weaken [of "link h"]) (use assms in \<open>auto simp: dlist_def link_def dest: keeps_ld split: if_splits\<close>)
  then show ?thesis using assms by (simp add: dlist_def)
qed

text \<open>Two chains of cells are joined by a new link between their ends; the stores of \<open>h'\<close> touch
  no other link of the chains.\<close>

lemma dlist_joinI:
  assumes "distinct (l # xs @ ys)" "successively (link h') (l # xs)" "successively (link h') (ys @ [l])"
    "link h' (last (l # xs)) (hd (ys @ [l]))"
  shows "dlist h' l (xs @ ys)"
proof -
  have "successively (link h') ((l # xs) @ (ys @ [l]))"
    using assms(2-4) by (simp only: successively_append_iff) simp
  then show ?thesis using assms(1) by (simp add: dlist_def)
qed

lemma dlist_split:
  assumes "dlist h l (xs @ ys)"
  shows "successively (link h) (l # xs)" "successively (link h) (ys @ [l])"
proof -
  have "successively (link h) ((l # xs) @ (ys @ [l]))" using assms by (simp add: dlist_def)
  then show "successively (link h) (l # xs)" "successively (link h) (ys @ [l])"
    by (simp_all only: successively_append_iff)
qed

section \<open>Operations on one list\<close>

lemma chain_cong:
  assumes "successively (link h) as" "\<And>a. a \<in> set (butlast as) \<Longrightarrow> ld_next a h' = ld_next a h"
    "\<And>b. b \<in> set (tl as) \<Longrightarrow> ld_prev b h' = ld_prev b h"
  shows "successively (link h') as"
  by (rule successively_weaken [OF assms(1)]) (simp add: link_def assms(2,3))

lemma ends_distinct:
  "distinct as \<Longrightarrow> as \<noteq> [] \<Longrightarrow> hd as \<notin> set (tl as)"
  "distinct as \<Longrightarrow> as \<noteq> [] \<Longrightarrow> last as \<notin> set (butlast as)"
  by (cases as; simp) (cases as rule: rev_cases; simp)

lemma last_mem: "last (l # xs) \<in> set (l # xs)" "hd (ys @ [l]) \<in> set (ys @ [l])"
  by (rule last_in_set, simp) (rule hd_in_set, simp)

text \<open>Where the ends of the two chains of a cut cycle are.\<close>

lemma cut_ends:
  assumes "distinct (l # xs @ ys)"
  defines "p \<equiv> last (l # xs)" and "n \<equiv> hd (ys @ [l])"
  shows "p \<notin> set (butlast (l # xs))" "p \<notin> set ys" "n \<notin> set xs" "n \<notin> set (tl (ys @ [l]))"
    "p \<in> set (l # xs)" "n \<in> set (l # ys)"
proof -
  show "p \<notin> set (butlast (l # xs))" unfolding p_def by (rule ends_distinct) (use assms in auto)
  show "n \<notin> set (tl (ys @ [l]))" unfolding n_def by (rule ends_distinct) (use assms in auto)
  show p: "p \<in> set (l # xs)" unfolding p_def by (rule last_mem)
  show n: "n \<in> set (l # ys)" unfolding n_def using last_mem(2) [of ys l] by simp
  show "p \<notin> set ys" "n \<notin> set xs" using p n assms(1) by auto
qed

lemma add_between_dlist:
  assumes d: "dlist h l (xs @ ys)" and new: "new \<in> dom h" "new \<notin> set (l # xs @ ys)"
  shows "\<exists>h'. list_add_between new (last (l # xs)) (hd (ys @ [l])) h = Some h' \<and> dlist h' l (xs @ new # ys) \<and>
    keeps (set (l # xs @ ys) \<union> {new}) h h'"
proof -
  define p n where pn: "p = last (l # xs)" "n = hd (ys @ [l])"
  note e = cut_ends [OF dlist_distinct [OF d], folded pn]
  have dm: "p \<in> dom h" "n \<in> dom h" using e(5,6) dlist_dom [OF d] by auto
  define h' where "h' = up_next p new (up_prev new p (up_next new n (up_prev n new h)))"
  have run: "list_add_between new p n h = Some h'"
    using dm new(1) by (simp add: list_add_between_def h'_def heap_simps)
  have N: "ld_next q h' = (if q = p then Some new else if q = new then Some n else ld_next q h)" for q
    using dm new(1) by (simp add: h'_def heap_simps)
  have P: "ld_prev q h' = (if q = new then Some p else if q = n then Some new else ld_prev q h)" for q
    using dm new(1) by (simp add: h'_def heap_simps)
  have neq: "p \<noteq> new" "n \<noteq> new" using e(5,6) new(2) by auto
  have nb: "new \<notin> set (butlast (l # xs))" "new \<notin> set (tl (ys @ [l]))"
    using new(2) in_set_butlastD [of new "l # xs"] list.set_sel(2) [of "ys @ [l]" new] by auto
  have A: "successively (link h') (l # xs)"
    by (rule chain_cong [OF dlist_split(1) [OF d]]) (use e new nb in \<open>auto simp: N P simp del: butlast.simps\<close>)
  have B: "successively (link h') (ys @ [l])"
    by (rule chain_cong [OF dlist_split(2) [OF d]]) (use e new nb in \<open>auto simp: N P\<close>)
  have "dlist h' l (xs @ new # ys)"
  proof (rule dlist_joinI)
    show "successively (link h') ((new # ys) @ [l])"
      using B neq by (cases ys) (auto simp: link_def N P pn)
    show "link h' (last (l # xs)) (hd ((new # ys) @ [l]))" unfolding pn(1) [symmetric]
      by (simp add: link_def N P)
  qed (use A dlist_distinct [OF d] new in auto)
  moreover have "keeps (set (l # xs @ ys) \<union> {new}) h h'"
    using e(5,6) by (auto simp: h'_def keeps_up)
  ultimately show ?thesis using run pn by blast
qed

lemma del_between_dlist:
  assumes d: "dlist h l (xs @ e # ys)"
  shows "\<exists>h'. list_del_between (last (l # xs)) (hd (ys @ [l])) h = Some h' \<and> dlist h' l (xs @ ys) \<and>
    keeps (set (l # xs @ ys)) h h'"
proof -
  define p n where pn: "p = last (l # xs)" "n = hd (ys @ [l])"
  have dis: "distinct (l # xs @ ys)" using dlist_distinct [OF d] by auto
  note e = cut_ends [OF dis, folded pn]
  have dm: "p \<in> dom h" "n \<in> dom h" using e(5,6) dlist_dom [OF d] by auto
  define h' where "h' = up_next p n (up_prev n p h)"
  have run: "list_del_between p n h = Some h'"
    using dm by (simp add: list_del_between_def h'_def heap_simps)
  have N: "ld_next q h' = (if q = p then Some n else ld_next q h)" for q
    using dm by (simp add: h'_def heap_simps)
  have P: "ld_prev q h' = (if q = n then Some p else ld_prev q h)" for q
    using dm by (simp add: h'_def heap_simps)
  have A: "successively (link h') (l # xs)"
    by (rule chain_cong [OF dlist_split(1) [OF d]]) (use e in \<open>auto simp: N P\<close>)
  have B0: "successively (link h) (ys @ [l])" using dlist_split(2) [OF d] by (cases ys) auto
  have B: "successively (link h') (ys @ [l])"
    by (rule chain_cong [OF B0]) (use e in \<open>auto simp: N P\<close>)
  have "dlist h' l (xs @ ys)"
    by (rule dlist_joinI [OF dis A B]) (simp only: pn [symmetric], simp add: link_def N P)
  moreover have "keeps (set (l # xs @ ys)) h h'" using e(5,6) by (auto simp: h'_def keeps_up)
  ultimately show ?thesis using run pn by blast
qed

text \<open>The entries between two cells of a cycle are a chain.\<close>

lemma dlist_chain: "dlist h k zs \<Longrightarrow> successively (link h) zs"
  using dlist_split(1) [of h k zs "[]"] by (cases zs) auto

lemma splice_between_dlist:
  assumes d: "dlist h l (xs @ ys)" and k: "dlist h k zs" "zs \<noteq> []"
    and dis: "set (l # xs @ ys) \<inter> set (k # zs) = {}"
  shows "\<exists>h'. list_splice_between k (last (l # xs)) (hd (ys @ [l])) h = Some h' \<and> dlist h' l (xs @ zs @ ys) \<and>
    keeps (set (l # xs @ ys) \<union> set zs) h h'"
proof -
  define p n f e where pn: "p = last (l # xs)" "n = hd (ys @ [l])" and fe: "f = hd zs" "e = last zs"
  note c = cut_ends [OF dlist_distinct [OF d], folded pn]
  have z: "f \<in> set zs" "e \<in> set zs" using k(2) by (simp_all add: fe)
  have dz: "distinct zs" using dlist_distinct [OF k(1)] by simp
  have dm: "p \<in> dom h" "n \<in> dom h" "f \<in> dom h" "e \<in> dom h"
    using c(5,6) dlist_dom [OF d] dlist_dom [OF k(1)] z by auto
  have ld: "ld_next k h = Some f" "ld_prev k h = Some e"
    using dlist_head [OF k(1)] k(2) by (simp_all add: fe)
  define h' where "h' = up_prev n e (up_next e n (up_next p f (up_prev f p h)))"
  have run: "list_splice_between k p n h = Some h'"
    using dm ld by (simp add: list_splice_between_def h'_def heap_simps)
  have N: "ld_next q h' = (if q = e then Some n else if q = p then Some f else ld_next q h)" for q
    using dm by (simp add: h'_def heap_simps)
  have P: "ld_prev q h' = (if q = n then Some e else if q = f then Some p else ld_prev q h)" for q
    using dm by (simp add: h'_def heap_simps)
  have out: "set (l # xs) \<inter> set zs = {}" "set (ys @ [l]) \<inter> set zs = {}" using dis by auto
  have nb: "e \<notin> set (butlast (l # xs))" "f \<notin> set (tl (ys @ [l]))"
    using out z in_set_butlastD [of e "l # xs"] list.set_sel(2) [of "ys @ [l]" f] by auto
  have A: "successively (link h') (l # xs)"
    by (rule chain_cong [OF dlist_split(1) [OF d]]) (use c nb out z in \<open>auto simp: N P simp del: butlast.simps\<close>)
  have B: "successively (link h') (ys @ [l])"
    by (rule chain_cong [OF dlist_split(2) [OF d]]) (use c nb out z in \<open>auto simp: N P\<close>)
  have nz: "p \<notin> set zs" "n \<notin> set zs" using c(5,6) dis by auto
  have C: "successively (link h') zs"
    by (rule chain_cong [OF dlist_chain [OF k(1)]])
      (use ends_distinct [OF dz k(2)] nz in \<open>auto simp: N P fe dest: in_set_butlastD list.set_sel(2) [OF k(2)]\<close>)
  have "e \<noteq> p" "f \<noteq> n" using z c(5,6) dis by auto
  then have joins: "link h' p f" "link h' e n" by (simp_all add: link_def N P)
  have "dlist h' l (xs @ zs @ ys)"
  proof (rule dlist_joinI [OF _ A])
    show "successively (link h') ((zs @ ys) @ [l])"
      using B C joins(2) k(2) by (simp add: successively_append_iff pn fe)
    show "link h' (last (l # xs)) (hd ((zs @ ys) @ [l]))" using joins(1) k(2) by (simp add: pn fe)
  qed (use dlist_distinct [OF d] dz dis in auto)
  moreover have "keeps (set (l # xs @ ys) \<union> set zs) h h'" using c(5,6) z by (auto simp: h'_def keeps_up)
  ultimately show ?thesis using run pn by blast
qed

lemma cut_between_dlist:
  assumes d: "dlist h l (xs @ e # ys)" and k: "k \<in> dom h" "k \<notin> set (l # xs @ e # ys)"
  shows "\<exists>h'. list_cut_position_between k l e h = Some h' \<and> dlist h' k (xs @ [e]) \<and> dlist h' l ys \<and>
    keeps (set (l # xs @ e # ys) \<union> {k}) h h'"
proof -
  define f n where fn: "f = hd (xs @ [e])" "n = hd (ys @ [l])"
  have d': "dlist h l ((xs @ [e]) @ ys)" using d by simp
  note dis = dlist_distinct [OF d]
  have f: "f \<in> set (xs @ [e])" and n: "n \<in> set (ys @ [l])" unfolding fn by (rule last_mem)+
  have dm: "l \<in> dom h" "e \<in> dom h" "f \<in> dom h" "n \<in> dom h" using f n dlist_dom [OF d] by auto
  have ld: "ld_next e h = Some n" "ld_next l h = Some f"
    using dlist_at(1) [OF d] dlist_head(1) [OF d] by (auto simp: fn hd_append)
  have neq: "f \<noteq> n" "e \<noteq> l" "k \<noteq> f" "k \<noteq> n" "k \<noteq> l" "k \<noteq> e" using f n k(2) dis by auto
  define h' where "h' = up_prev n l (up_next l n (up_next e k (up_prev k e (up_prev f k (up_next k f h)))))"
  have run: "list_cut_position_between k l e h = Some h'"
    using dm ld k(1) neq by (simp add: list_cut_position_between_def h'_def heap_simps)
  have N: "ld_next q h' = (if q = l then Some n else if q = e then Some k else if q = k then Some f else ld_next q h)" for q
    using dm k(1) by (simp add: h'_def heap_simps)
  have P: "ld_prev q h' = (if q = n then Some l else if q = k then Some e else if q = f then Some k else ld_prev q h)" for q
    using dm k(1) by (simp add: h'_def heap_simps)
  have xe: "distinct (xs @ [e])" "distinct (ys @ [l])" using dis by auto
  have t: "f \<notin> set (tl (xs @ [e]))" "n \<notin> set (tl (ys @ [l]))" unfolding fn
    by (rule ends_distinct; use xe in simp)+
  have sub: "set (tl (xs @ [e])) \<subseteq> set (xs @ [e])" "set (tl (ys @ [l])) \<subseteq> set (ys @ [l])"
    by (auto dest: list.set_sel(2) [rotated])
  have "successively (link h) (xs @ [e])" using dlist_split(1) [OF d'] by (cases xs) auto
  then have A: "successively (link h') (xs @ [e])"
    by (rule chain_cong) (use t sub dis k(2) n neq in \<open>auto simp: N P\<close>)
  have B: "successively (link h') (ys @ [l])"
    by (rule chain_cong [OF dlist_split(2) [OF d']]) (use t sub dis k(2) f neq in \<open>auto simp: N P\<close>)
  have "dlist h' k ([] @ (xs @ [e]))"
  proof (rule dlist_joinI)
    show "successively (link h') ((xs @ [e]) @ [k])"
      using A neq by (simp add: successively_append_iff link_def N P)
    have "hd ((xs @ [e]) @ [k]) = f" by (simp add: fn hd_append)
    then show "link h' (last [k]) (hd ((xs @ [e]) @ [k]))" using neq by (simp add: link_def N P)
  qed (use dis k(2) in auto)
  moreover have "dlist h' l ([] @ ys)"
    by (rule dlist_joinI [OF _ _ B]) (use dis neq in \<open>auto simp: link_def N P fn [symmetric]\<close>)
  moreover have "keeps (set (l # xs @ e # ys) \<union> {k}) h h'" using f n by (auto simp: h'_def keeps_up)
  ultimately show ?thesis using run by auto
qed


lemma replace_dlist:
  assumes d: "dlist h l (xs @ old # ys)" and new: "new \<in> dom h" "new \<notin> set (l # xs @ old # ys)"
  shows "\<exists>h'. list_replace old new h = Some h' \<and> dlist h' l (xs @ new # ys) \<and>
    keeps (set (l # xs @ ys) \<union> {new}) h h'"
proof -
  define p n where pn: "p = last (l # xs)" "n = hd (ys @ [l])"
  note dis = dlist_distinct [OF d]
  have dis': "distinct (l # xs @ ys)" using dis by auto
  note e = cut_ends [OF dis', folded pn]
  have dm: "p \<in> dom h" "n \<in> dom h" "old \<in> dom h" using e(5,6) dlist_dom [OF d] by auto
  have ld: "ld_next old h = Some n" "ld_prev old h = Some p" using dlist_at [OF d] by (simp_all add: pn)
  have neq: "p \<noteq> new" "n \<noteq> new" "n \<noteq> old" using e(5,6) new(2) dis by auto
  define h' where "h' = up_next p new (up_prev new p (up_prev n new (up_next new n h)))"
  have run: "list_replace old new h = Some h'"
    using dm new(1) ld neq by (simp add: list_replace_def h'_def heap_simps)
  have N: "ld_next q h' = (if q = p then Some new else if q = new then Some n else ld_next q h)" for q
    using dm new(1) by (simp add: h'_def heap_simps)
  have P: "ld_prev q h' = (if q = new then Some p else if q = n then Some new else ld_prev q h)" for q
    using dm new(1) by (simp add: h'_def heap_simps)
  have nb: "new \<notin> set (butlast (l # xs))" "new \<notin> set (tl (ys @ [l]))"
    using new(2) in_set_butlastD [of new "l # xs"] list.set_sel(2) [of "ys @ [l]" new] by auto
  have A: "successively (link h') (l # xs)"
    by (rule chain_cong [OF dlist_split(1) [OF d]]) (use e new nb in \<open>auto simp: N P simp del: butlast.simps\<close>)
  have B0: "successively (link h) (ys @ [l])" using dlist_split(2) [OF d] by (cases ys) auto
  have B: "successively (link h') (ys @ [l])"
    by (rule chain_cong [OF B0]) (use e new nb in \<open>auto simp: N P\<close>)
  have "dlist h' l (xs @ new # ys)"
  proof (rule dlist_joinI [OF _ A])
    show "successively (link h') ((new # ys) @ [l])"
      using B neq by (cases ys) (auto simp: link_def N P pn)
    show "link h' (last (l # xs)) (hd ((new # ys) @ [l]))" unfolding pn(1) [symmetric]
      by (simp add: link_def N P)
  qed (use dis new in auto)
  moreover have "keeps (set (l # xs @ ys) \<union> {new}) h h'" using e(5,6) by (auto simp: h'_def keeps_up)
  ultimately show ?thesis using run by blast
qed

lemma replace_head_dlist:
  assumes d: "dlist h old xs" and new: "new \<in> dom h" "new \<notin> set (old # xs)"
  shows "\<exists>h'. list_replace old new h = Some h' \<and> dlist h' new xs \<and> keeps (set (old # xs) \<union> {new}) h h'"
proof (cases xs)
  case Nil
  have ld: "ld_next old h = Some old" "old \<in> dom h" using dlist_head(1) [OF d] dlist_dom [OF d] Nil by auto
  have ne: "new \<noteq> old" using new(2) by simp
  define h' where "h' = up_next new new (up_prev new new (up_prev old new (up_next new old h)))"
  have "list_replace old new h = Some h'"
    using ld new(1) ne by (simp add: list_replace_def h'_def heap_simps)
  moreover have "dlist h' new []" using new(1) by (simp add: dlist_def link_def h'_def heap_simps)
  moreover have "keeps (set (old # xs) \<union> {new}) h h'" by (simp add: h'_def keeps_up)
  ultimately show ?thesis using Nil by blast
next
  case (Cons x xs')
  define e where "e = last xs"
  have e: "e \<in> set xs" "xs \<noteq> []" using Cons by (simp_all add: e_def)
  have dis: "distinct xs" "old \<notin> set xs" using dlist_distinct [OF d] by auto
  have dm: "x \<in> dom h" "e \<in> dom h" "old \<in> dom h" using dlist_dom [OF d] e Cons by auto
  have ld: "ld_next old h = Some x" "ld_prev old h = Some e" using dlist_head [OF d] Cons by (simp_all add: e_def)
  have x: "x \<in> set xs" "x = hd xs" using Cons by auto
  have neq: "x \<noteq> old" "new \<noteq> x" "new \<noteq> old" "new \<noteq> e" using x e new(2) dis by auto
  define h' where "h' = up_next e new (up_prev new e (up_prev x new (up_next new x h)))"
  have run: "list_replace old new h = Some h'"
    using dm ld new(1) neq by (simp add: list_replace_def h'_def heap_simps)
  have N: "ld_next q h' = (if q = e then Some new else if q = new then Some x else ld_next q h)" for q
    using dm new(1) by (simp add: h'_def heap_simps)
  have P: "ld_prev q h' = (if q = new then Some e else if q = x then Some new else ld_prev q h)" for q
    using dm new(1) by (simp add: h'_def heap_simps)
  have C: "successively (link h') xs"
    by (rule chain_cong [OF dlist_chain [OF d]])
      (use ends_distinct [OF dis(1) e(2)] new(2) in
        \<open>auto simp: N P e_def x(2) dest: in_set_butlastD list.set_sel(2) [OF e(2)]\<close>)
  have "dlist h' new ([] @ xs)"
  proof (rule dlist_joinI)
    show "successively (link h') (xs @ [new])" using C e neq by (simp add: successively_append_iff link_def N P e_def)
    show "link h' (last [new]) (hd (xs @ [new]))" using neq Cons by (simp add: link_def N P)
  qed (use dis new(2) in auto)
  moreover have "keeps (set (old # xs) \<union> {new}) h h'" using e x by (auto simp: h'_def keeps_up)
  ultimately show ?thesis using run by auto
qed

end
