(* ===== verification/List_Entry.thy ===== *)
theory List_Entry
  imports Linked_List
begin

text \<open>
  The typed macros of \<^verbatim>\<open>src/include/list.h\<close>: from a list cell to the structure it is embedded in, and
  the loops over such structures. A structure is given by its address, an \<open>int\<close> because the
  address that \<open>container_of\<close> computes for a list head is not that of an object and may be
  negative; \<open>off\<close> is the offset of the member. Every loop is shown equal to the
  loop over cells with the body composed with \<open>list_entry\<close>.
\<close>

section \<open>Model\<close>

definition container_of :: "addr \<Rightarrow> nat \<Rightarrow> int" where
  "container_of p off = int p - int off"

text \<open>\<open>&pos->member\<close>.\<close>

definition member_of :: "int \<Rightarrow> nat \<Rightarrow> addr" where
  "member_of pos off = nat (pos + int off)"

definition list_entry :: "addr \<Rightarrow> nat \<Rightarrow> int" where
  "list_entry p off = container_of p off"

definition list_first_entry :: "addr \<Rightarrow> nat \<Rightarrow> lheap \<Rightarrow> int option" where
  "list_first_entry l off h = do { n \<leftarrow> ld_next l h; Some (list_entry n off) }"

definition list_first_entry_or_null :: "addr \<Rightarrow> nat \<Rightarrow> lheap \<Rightarrow> int option option" where
  "list_first_entry_or_null l off h = do {
     e \<leftarrow> list_empty l h;
     if \<not> e then do { p \<leftarrow> list_first_entry l off h; Some (Some p) } else Some None
   }"

definition list_prepare_entry :: "int option \<Rightarrow> addr \<Rightarrow> nat \<Rightarrow> int" where
  "list_prepare_entry pos head off = (case pos of Some p \<Rightarrow> p | None \<Rightarrow> list_entry head off)"

text \<open>\<open>list_entry (pos->member.next, \<dots>)\<close> and \<open>list_entry (pos->member.prev, \<dots>)\<close>.\<close>

definition entry_next :: "int \<Rightarrow> nat \<Rightarrow> lheap \<Rightarrow> int option" where
  "entry_next pos off h = do { n \<leftarrow> ld_next (member_of pos off) h; Some (list_entry n off) }"

definition entry_prev :: "int \<Rightarrow> nat \<Rightarrow> lheap \<Rightarrow> int option" where
  "entry_prev pos off h = do { p \<leftarrow> ld_prev (member_of pos off) h; Some (list_entry p off) }"

definition list_safe_reset_next :: "int \<Rightarrow> nat \<Rightarrow> lheap \<Rightarrow> int option" where
  "list_safe_reset_next pos off h = entry_next pos off h"

text \<open>The loops over entries, forwards and backwards. The body changes a state \<open>s\<close> but not the list.\<close>

partial_function (option) list_for_each_entry_from ::
  "(int \<Rightarrow> 's \<Rightarrow> 's option) \<Rightarrow> addr \<Rightarrow> nat \<Rightarrow> lheap \<Rightarrow> int \<Rightarrow> 's \<Rightarrow> 's option" where
  "list_for_each_entry_from f head off h pos s =
     (if member_of pos off = head then Some s
      else do { s \<leftarrow> f pos s; n \<leftarrow> entry_next pos off h; list_for_each_entry_from f head off h n s })"

partial_function (option) entry_reverse_from ::
  "(int \<Rightarrow> 's \<Rightarrow> 's option) \<Rightarrow> addr \<Rightarrow> nat \<Rightarrow> lheap \<Rightarrow> int \<Rightarrow> 's \<Rightarrow> 's option" where
  "entry_reverse_from f head off h pos s =
     (if member_of pos off = head then Some s
      else do { s \<leftarrow> f pos s; n \<leftarrow> entry_prev pos off h; entry_reverse_from f head off h n s })"

definition list_for_each_entry ::
  "(int \<Rightarrow> 's \<Rightarrow> 's option) \<Rightarrow> addr \<Rightarrow> nat \<Rightarrow> lheap \<Rightarrow> 's \<Rightarrow> 's option" where
  "list_for_each_entry f head off h s = do {
     n \<leftarrow> ld_next head h;
     list_for_each_entry_from f head off h (list_entry n off) s
   }"

definition list_for_each_entry_reverse ::
  "(int \<Rightarrow> 's \<Rightarrow> 's option) \<Rightarrow> addr \<Rightarrow> nat \<Rightarrow> lheap \<Rightarrow> 's \<Rightarrow> 's option" where
  "list_for_each_entry_reverse f head off h s = do {
     p \<leftarrow> ld_prev head h;
     entry_reverse_from f head off h (list_entry p off) s
   }"

definition list_for_each_entry_continue ::
  "(int \<Rightarrow> 's \<Rightarrow> 's option) \<Rightarrow> addr \<Rightarrow> nat \<Rightarrow> lheap \<Rightarrow> int \<Rightarrow> 's \<Rightarrow> 's option" where
  "list_for_each_entry_continue f head off h pos s = do {
     pos \<leftarrow> entry_next pos off h;
     list_for_each_entry_from f head off h pos s
   }"

definition list_for_each_entry_continue_reverse ::
  "(int \<Rightarrow> 's \<Rightarrow> 's option) \<Rightarrow> addr \<Rightarrow> nat \<Rightarrow> lheap \<Rightarrow> int \<Rightarrow> 's \<Rightarrow> 's option" where
  "list_for_each_entry_continue_reverse f head off h pos s = do {
     pos \<leftarrow> entry_prev pos off h;
     entry_reverse_from f head off h pos s
   }"

text \<open>The safe loops: the neighbour is read before the body runs, and the body may change the heap.\<close>

partial_function (option) entry_safe_from ::
  "(int \<Rightarrow> lheap \<Rightarrow> lheap option) \<Rightarrow> addr \<Rightarrow> nat \<Rightarrow> int \<Rightarrow> int \<Rightarrow> lheap \<Rightarrow> lheap option" where
  "entry_safe_from f head off pos n h =
     (if member_of pos off = head then Some h
      else do { h \<leftarrow> f pos h; n' \<leftarrow> entry_next n off h; entry_safe_from f head off n n' h })"

partial_function (option) entry_safe_reverse_from ::
  "(int \<Rightarrow> lheap \<Rightarrow> lheap option) \<Rightarrow> addr \<Rightarrow> nat \<Rightarrow> int \<Rightarrow> int \<Rightarrow> lheap \<Rightarrow> lheap option" where
  "entry_safe_reverse_from f head off pos n h =
     (if member_of pos off = head then Some h
      else do { h \<leftarrow> f pos h; n' \<leftarrow> entry_prev n off h; entry_safe_reverse_from f head off n n' h })"

partial_function (option) for_each_prev_safe_from ::
  "(addr \<Rightarrow> lheap \<Rightarrow> lheap option) \<Rightarrow> addr \<Rightarrow> addr \<Rightarrow> addr \<Rightarrow> lheap \<Rightarrow> lheap option" where
  "for_each_prev_safe_from f head pos n h =
     (if pos = head then Some h
      else do { h \<leftarrow> f pos h; n' \<leftarrow> ld_prev n h; for_each_prev_safe_from f head n n' h })"

definition list_for_each_prev_safe :: "(addr \<Rightarrow> lheap \<Rightarrow> lheap option) \<Rightarrow> addr \<Rightarrow> lheap \<Rightarrow> lheap option" where
  "list_for_each_prev_safe f head h = do {
     pos \<leftarrow> ld_prev head h;
     n \<leftarrow> ld_prev pos h;
     for_each_prev_safe_from f head pos n h
   }"

definition list_for_each_entry_safe_from ::
  "(int \<Rightarrow> lheap \<Rightarrow> lheap option) \<Rightarrow> addr \<Rightarrow> nat \<Rightarrow> int \<Rightarrow> lheap \<Rightarrow> lheap option" where
  "list_for_each_entry_safe_from f head off pos h = do {
     n \<leftarrow> entry_next pos off h;
     entry_safe_from f head off pos n h
   }"

definition list_for_each_entry_safe ::
  "(int \<Rightarrow> lheap \<Rightarrow> lheap option) \<Rightarrow> addr \<Rightarrow> nat \<Rightarrow> lheap \<Rightarrow> lheap option" where
  "list_for_each_entry_safe f head off h = do {
     p \<leftarrow> ld_next head h;
     let pos = list_entry p off;
     n \<leftarrow> entry_next pos off h;
     entry_safe_from f head off pos n h
   }"

definition list_for_each_entry_safe_continue ::
  "(int \<Rightarrow> lheap \<Rightarrow> lheap option) \<Rightarrow> addr \<Rightarrow> nat \<Rightarrow> int \<Rightarrow> lheap \<Rightarrow> lheap option" where
  "list_for_each_entry_safe_continue f head off pos h = do {
     pos \<leftarrow> entry_next pos off h;
     n \<leftarrow> entry_next pos off h;
     entry_safe_from f head off pos n h
   }"

definition list_for_each_entry_safe_reverse ::
  "(int \<Rightarrow> lheap \<Rightarrow> lheap option) \<Rightarrow> addr \<Rightarrow> nat \<Rightarrow> lheap \<Rightarrow> lheap option" where
  "list_for_each_entry_safe_reverse f head off h = do {
     p \<leftarrow> ld_prev head h;
     let pos = list_entry p off;
     n \<leftarrow> entry_prev pos off h;
     entry_safe_reverse_from f head off pos n h
   }"

declare list_for_each_entry_from.simps [code] entry_reverse_from.simps [code] entry_safe_from.simps [code]
  entry_safe_reverse_from.simps [code] for_each_prev_safe_from.simps [code]

section \<open>Typed loops are loops over cells\<close>

lemma member_of_entry [simp]: "member_of (list_entry p off) off = p"
  by (simp add: member_of_def list_entry_def container_of_def)

lemma entry_of_member: "0 \<le> pos + int off \<Longrightarrow> list_entry (member_of pos off) off = pos"
  by (simp add: member_of_def list_entry_def container_of_def)

lemma entry_step [simp]:
  "entry_next (list_entry p off) off h = map_option (\<lambda>n. list_entry n off) (ld_next p h)"
  "entry_prev (list_entry p off) off h = map_option (\<lambda>n. list_entry n off) (ld_prev p h)"
  by (simp_all add: entry_next_def entry_prev_def, (cases "ld_next p h"; simp), (cases "ld_prev p h"; simp))

text \<open>Two loops that step alike are equal: each result of one is a result of the other.\<close>

lemma option_eqI: "(\<And>r. x = Some r \<Longrightarrow> y = Some r) \<Longrightarrow> (\<And>r. y = Some r \<Longrightarrow> x = Some r) \<Longrightarrow> x = y"
  by (cases x; cases y) auto

lemma entry_from_eq:
  "list_for_each_entry_from f head off h (list_entry p off) s = for_each_from (\<lambda>p. f (list_entry p off)) h head p s"
proof (rule option_eqI)
  fix r
  show "list_for_each_entry_from f head off h (list_entry p off) s = Some r \<Longrightarrow> for_each_from (\<lambda>p. f (list_entry p off)) h head p s = Some r"
    by (drule list_for_each_entry_from.raw_induct [where P = "\<lambda>f head off h pos s r. \<forall>p. pos = list_entry p off \<longrightarrow>
      for_each_from (\<lambda>p. f (list_entry p off)) h head p s = Some r", rotated], intro allI impI, subst for_each_from.simps)
      (auto simp: bind_eq_Some_iff split: if_splits)
  show "for_each_from (\<lambda>p. f (list_entry p off)) h head p s = Some r \<Longrightarrow> list_for_each_entry_from f head off h (list_entry p off) s = Some r"
    by (drule for_each_from.raw_induct [where P = "\<lambda>g h head p s r. g = (\<lambda>p. f (list_entry p off)) \<longrightarrow>
      list_for_each_entry_from f head off h (list_entry p off) s = Some r", rotated], intro allI impI, subst list_for_each_entry_from.simps)
      (auto simp: bind_eq_Some_iff split: if_splits)
qed

lemma entry_reverse_from_eq:
  "entry_reverse_from f head off h (list_entry p off) s = for_each_prev_from (\<lambda>p. f (list_entry p off)) h head p s"
proof (rule option_eqI)
  fix r
  show "entry_reverse_from f head off h (list_entry p off) s = Some r \<Longrightarrow> for_each_prev_from (\<lambda>p. f (list_entry p off)) h head p s = Some r"
    by (drule entry_reverse_from.raw_induct [where P = "\<lambda>f head off h pos s r. \<forall>p. pos = list_entry p off \<longrightarrow>
      for_each_prev_from (\<lambda>p. f (list_entry p off)) h head p s = Some r", rotated], intro allI impI, subst for_each_prev_from.simps)
      (auto simp: bind_eq_Some_iff split: if_splits)
  show "for_each_prev_from (\<lambda>p. f (list_entry p off)) h head p s = Some r \<Longrightarrow> entry_reverse_from f head off h (list_entry p off) s = Some r"
    by (drule for_each_prev_from.raw_induct [where P = "\<lambda>g h head p s r. g = (\<lambda>p. f (list_entry p off)) \<longrightarrow>
      entry_reverse_from f head off h (list_entry p off) s = Some r", rotated], intro allI impI, subst entry_reverse_from.simps)
      (auto simp: bind_eq_Some_iff split: if_splits)
qed

lemma entry_safe_from_eq:
  "entry_safe_from f head off (list_entry p off) (list_entry n off) h = for_each_safe_from (\<lambda>p. f (list_entry p off)) head p n h"
proof (rule option_eqI)
  fix r
  show "entry_safe_from f head off (list_entry p off) (list_entry n off) h = Some r \<Longrightarrow> for_each_safe_from (\<lambda>p. f (list_entry p off)) head p n h = Some r"
    by (drule entry_safe_from.raw_induct [where P = "\<lambda>f head off pos m h r. \<forall>p n. pos = list_entry p off \<and> m = list_entry n off \<longrightarrow>
      for_each_safe_from (\<lambda>p. f (list_entry p off)) head p n h = Some r", rotated], intro allI impI, subst for_each_safe_from.simps)
      (auto simp: bind_eq_Some_iff split: if_splits)
  show "for_each_safe_from (\<lambda>p. f (list_entry p off)) head p n h = Some r \<Longrightarrow> entry_safe_from f head off (list_entry p off) (list_entry n off) h = Some r"
    by (drule for_each_safe_from.raw_induct [where P = "\<lambda>g head p n h r. g = (\<lambda>p. f (list_entry p off)) \<longrightarrow>
      entry_safe_from f head off (list_entry p off) (list_entry n off) h = Some r", rotated], intro allI impI, subst entry_safe_from.simps)
      (auto simp: bind_eq_Some_iff split: if_splits)
qed

lemma entry_safe_reverse_from_eq:
  "entry_safe_reverse_from f head off (list_entry p off) (list_entry n off) h = for_each_prev_safe_from (\<lambda>p. f (list_entry p off)) head p n h"
proof (rule option_eqI)
  fix r
  show "entry_safe_reverse_from f head off (list_entry p off) (list_entry n off) h = Some r \<Longrightarrow> for_each_prev_safe_from (\<lambda>p. f (list_entry p off)) head p n h = Some r"
    by (drule entry_safe_reverse_from.raw_induct [where P = "\<lambda>f head off pos m h r. \<forall>p n. pos = list_entry p off \<and> m = list_entry n off \<longrightarrow>
      for_each_prev_safe_from (\<lambda>p. f (list_entry p off)) head p n h = Some r", rotated], intro allI impI, subst for_each_prev_safe_from.simps)
      (auto simp: bind_eq_Some_iff split: if_splits)
  show "for_each_prev_safe_from (\<lambda>p. f (list_entry p off)) head p n h = Some r \<Longrightarrow> entry_safe_reverse_from f head off (list_entry p off) (list_entry n off) h = Some r"
    by (drule for_each_prev_safe_from.raw_induct [where P = "\<lambda>g head p n h r. g = (\<lambda>p. f (list_entry p off)) \<longrightarrow>
      entry_safe_reverse_from f head off (list_entry p off) (list_entry n off) h = Some r", rotated], intro allI impI, subst entry_safe_reverse_from.simps)
      (auto simp: bind_eq_Some_iff split: if_splits)
qed

lemma typed_loops:
  "list_for_each_entry f head off h s = list_for_each (\<lambda>p. f (list_entry p off)) head h s"
  "list_for_each_entry_reverse f head off h s = list_for_each_prev (\<lambda>p. f (list_entry p off)) head h s"
  by (simp_all add: list_for_each_entry_def list_for_each_def entry_from_eq
      list_for_each_entry_reverse_def list_for_each_prev_def entry_reverse_from_eq)

lemma bind_map_option: "Option.bind (map_option e m) k = Option.bind m (\<lambda>n. k (e n))"
  by (cases m) simp_all

lemma typed_loops_continue:
  "list_for_each_entry_continue f head off h (list_entry p off) s =
     do { n \<leftarrow> ld_next p h; for_each_from (\<lambda>p. f (list_entry p off)) h head n s }"
  "list_for_each_entry_continue_reverse f head off h (list_entry p off) s =
     do { n \<leftarrow> ld_prev p h; for_each_prev_from (\<lambda>p. f (list_entry p off)) h head n s }"
  by (simp_all add: list_for_each_entry_continue_def list_for_each_entry_continue_reverse_def
      bind_map_option entry_from_eq entry_reverse_from_eq)

lemma typed_safe_loops:
  "list_for_each_entry_safe g head off h = list_for_each_safe (\<lambda>p. g (list_entry p off)) head h"
  "list_for_each_entry_safe_reverse g head off h = list_for_each_prev_safe (\<lambda>p. g (list_entry p off)) head h"
  "list_for_each_entry_safe_from g head off (list_entry p off) h =
     do { n \<leftarrow> ld_next p h; for_each_safe_from (\<lambda>p. g (list_entry p off)) head p n h }"
  "list_for_each_entry_safe_continue g head off (list_entry p off) h =
     do { q \<leftarrow> ld_next p h; n \<leftarrow> ld_next q h; for_each_safe_from (\<lambda>p. g (list_entry p off)) head q n h }"
  by (simp_all add: list_for_each_entry_safe_def list_for_each_safe_def list_for_each_entry_safe_reverse_def
      list_for_each_prev_safe_def list_for_each_entry_safe_from_def list_for_each_entry_safe_continue_def
      bind_map_option entry_safe_from_eq entry_safe_reverse_from_eq)

end
