(* ===== verification/Hash_List.thy ===== *)
theory Hash_List
  imports List_Entry
begin

text \<open>
  The singly headed lists (\<open>hlist\<close>) of \<^verbatim>\<open>src/include/list.h\<close>. A head is one pointer to the first node; a
  node has a pointer to the next node and a pointer to the place that points to it, which is the
  \<open>first\<close> of a head or the \<open>next\<close> of a node. Such places are \<open>hloc\<close>s, so that a store through
  \<open>pprev\<close> is a store to a head or to a node. The specification is a map from heads to lists of nodes together with the
  set of the unhashed nodes.
\<close>

section \<open>Model\<close>

datatype hloc = First addr | Next addr | Wild addr

record hlist_node =
  hnext :: ptr
  pprev :: "hloc option"

record hheap =
  hlist_heads :: "addr \<rightharpoonup> ptr"
  hlist_nodes :: "addr \<rightharpoonup> hlist_node"

text \<open>\<open>n->pprev\<close>, a load or store through a pointer to a pointer (\<open>*l\<close>, with \<open>h->first\<close> and
  \<open>n->next\<close> as instances), and the assignment to \<open>n->pprev\<close>.\<close>

definition ld_pprev :: "addr \<Rightarrow> hheap \<Rightarrow> hloc option option" where
  "ld_pprev n H = map_option pprev (hlist_nodes H n)"

fun ld_loc :: "hloc \<Rightarrow> hheap \<Rightarrow> ptr option" where
  "ld_loc (First h) H = hlist_heads H h"
| "ld_loc (Next n) H = map_option hnext (hlist_nodes H n)"
| "ld_loc (Wild a) H = None"

fun st_loc :: "hloc \<Rightarrow> ptr \<Rightarrow> hheap \<Rightarrow> hheap option" where
  "st_loc (First h) v H = do { _ \<leftarrow> hlist_heads H h; Some (H\<lparr>hlist_heads := (hlist_heads H)(h \<mapsto> v)\<rparr>) }"
| "st_loc (Next n) v H = do {
     c \<leftarrow> hlist_nodes H n;
     Some (H\<lparr>hlist_nodes := (hlist_nodes H)(n \<mapsto> c\<lparr>hnext := v\<rparr>)\<rparr>)
   }"
| "st_loc (Wild a) v H = None"

definition st_pprev :: "addr \<Rightarrow> hloc option \<Rightarrow> hheap \<Rightarrow> hheap option" where
  "st_pprev n v H = do {
     c \<leftarrow> hlist_nodes H n;
     Some (H\<lparr>hlist_nodes := (hlist_nodes H)(n \<mapsto> c\<lparr>pprev := v\<rparr>)\<rparr>)
   }"

text \<open>\<open>if (p) p->pprev = v\<close>.\<close>

definition st_pprev_if :: "ptr \<Rightarrow> hloc option \<Rightarrow> hheap \<Rightarrow> hheap option" where
  "st_pprev_if p v H = (case p of None \<Rightarrow> Some H | Some n \<Rightarrow> st_pprev n v H)"

definition INIT_HLIST_HEAD :: "addr \<Rightarrow> hheap \<Rightarrow> hheap option" where
  "INIT_HLIST_HEAD h H = st_loc (First h) None H"

definition INIT_HLIST_NODE :: "addr \<Rightarrow> hheap \<Rightarrow> hheap option" where
  "INIT_HLIST_NODE n H = do { H \<leftarrow> st_loc (Next n) None H; st_pprev n None H }"

definition hlist_unhashed :: "addr \<Rightarrow> hheap \<Rightarrow> bool option" where
  "hlist_unhashed n H = do { p \<leftarrow> ld_pprev n H; Some (p = None) }"

definition hlist_empty :: "addr \<Rightarrow> hheap \<Rightarrow> bool option" where
  "hlist_empty h H = do { p \<leftarrow> ld_loc (First h) H; Some (p = None) }"

definition hlist_del_links :: "addr \<Rightarrow> hheap \<Rightarrow> hheap option" where
  "hlist_del_links n H = do {
     next \<leftarrow> ld_loc (Next n) H;
     pp \<leftarrow> ld_pprev n H;
     l \<leftarrow> pp;
     H \<leftarrow> st_loc l next H;
     st_pprev_if next (Some l) H
   }"

definition hlist_del :: "addr \<Rightarrow> hheap \<Rightarrow> hheap option" where
  "hlist_del n H = do {
     H \<leftarrow> hlist_del_links n H;
     H \<leftarrow> st_loc (Next n) (Some LIST_POISON1) H;
     st_pprev n (Some (Wild LIST_POISON2)) H
   }"

definition hlist_del_init :: "addr \<Rightarrow> hheap \<Rightarrow> hheap option" where
  "hlist_del_init n H = do {
     u \<leftarrow> hlist_unhashed n H;
     if \<not> u then do { H \<leftarrow> hlist_del_links n H; INIT_HLIST_NODE n H } else Some H
   }"

definition hlist_add_head :: "addr \<Rightarrow> addr \<Rightarrow> hheap \<Rightarrow> hheap option" where
  "hlist_add_head n h H = do {
     first \<leftarrow> ld_loc (First h) H;
     H \<leftarrow> st_loc (Next n) first H;
     H \<leftarrow> st_pprev_if first (Some (Next n)) H;
     H \<leftarrow> st_loc (First h) (Some n) H;
     st_pprev n (Some (First h)) H
   }"

definition hlist_add_before :: "addr \<Rightarrow> addr \<Rightarrow> hheap \<Rightarrow> hheap option" where
  "hlist_add_before n next H = do {
     pp \<leftarrow> ld_pprev next H;
     H \<leftarrow> st_pprev n pp H;
     H \<leftarrow> st_loc (Next n) (Some next) H;
     H \<leftarrow> st_pprev next (Some (Next n)) H;
     pp \<leftarrow> ld_pprev n H;
     l \<leftarrow> pp;
     st_loc l (Some n) H
   }"

definition hlist_add_after :: "addr \<Rightarrow> addr \<Rightarrow> hheap \<Rightarrow> hheap option" where
  "hlist_add_after n next H = do {
     nn \<leftarrow> ld_loc (Next n) H;
     H \<leftarrow> st_loc (Next next) nn H;
     H \<leftarrow> st_loc (Next n) (Some next) H;
     H \<leftarrow> st_pprev next (Some (Next n)) H;
     nn \<leftarrow> ld_loc (Next next) H;
     st_pprev_if nn (Some (Next next)) H
   }"

definition hlist_add_fake :: "addr \<Rightarrow> hheap \<Rightarrow> hheap option" where
  "hlist_add_fake n H = st_pprev n (Some (Next n)) H"

definition hlist_move_list :: "addr \<Rightarrow> addr \<Rightarrow> hheap \<Rightarrow> hheap option" where
  "hlist_move_list old new H = do {
     first \<leftarrow> ld_loc (First old) H;
     H \<leftarrow> st_loc (First new) first H;
     nf \<leftarrow> ld_loc (First new) H;
     H \<leftarrow> st_pprev_if nf (Some (First new)) H;
     st_loc (First old) None H
   }"

text \<open>The loops. The body of \<open>hlist_for_each\<close> changes a state \<open>s\<close> but not the lists; the body of
  \<open>hlist_for_each_safe\<close> may change them, and the successor is read before it runs.\<close>

partial_function (option) hfor_each_from :: "(addr \<Rightarrow> 's \<Rightarrow> 's option) \<Rightarrow> hheap \<Rightarrow> ptr \<Rightarrow> 's \<Rightarrow> 's option" where
  "hfor_each_from f H pos s =
     (case pos of
        None \<Rightarrow> Some s
      | Some p \<Rightarrow> do { s \<leftarrow> f p s; n \<leftarrow> ld_loc (Next p) H; hfor_each_from f H n s })"

definition hlist_for_each :: "(addr \<Rightarrow> 's \<Rightarrow> 's option) \<Rightarrow> addr \<Rightarrow> hheap \<Rightarrow> 's \<Rightarrow> 's option" where
  "hlist_for_each f h H s = do { pos \<leftarrow> ld_loc (First h) H; hfor_each_from f H pos s }"

partial_function (option) hfor_each_safe_from :: "(addr \<Rightarrow> hheap \<Rightarrow> hheap option) \<Rightarrow> ptr \<Rightarrow> hheap \<Rightarrow> hheap option" where
  "hfor_each_safe_from f pos H =
     (case pos of
        None \<Rightarrow> Some H
      | Some p \<Rightarrow> do { n \<leftarrow> ld_loc (Next p) H; H \<leftarrow> f p H; hfor_each_safe_from f n H })"

definition hlist_for_each_safe :: "(addr \<Rightarrow> hheap \<Rightarrow> hheap option) \<Rightarrow> addr \<Rightarrow> hheap \<Rightarrow> hheap option" where
  "hlist_for_each_safe f h H = do { pos \<leftarrow> ld_loc (First h) H; hfor_each_safe_from f pos H }"

text \<open>The typed loops; a structure is given by its address as in \<open>List_Entry\<close>.\<close>

definition hlist_entry :: "addr \<Rightarrow> nat \<Rightarrow> int" where
  "hlist_entry p off = container_of p off"

definition hlist_entry_safe :: "ptr \<Rightarrow> nat \<Rightarrow> int option" where
  "hlist_entry_safe p off = (case p of Some p \<Rightarrow> Some (hlist_entry p off) | None \<Rightarrow> None)"

text \<open>\<open>hlist_entry_safe (pos->member.next, \<dots>)\<close>.\<close>

definition hentry_next :: "int \<Rightarrow> nat \<Rightarrow> hheap \<Rightarrow> int option option" where
  "hentry_next pos off H = do { n \<leftarrow> ld_loc (Next (member_of pos off)) H; Some (hlist_entry_safe n off) }"

partial_function (option) hlist_for_each_entry_from ::
  "(int \<Rightarrow> 's \<Rightarrow> 's option) \<Rightarrow> nat \<Rightarrow> hheap \<Rightarrow> int option \<Rightarrow> 's \<Rightarrow> 's option" where
  "hlist_for_each_entry_from f off H pos s =
     (case pos of
        None \<Rightarrow> Some s
      | Some p \<Rightarrow> do { s \<leftarrow> f p s; n \<leftarrow> hentry_next p off H; hlist_for_each_entry_from f off H n s })"

definition hlist_for_each_entry ::
  "(int \<Rightarrow> 's \<Rightarrow> 's option) \<Rightarrow> addr \<Rightarrow> nat \<Rightarrow> hheap \<Rightarrow> 's \<Rightarrow> 's option" where
  "hlist_for_each_entry f h off H s = do {
     p \<leftarrow> ld_loc (First h) H;
     hlist_for_each_entry_from f off H (hlist_entry_safe p off) s
   }"

definition hlist_for_each_entry_continue ::
  "(int \<Rightarrow> 's \<Rightarrow> 's option) \<Rightarrow> nat \<Rightarrow> hheap \<Rightarrow> int \<Rightarrow> 's \<Rightarrow> 's option" where
  "hlist_for_each_entry_continue f off H pos s = do {
     pos \<leftarrow> hentry_next pos off H;
     hlist_for_each_entry_from f off H pos s
   }"

partial_function (option) hentry_safe_from ::
  "(int \<Rightarrow> hheap \<Rightarrow> hheap option) \<Rightarrow> nat \<Rightarrow> int option \<Rightarrow> hheap \<Rightarrow> hheap option" where
  "hentry_safe_from f off pos H =
     (case pos of
        None \<Rightarrow> Some H
      | Some p \<Rightarrow> do {
          n \<leftarrow> ld_loc (Next (member_of p off)) H;
          H \<leftarrow> f p H;
          hentry_safe_from f off (hlist_entry_safe n off) H
        })"

definition hlist_for_each_entry_safe ::
  "(int \<Rightarrow> hheap \<Rightarrow> hheap option) \<Rightarrow> addr \<Rightarrow> nat \<Rightarrow> hheap \<Rightarrow> hheap option" where
  "hlist_for_each_entry_safe f h off H = do {
     p \<leftarrow> ld_loc (First h) H;
     hentry_safe_from f off (hlist_entry_safe p off) H
   }"

declare hfor_each_from.simps [code] hfor_each_safe_from.simps [code] hlist_for_each_entry_from.simps [code]
  hentry_safe_from.simps [code]

section \<open>Loads and stores\<close>

text \<open>Stores as total functions.\<close>

fun up_loc :: "hloc \<Rightarrow> ptr \<Rightarrow> hheap \<Rightarrow> hheap" where
  "up_loc (First h) v H = H\<lparr>hlist_heads := (hlist_heads H)(h := map_option (\<lambda>_. v) (hlist_heads H h))\<rparr>"
| "up_loc (Next n) v H = H\<lparr>hlist_nodes := (hlist_nodes H)(n := map_option (\<lambda>c. c\<lparr>hnext := v\<rparr>) (hlist_nodes H n))\<rparr>"
| "up_loc (Wild a) v H = H"

definition up_pprev :: "addr \<Rightarrow> hloc option \<Rightarrow> hheap \<Rightarrow> hheap" where
  "up_pprev n v H = H\<lparr>hlist_nodes := (hlist_nodes H)(n := map_option (\<lambda>c. c\<lparr>pprev := v\<rparr>) (hlist_nodes H n))\<rparr>"

definition up_pprev_if :: "ptr \<Rightarrow> hloc option \<Rightarrow> hheap \<Rightarrow> hheap" where
  "up_pprev_if p v H = (case p of None \<Rightarrow> H | Some n \<Rightarrow> up_pprev n v H)"

text \<open>The places and the nodes that exist.\<close>

definition loc_ok :: "hheap \<Rightarrow> hloc \<Rightarrow> bool" where
  "loc_ok H l \<longleftrightarrow> ld_loc l H \<noteq> None"

definition ptr_ok :: "hheap \<Rightarrow> ptr \<Rightarrow> bool" where
  "ptr_ok H p \<longleftrightarrow> (\<forall>n. p = Some n \<longrightarrow> loc_ok H (Next n))"

lemma loc_ok_simps: "loc_ok H (First h) \<longleftrightarrow> h \<in> dom (hlist_heads H)" "loc_ok H (Next n) \<longleftrightarrow> n \<in> dom (hlist_nodes H)"
  by (auto simp: loc_ok_def)

lemma loc_okI: "ld_loc l H = Some v \<Longrightarrow> loc_ok H l" "ld_pprev n H = Some w \<Longrightarrow> loc_ok H (Next n)"
  by (auto simp: loc_ok_def ld_pprev_def)

lemma loc_ok_up [heap_simps]:
  "loc_ok (up_loc l v H) m = loc_ok H m" "loc_ok (up_pprev n w H) m = loc_ok H m" "loc_ok (up_pprev_if p w H) m = loc_ok H m"
proof -
  have P: "loc_ok (up_pprev n w H) m = loc_ok H m" for n by (cases m) (auto simp: loc_ok_def up_pprev_def)
  show "loc_ok (up_loc l v H) m = loc_ok H m" by (cases l; cases m) (auto simp: loc_ok_def)
  show "loc_ok (up_pprev n w H) m = loc_ok H m" by (rule P)
  show "loc_ok (up_pprev_if p w H) m = loc_ok H m" by (cases p) (simp_all add: up_pprev_if_def P)
qed

lemma st_ok [heap_simps]:
  "loc_ok H l \<Longrightarrow> st_loc l v H = Some (up_loc l v H)"
  "loc_ok H (Next n) \<Longrightarrow> st_pprev n w H = Some (up_pprev n w H)"
  "ptr_ok H p \<Longrightarrow> st_pprev_if p w H = Some (up_pprev_if p w H)"
proof -
  have P: "loc_ok H (Next n) \<Longrightarrow> st_pprev n w H = Some (up_pprev n w H)" for n
    by (auto simp: loc_ok_def st_pprev_def up_pprev_def)
  show "loc_ok H l \<Longrightarrow> st_loc l v H = Some (up_loc l v H)" by (cases l) (auto simp: loc_ok_def)
  show "loc_ok H (Next n) \<Longrightarrow> st_pprev n w H = Some (up_pprev n w H)" by (rule P)
  show "ptr_ok H p \<Longrightarrow> st_pprev_if p w H = Some (up_pprev_if p w H)"
    by (cases p) (simp_all add: P ptr_ok_def st_pprev_if_def up_pprev_if_def)
qed

lemma hld_up [heap_simps]:
  "loc_ok H l \<Longrightarrow> ld_loc m (up_loc l v H) = (if m = l then Some v else ld_loc m H)"
  "ld_loc m (up_pprev n w H) = ld_loc m H"
  "ld_loc m (up_pprev_if p w H) = ld_loc m H"
  "ld_pprev x (up_loc l v H) = ld_pprev x H"
  "loc_ok H (Next n) \<Longrightarrow> ld_pprev x (up_pprev n w H) = (if x = n then Some w else ld_pprev x H)"
  "ptr_ok H p \<Longrightarrow> ld_pprev x (up_pprev_if p w H) = (if p = Some x then Some w else ld_pprev x H)"
proof -
  have A: "ld_loc m (up_pprev n w H) = ld_loc m H" for n
    by (cases m) (simp_all add: up_pprev_def option.map_comp comp_def)
  have B: "loc_ok H (Next n) \<Longrightarrow> ld_pprev x (up_pprev n w H) = (if x = n then Some w else ld_pprev x H)" for n
    by (auto simp: loc_ok_def ld_pprev_def up_pprev_def)
  show "loc_ok H l \<Longrightarrow> ld_loc m (up_loc l v H) = (if m = l then Some v else ld_loc m H)"
    by (cases l; cases m) (auto simp: loc_ok_def)
  show "ld_loc m (up_pprev n w H) = ld_loc m H" by (rule A)
  show "ld_loc m (up_pprev_if p w H) = ld_loc m H" by (cases p) (simp_all add: up_pprev_if_def A)
  show "ld_pprev x (up_loc l v H) = ld_pprev x H" by (cases l) (simp_all add: ld_pprev_def option.map_comp comp_def)
  show "loc_ok H (Next n) \<Longrightarrow> ld_pprev x (up_pprev n w H) = (if x = n then Some w else ld_pprev x H)" by (rule B)
  show "ptr_ok H p \<Longrightarrow> ld_pprev x (up_pprev_if p w H) = (if p = Some x then Some w else ld_pprev x H)"
    by (cases p) (auto simp: up_pprev_if_def ptr_ok_def B)
qed

lemma ptr_ok_up [heap_simps]:
  "ptr_ok (up_loc l v H) p = ptr_ok H p" "ptr_ok (up_pprev n w H) p = ptr_ok H p" "ptr_ok (up_pprev_if q w H) p = ptr_ok H p"
  by (simp_all add: ptr_ok_def loc_ok_up)

declare ld_loc.simps [simp del] st_loc.simps [simp del] up_loc.simps [simp del]

section \<open>Representation\<close>

text \<open>The place after the nodes \<open>xs\<close>, the pointer to the first of them, the links from the place \<open>l\<close>
  through them, and the rest of a list from \<open>l\<close> on.\<close>

fun hend :: "hloc \<Rightarrow> addr list \<Rightarrow> hloc" where
  "hend l [] = l"
| "hend l (x # xs) = hend (Next x) xs"

fun hd_ptr :: "addr list \<Rightarrow> ptr" where
  "hd_ptr [] = None"
| "hd_ptr (x # xs) = Some x"

fun hlinks :: "hheap \<Rightarrow> hloc \<Rightarrow> addr list \<Rightarrow> bool" where
  "hlinks H l [] = True"
| "hlinks H l (x # xs) = (ld_loc l H = Some (Some x) \<and> ld_pprev x H = Some (Some l) \<and> hlinks H (Next x) xs)"

definition hrest :: "hheap \<Rightarrow> hloc \<Rightarrow> addr list \<Rightarrow> bool" where
  "hrest H l xs \<longleftrightarrow> hlinks H l xs \<and> ld_loc (hend l xs) H = Some None"

definition hlist :: "hheap \<Rightarrow> addr \<Rightarrow> addr list \<Rightarrow> bool" where
  "hlist H h xs \<longleftrightarrow> distinct xs \<and> hrest H (First h) xs"

definition cells :: "addr \<Rightarrow> addr list \<Rightarrow> hloc set" where
  "cells h xs = insert (First h) (Next ` set xs)"

text \<open>Only the places in \<open>S\<close>, and the \<open>pprev\<close> of the nodes whose \<open>next\<close> is in \<open>S\<close>, may differ.\<close>

definition hkeeps :: "hloc set \<Rightarrow> hheap \<Rightarrow> hheap \<Rightarrow> bool" where
  "hkeeps S H H' \<longleftrightarrow> (\<forall>l. loc_ok H' l = loc_ok H l) \<and> (\<forall>l. l \<notin> S \<longrightarrow> ld_loc l H' = ld_loc l H) \<and>
     (\<forall>n. Next n \<notin> S \<longrightarrow> ld_pprev n H' = ld_pprev n H)"

lemma hend_append [simp]: "hend l (xs @ ys) = hend (hend l xs) ys"
  by (induction xs arbitrary: l) auto

lemma hlinks_append: "hlinks H l (xs @ ys) \<longleftrightarrow> hlinks H l xs \<and> hlinks H (hend l xs) ys"
  by (induction xs arbitrary: l) auto

lemma hrest_append: "hrest H l (xs @ ys) \<longleftrightarrow> hlinks H l xs \<and> hrest H (hend l xs) ys"
  by (auto simp: hrest_def hlinks_append)

lemma hrest_simps: "hrest H l [] \<longleftrightarrow> ld_loc l H = Some None"
  "hrest H l (x # xs) \<longleftrightarrow> ld_loc l H = Some (Some x) \<and> ld_pprev x H = Some (Some l) \<and> hrest H (Next x) xs"
  by (auto simp: hrest_def)

lemma hend_in: "hend l xs \<in> insert l (Next ` set xs)"
  by (induction xs arbitrary: l) auto

lemma hend_cells: "hend (First h) xs \<in> cells h xs"
  using hend_in unfolding cells_def .

lemma hrest_hd: "hrest H l xs \<Longrightarrow> ld_loc l H = Some (hd_ptr xs)"
  by (cases xs) (simp_all add: hrest_simps)

lemma hrest_ok: "hrest H l xs \<Longrightarrow> loc_ok H l \<and> (\<forall>x\<in>set xs. loc_ok H (Next x)) \<and> ptr_ok H (hd_ptr xs)"
  by (induction xs arbitrary: l) (auto simp: hrest_simps ptr_ok_def dest: loc_okI)

text \<open>The links before the place that a store changes.\<close>

lemma hlinks_keep:
  assumes "hlinks H l xs" and "distinct xs" and "l \<notin> Next ` set xs"
    and "\<And>m. m \<in> insert l (Next ` set xs) \<Longrightarrow> m \<noteq> hend l xs \<Longrightarrow> ld_loc m H' = ld_loc m H"
    and "\<And>x. x \<in> set xs \<Longrightarrow> ld_pprev x H' = ld_pprev x H"
  shows "hlinks H' l xs"
  using assms
proof (induction xs arbitrary: l)
  case (Cons x xs)
  have ne: "l \<noteq> hend (Next x) xs" using hend_in [of "Next x" xs] Cons.prems(3) by auto
  have "hlinks H' (Next x) xs"
    by (rule Cons.IH) (use Cons.prems in auto)
  then show ?case using Cons.prems(1,5) Cons.prems(4) [of l] ne by simp
qed simp

text \<open>The rest of a list is taken over by another place.\<close>

lemma hrest_relink:
  assumes "hrest H l xs" and "distinct xs" and "ld_loc l' H' = Some (hd_ptr xs)"
    and "\<And>x. x \<in> set xs \<Longrightarrow> ld_loc (Next x) H' = ld_loc (Next x) H"
    and "\<And>x. x \<in> set xs \<Longrightarrow> ld_pprev x H' = (if hd_ptr xs = Some x then Some (Some l') else ld_pprev x H)"
  shows "hrest H' l' xs"
proof (cases xs)
  case Nil
  then show ?thesis using assms(3) by (simp add: hrest_simps)
next
  case (Cons x ys)
  have "hlinks H (Next x) ys" "ld_loc (hend (Next x) ys) H = Some None"
    using assms(1) by (simp_all add: Cons hrest_simps hrest_def)
  moreover have "hlinks H' (Next x) ys"
    by (rule hlinks_keep [OF \<open>hlinks H (Next x) ys\<close>]) (use assms(2,4,5) Cons in auto)
  moreover have "ld_loc (hend (Next x) ys) H' = ld_loc (hend (Next x) ys) H"
    using hend_in [of "Next x" ys] assms(4) Cons by auto
  ultimately show ?thesis using assms(3,5) Cons by (simp add: hrest_simps hrest_def)
qed

lemma hlist_hd: "hlist H h xs \<Longrightarrow> ld_loc (First h) H = Some (hd_ptr xs)"
  by (simp add: hlist_def hrest_hd)

lemma hlist_ok: "hlist H h xs \<Longrightarrow> loc_ok H (First h) \<and> (\<forall>x\<in>set xs. loc_ok H (Next x)) \<and> ptr_ok H (hd_ptr xs)"
  unfolding hlist_def using hrest_ok by blast

lemma hlist_split:
  assumes "hlist H h (xs @ ys)"
  shows "distinct xs" "distinct ys" "set xs \<inter> set ys = {}" "hlinks H (First h) xs" "hrest H (hend (First h) xs) ys"
    "hend (First h) xs \<notin> Next ` set ys"
  using assms hend_cells [of h xs] by (auto simp: hlist_def hrest_append cells_def)

lemma hlist_node:
  assumes "hlist H h (xs @ e # ys)"
  shows "ld_pprev e H = Some (Some (hend (First h) xs))" "ld_loc (Next e) H = Some (hd_ptr ys)" "hrest H (Next e) ys"
  using hlist_split(5) [OF assms] by (auto simp: hrest_simps intro: hrest_hd)

lemma hlist_joinI:
  assumes "hlinks H (First h) xs" and "hrest H (hend (First h) xs) ys" and "distinct (xs @ ys)"
  shows "hlist H h (xs @ ys)"
  using assms by (simp add: hlist_def hrest_append)

lemma hd_ptr_pprev: "hrest H l xs \<Longrightarrow> hd_ptr xs = Some x \<Longrightarrow> ld_pprev x H = Some (Some l)"
  by (cases xs) (auto simp: hrest_simps)

lemma hlist_keeps:
  assumes "hlist H h xs" and "hkeeps S H H'" and "S \<inter> cells h xs = {}"
  shows "hlist H' h xs"
proof -
  have r: "hrest H (First h) xs" "distinct xs" using assms(1) by (simp_all add: hlist_def)
  have L: "ld_loc m H' = ld_loc m H" if "m \<in> cells h xs" for m using assms(2,3) that by (auto simp: hkeeps_def)
  have P: "ld_pprev x H' = ld_pprev x H" if "x \<in> set xs" for x
    using assms(2,3) that by (auto simp: hkeeps_def cells_def)
  have "hrest H' (First h) xs"
  proof (rule hrest_relink [OF r])
    show "ld_loc (First h) H' = Some (hd_ptr xs)" using L [of "First h"] hrest_hd [OF r(1)] by (simp add: cells_def)
    show "ld_loc (Next x) H' = ld_loc (Next x) H" if "x \<in> set xs" for x using L [of "Next x"] that by (simp add: cells_def)
    show "ld_pprev x H' = (if hd_ptr xs = Some x then Some (Some (First h)) else ld_pprev x H)" if "x \<in> set xs" for x
      using P [OF that] hd_ptr_pprev [OF r(1)] by simp
  qed
  then show ?thesis using r(2) by (simp add: hlist_def)
qed

section \<open>The operations on one list\<close>

lemma hkeepsI:
  assumes "\<And>l. loc_ok H' l = loc_ok H l" and "\<And>l. l \<notin> S \<Longrightarrow> ld_loc l H' = ld_loc l H"
    and "\<And>n. Next n \<notin> S \<Longrightarrow> ld_pprev n H' = ld_pprev n H"
  shows "hkeeps S H H'"
  using assms by (simp add: hkeeps_def)

lemma hkeeps_trans: "hkeeps S H H' \<Longrightarrow> hkeeps S' H' H'' \<Longrightarrow> S' \<subseteq> S \<Longrightarrow> hkeeps S H H''"
  unfolding hkeeps_def by (metis subsetD)

lemma hd_ptr_in: "hd_ptr xs = Some x \<Longrightarrow> x \<in> set xs"
  by (cases xs) auto

text \<open>Unlinking a node.\<close>

lemma del_links_hlist:
  assumes "hlist H h (xs @ e # ys)"
  shows "\<exists>H'. hlist_del_links e H = Some H' \<and> hlist H' h (xs @ ys) \<and> hkeeps (cells h (xs @ e # ys)) H H'"
proof -
  define l where "l = hend (First h) xs"
  note sp = hlist_split [OF assms, folded l_def]
  note n = hlist_node [OF assms, folded l_def]
  have dis: "distinct ys" "e \<notin> set xs" "e \<notin> set ys" using sp by auto
  have l: "l \<in> cells h xs" unfolding l_def by (rule hend_cells)
  have ok: "loc_ok H l" "ptr_ok H (hd_ptr ys)" using sp(5) hrest_ok n(3) by blast+
  define H' where "H' = up_pprev_if (hd_ptr ys) (Some l) (up_loc l (hd_ptr ys) H)"
  have run: "hlist_del_links e H = Some H'" using n ok by (simp add: hlist_del_links_def H'_def heap_simps)
  have K: "loc_ok H' m = loc_ok H m" for m by (simp add: H'_def heap_simps)
  have L: "ld_loc m H' = (if m = l then Some (hd_ptr ys) else ld_loc m H)" for m
    using ok by (simp add: H'_def heap_simps)
  have P: "ld_pprev x H' = (if hd_ptr ys = Some x then Some (Some l) else ld_pprev x H)" for x
    using ok by (simp add: H'_def heap_simps)
  have hy: "hd_ptr ys \<noteq> Some x" if "x \<in> set xs" for x using sp(3) that hd_ptr_in [of ys x] by auto
  have "hlinks H' (First h) xs"
    by (rule hlinks_keep [OF sp(4,1)]) (use hy in \<open>auto simp: L P l_def\<close>)
  moreover have "hrest H' l ys"
    by (rule hrest_relink [OF n(3) dis(1)]) (use sp(6) in \<open>auto simp: L P\<close>)
  ultimately have "hlist H' h (xs @ ys)" using sp(1-3) unfolding l_def by (intro hlist_joinI) auto
  moreover have "hkeeps (cells h (xs @ e # ys)) H H'"
    by (rule hkeepsI) (use l in \<open>auto simp: K L P cells_def dest: hd_ptr_in\<close>)
  ultimately show ?thesis using run by blast
qed

lemma add_head_hlist:
  assumes "hlist H h xs" and "loc_ok H (Next n)" and "n \<notin> set xs"
  shows "\<exists>H'. hlist_add_head n h H = Some H' \<and> hlist H' h (n # xs) \<and> hkeeps (cells h (n # xs)) H H'"
proof -
  note ok = hlist_ok [OF assms(1)] and f = hlist_hd [OF assms(1)]
  define H' where "H' = up_pprev n (Some (First h)) (up_loc (First h) (Some n)
    (up_pprev_if (hd_ptr xs) (Some (Next n)) (up_loc (Next n) (hd_ptr xs) H)))"
  have run: "hlist_add_head n h H = Some H'" using f ok assms(2) by (simp add: hlist_add_head_def H'_def heap_simps)
  have K: "loc_ok H' m = loc_ok H m" for m by (simp add: H'_def heap_simps)
  have L: "ld_loc m H' = (if m = First h then Some (Some n) else if m = Next n then Some (hd_ptr xs) else ld_loc m H)" for m
    using ok assms(2) by (simp add: H'_def heap_simps)
  have P: "ld_pprev x H' = (if x = n then Some (Some (First h)) else if hd_ptr xs = Some x then Some (Some (Next n))
    else ld_pprev x H)" for x
    using ok assms(2) by (simp add: H'_def heap_simps)
  have "hrest H (First h) xs" "distinct xs" using assms(1) by (simp_all add: hlist_def)
  then have "hrest H' (Next n) xs"
    by (rule hrest_relink) (use assms(3) in \<open>auto simp: L P\<close>)
  then have "hlist H' h (n # xs)" using assms(1,3) by (simp add: hlist_def hrest_simps L P)
  moreover have "hkeeps (cells h (n # xs)) H H'"
    by (rule hkeepsI) (auto simp: K L P cells_def dest: hd_ptr_in)
  ultimately show ?thesis using run by blast
qed

lemma add_before_hlist:
  assumes "hlist H h (xs @ e # ys)" and "loc_ok H (Next n)" and "n \<notin> set (xs @ e # ys)"
  shows "\<exists>H'. hlist_add_before n e H = Some H' \<and> hlist H' h (xs @ n # e # ys) \<and>
    hkeeps (cells h (xs @ n # e # ys)) H H'"
proof -
  define l where "l = hend (First h) xs"
  note sp = hlist_split [OF assms(1), folded l_def]
  note nd = hlist_node [OF assms(1), folded l_def]
  have l: "l \<in> cells h xs" unfolding l_def by (rule hend_cells)
  have ok: "loc_ok H l" "loc_ok H (Next e)" using sp(5) hrest_ok by (blast, auto dest: hrest_ok)
  have ne: "e \<noteq> n" "l \<noteq> Next n" "l \<noteq> Next e" using assms(3) l sp(6) by (auto simp: cells_def)
  define H' where "H' = up_loc l (Some n) (up_pprev e (Some (Next n)) (up_loc (Next n) (Some e) (up_pprev n (Some l) H)))"
  have run: "hlist_add_before n e H = Some H'"
    using nd(1) ok assms(2) ne by (simp add: hlist_add_before_def H'_def heap_simps)
  have K: "loc_ok H' m = loc_ok H m" for m by (simp add: H'_def heap_simps)
  have L: "ld_loc m H' = (if m = l then Some (Some n) else if m = Next n then Some (Some e) else ld_loc m H)" for m
    using ok assms(2) by (simp add: H'_def heap_simps)
  have P: "ld_pprev x H' = (if x = e then Some (Some (Next n)) else if x = n then Some (Some l) else ld_pprev x H)" for x
    using ok assms(2) by (simp add: H'_def heap_simps)
  have "hlinks H' (First h) xs"
    by (rule hlinks_keep [OF sp(4,1)]) (use assms(3) sp(3) in \<open>auto simp: L P l_def\<close>)
  moreover have "hrest H' (Next n) (e # ys)"
    by (rule hrest_relink [OF sp(5,2)]) (use assms(3) sp(6) ne in \<open>auto simp: L P\<close>)
  then have "hrest H' l (n # e # ys)" using ne by (simp add: hrest_simps L P)
  ultimately have "hlist H' h (xs @ n # e # ys)"
    using sp(1-3) assms(3) unfolding l_def by (intro hlist_joinI) auto
  moreover have "hkeeps (cells h (xs @ n # e # ys)) H H'"
    by (rule hkeepsI) (use l in \<open>auto simp: K L P cells_def\<close>)
  ultimately show ?thesis using run by blast
qed

lemma add_after_hlist:
  assumes "hlist H h (xs @ e # ys)" and "loc_ok H (Next n)" and "n \<notin> set (xs @ e # ys)"
  shows "\<exists>H'. hlist_add_after e n H = Some H' \<and> hlist H' h (xs @ e # n # ys) \<and>
    hkeeps (cells h (xs @ e # n # ys)) H H'"
proof -
  define l where "l = hend (First h) xs"
  note sp = hlist_split [OF assms(1), folded l_def]
  note nd = hlist_node [OF assms(1), folded l_def]
  have l: "l \<in> cells h xs" unfolding l_def by (rule hend_cells)
  have ok: "loc_ok H (Next e)" "ptr_ok H (hd_ptr ys)" using sp(5) hrest_ok nd(3) by (auto dest: hrest_ok)
  have ne: "e \<noteq> n" "l \<noteq> Next n" "l \<noteq> Next e" using assms(3) l sp(6) by (auto simp: cells_def)
  define H' where "H' = up_pprev_if (hd_ptr ys) (Some (Next n)) (up_pprev n (Some (Next e))
    (up_loc (Next e) (Some n) (up_loc (Next n) (hd_ptr ys) H)))"
  have run: "hlist_add_after e n H = Some H'"
    using nd(2) ok assms(2) ne by (simp add: hlist_add_after_def H'_def heap_simps)
  have K: "loc_ok H' m = loc_ok H m" for m by (simp add: H'_def heap_simps)
  have L: "ld_loc m H' = (if m = Next e then Some (Some n) else if m = Next n then Some (hd_ptr ys) else ld_loc m H)" for m
    using ok assms(2) by (simp add: H'_def heap_simps)
  have P: "ld_pprev x H' = (if hd_ptr ys = Some x then Some (Some (Next n)) else if x = n then Some (Some (Next e))
    else ld_pprev x H)" for x
    using ok assms(2) by (simp add: H'_def heap_simps)
  have hy: "hd_ptr ys \<noteq> Some x" if "x \<in> insert n (insert e (set xs))" for x
    using sp(2,3) assms(3) that hd_ptr_in [of ys x] by auto
  have "hlinks H' (First h) xs"
    by (rule hlinks_keep [OF sp(4,1)]) (use assms(3) sp(3) hy in \<open>auto simp: L P\<close>)
  moreover have "hrest H' (Next n) ys"
    by (rule hrest_relink [OF nd(3)]) (use assms(3) sp(2) in \<open>auto simp: L P\<close>)
  moreover have "ld_loc l H' = Some (Some e)" "ld_pprev e H' = Some (Some l)"
    using sp(5) ne hy by (auto simp: L P hrest_simps)
  ultimately have "hlist H' h (xs @ e # n # ys)"
    using sp(1-3) assms(3) ne hy unfolding l_def by (intro hlist_joinI) (auto simp: hrest_simps L P)
  moreover have "hkeeps (cells h (xs @ e # n # ys)) H H'"
    by (rule hkeepsI) (auto simp: K L P cells_def dest: hd_ptr_in)
  ultimately show ?thesis using run by blast
qed

lemma move_hlist:
  assumes "hlist H old xs" and "loc_ok H (First new)" and "old \<noteq> new"
  shows "\<exists>H'. hlist_move_list old new H = Some H' \<and> hlist H' new xs \<and> hlist H' old [] \<and>
    hkeeps (cells old xs \<union> {First new}) H H'"
proof -
  note ok = hlist_ok [OF assms(1)] and f = hlist_hd [OF assms(1)]
  define H' where "H' = up_loc (First old) None (up_pprev_if (hd_ptr xs) (Some (First new)) (up_loc (First new) (hd_ptr xs) H))"
  have run: "hlist_move_list old new H = Some H'" using f ok assms(2) by (simp add: hlist_move_list_def H'_def heap_simps)
  have K: "loc_ok H' m = loc_ok H m" for m by (simp add: H'_def heap_simps)
  have L: "ld_loc m H' = (if m = First old then Some None else if m = First new then Some (hd_ptr xs) else ld_loc m H)" for m
    using ok assms(2) by (simp add: H'_def heap_simps)
  have P: "ld_pprev x H' = (if hd_ptr xs = Some x then Some (Some (First new)) else ld_pprev x H)" for x
    using ok assms(2) by (simp add: H'_def heap_simps)
  have "hrest H (First old) xs" and d: "distinct xs" using assms(1) by (simp_all add: hlist_def)
  then have "hrest H' (First new) xs"
    by (rule hrest_relink) (use assms(3) in \<open>auto simp: L P\<close>)
  then have "hlist H' new xs" "hlist H' old []" using d by (simp_all add: hlist_def hrest_simps L)
  moreover have "hkeeps (cells old xs \<union> {First new}) H H'"
    by (rule hkeepsI) (auto simp: K L P cells_def dest: hd_ptr_in)
  ultimately show ?thesis using run by blast
qed

section \<open>Families of lists\<close>

type_synonym hlists = "addr \<rightharpoonup> addr list"

text \<open>The lists by their heads, the unhashed nodes, and the nodes that pretend to be on a list.\<close>

record hspec =
  listed_at :: hlists
  unhashed :: "addr set"
  faked :: "addr set"

definition on_list :: "hlists \<Rightarrow> addr set" where
  "on_list L = {n. \<exists>h xs. L h = Some xs \<and> n \<in> set xs}"

definition hdisjoint :: "hlists \<Rightarrow> bool" where
  "hdisjoint L \<longleftrightarrow> (\<forall>h h' xs ys. L h = Some xs \<and> L h' = Some ys \<and> h \<noteq> h' \<longrightarrow> set xs \<inter> set ys = {})"

definition hlists_rep :: "hheap \<Rightarrow> hspec \<Rightarrow> bool" where
  "hlists_rep H A \<longleftrightarrow> (\<forall>h xs. listed_at A h = Some xs \<longrightarrow> hlist H h xs) \<and> hdisjoint (listed_at A) \<and>
     (\<forall>n\<in>unhashed A. ld_loc (Next n) H = Some None \<and> ld_pprev n H = Some None) \<and>
     (\<forall>n\<in>faked A. ld_loc (Next n) H = Some None \<and> ld_pprev n H = Some (Some (Next n)))"

lemma rep_hlist: "hlists_rep H A \<Longrightarrow> listed_at A h = Some xs \<Longrightarrow> hlist H h xs"
  by (simp add: hlists_rep_def)

lemma hrep_disjoint: "hlists_rep H A \<Longrightarrow> hdisjoint (listed_at A)"
  by (simp add: hlists_rep_def)

lemma hdisjointD: "hdisjoint L \<Longrightarrow> L h = Some xs \<Longrightarrow> L h' = Some ys \<Longrightarrow> h \<noteq> h' \<Longrightarrow> set xs \<inter> set ys = {}"
  unfolding hdisjoint_def by blast

lemma on_listI: "L h = Some xs \<Longrightarrow> n \<in> set xs \<Longrightarrow> n \<in> on_list L"
  by (auto simp: on_list_def)

lemma on_listE:
  assumes "n \<in> on_list L"
  obtains h xs ys where "L h = Some (xs @ n # ys)"
proof -
  obtain h zs where z: "L h = Some zs" "n \<in> set zs" using assms unfolding on_list_def by blast
  obtain xs ys where "zs = xs @ n # ys" using split_list [OF z(2)] by blast
  then show ?thesis using that z(1) by simp
qed

lemma listed_pprev: "hlists_rep H A \<Longrightarrow> n \<in> on_list (listed_at A) \<Longrightarrow> \<exists>l. ld_pprev n H = Some (Some l) \<and> l \<noteq> Next n"
proof (erule on_listE)
  fix h xs ys assume r: "hlists_rep H A" and l: "listed_at A h = Some (xs @ n # ys)"
  note h = rep_hlist [OF r l]
  have "hend (First h) xs \<noteq> Next n" using hlist_split(6) [OF h] by auto
  then show "\<exists>l. ld_pprev n H = Some (Some l) \<and> l \<noteq> Next n" using hlist_node(1) [OF h] by blast
qed

lemma unlisted: "hlists_rep H A \<Longrightarrow> n \<in> unhashed A \<union> faked A \<Longrightarrow> n \<notin> on_list (listed_at A)"
  using listed_pprev [of H A n] by (auto simp: hlists_rep_def)

text \<open>Every list is either built anew or keeps its cells.\<close>

lemma hrep_change:
  assumes "hlists_rep H A" and "hkeeps S H H'" and "hdisjoint (listed_at A')"
    and "\<And>k zs. listed_at A' k = Some zs \<Longrightarrow> hlist H' k zs \<or> listed_at A k = Some zs \<and> S \<inter> cells k zs = {}"
    and "unhashed A' \<subseteq> unhashed A" "faked A' \<subseteq> faked A" "S \<inter> Next ` (unhashed A' \<union> faked A') = {}"
  shows "hlists_rep H' A'"
  unfolding hlists_rep_def
proof (intro conjI allI impI ballI assms(3))
  show "hlist H' h xs" if "listed_at A' h = Some xs" for h xs
    using assms(4) [OF that] hlist_keeps [OF rep_hlist [OF assms(1)] assms(2)] by blast
next
  fix n assume n: "n \<in> unhashed A'"
  then have "Next n \<notin> S" "n \<in> unhashed A" using assms(5,7) by auto
  then show "ld_loc (Next n) H' = Some None" "ld_pprev n H' = Some None"
    using assms(1,2) by (simp_all add: hlists_rep_def hkeeps_def)
next
  fix n assume n: "n \<in> faked A'"
  then have "Next n \<notin> S" "n \<in> faked A" using assms(6,7) by auto
  then show "ld_loc (Next n) H' = Some None" "ld_pprev n H' = Some (Some (Next n))"
    using assms(1,2) by (simp_all add: hlists_rep_def hkeeps_def)
qed

text \<open>A change of one list that uses nodes of no other list.\<close>

lemma hrep_change_list:
  assumes "hlists_rep H A" and "listed_at A h = Some xs" and "hlist H' h zs" and "hkeeps (cells h ws) H H'"
    and "set zs \<subseteq> set ws" "set ws \<subseteq> set xs \<union> W" "W \<inter> on_list (listed_at A) = {}"
  shows "hlists_rep H' (A\<lparr>listed_at := (listed_at A)(h \<mapsto> zs), unhashed := unhashed A - W, faked := faked A - W\<rparr>)"
proof -
  have o: "set ws \<inter> set ys = {}" if "listed_at A k = Some ys" "k \<noteq> h" for k ys
  proof -
    have "set xs \<inter> set ys = {}" by (rule hdisjointD [OF hrep_disjoint [OF assms(1)] assms(2) that(1)]) (use that(2) in simp)
    then show ?thesis using assms(6,7) that on_listI [of "listed_at A" k ys] by blast
  qed
  have u: "set xs \<inter> (unhashed A \<union> faked A) = {}" using unlisted [OF assms(1)] on_listI [of "listed_at A", OF assms(2)] by blast
  let ?A = "A\<lparr>listed_at := (listed_at A)(h \<mapsto> zs), unhashed := unhashed A - W, faked := faked A - W\<rparr>"
  have z: "set zs \<inter> set ys = {}" if "listed_at A k = Some ys" "k \<noteq> h" for k ys using o [OF that] assms(5) by blast
  have c: "cells h ws \<inter> cells k ys = {}" if "listed_at A k = Some ys" "k \<noteq> h" for k ys
    using o [OF that] that(2) by (auto simp: cells_def)
  show ?thesis
  proof (rule hrep_change [OF assms(1,4)])
    show "hdisjoint (listed_at ?A)" unfolding hdisjoint_def
    proof (intro allI impI, elim conjE)
      fix k k' xs' ys' assume k: "listed_at ?A k = Some xs'" "listed_at ?A k' = Some ys'" "k \<noteq> k'"
      show "set xs' \<inter> set ys' = {}"
        using k z [of k'] z [of k] hdisjointD [OF hrep_disjoint [OF assms(1)], of k xs' k' ys']
        by (cases "k = h"; cases "k' = h") auto
    qed
    show "hlist H' k ys \<or> listed_at A k = Some ys \<and> cells h ws \<inter> cells k ys = {}" if "listed_at ?A k = Some ys" for k ys
      using that assms(3) c [of k ys] by (cases "k = h") auto
    show "cells h ws \<inter> Next ` (unhashed ?A \<union> faked ?A) = {}"
      using u assms(6) by (auto simp: cells_def)
  qed auto
qed

text \<open>A change of a node that is on no list.\<close>

lemma hrep_change_node:
  assumes "hlists_rep H A" and "hkeeps {Next n} H H'" and "n \<notin> on_list (listed_at A)"
  shows "hlists_rep H' (A\<lparr>unhashed := unhashed A - {n}, faked := faked A - {n}\<rparr>)"
proof (rule hrep_change [OF assms(1,2)])
  show "hlist H' k zs \<or> listed_at A k = Some zs \<and> {Next n} \<inter> cells k zs = {}"
    if "listed_at (A\<lparr>unhashed := unhashed A - {n}, faked := faked A - {n}\<rparr>) k = Some zs" for k zs
    using that assms(3) on_listI [of "listed_at A" k zs n] by (auto simp: cells_def)
qed (use assms(1) in \<open>auto simp: hlists_rep_def\<close>)

section \<open>Specification\<close>

datatype hlist_op = HInit addr | HInitNode addr | HAddHead addr addr | HAddBefore addr addr
  | HAddAfter addr addr | HAddFake addr | HDel addr | HDelInit addr | HMove addr addr

fun hlist_op_run :: "hlist_op \<Rightarrow> hheap \<Rightarrow> hheap option" where
  "hlist_op_run (HInit h) = INIT_HLIST_HEAD h"
| "hlist_op_run (HInitNode n) = INIT_HLIST_NODE n"
| "hlist_op_run (HAddHead n h) = hlist_add_head n h"
| "hlist_op_run (HAddBefore n e) = hlist_add_before n e"
| "hlist_op_run (HAddAfter e n) = hlist_add_after e n"
| "hlist_op_run (HAddFake n) = hlist_add_fake n"
| "hlist_op_run (HDel e) = hlist_del e"
| "hlist_op_run (HDelInit e) = hlist_del_init e"
| "hlist_op_run (HMove old new) = hlist_move_list old new"

fun ins_before :: "addr \<Rightarrow> addr \<Rightarrow> addr list \<Rightarrow> addr list" where
  "ins_before n e [] = []"
| "ins_before n e (x # xs) = (if x = e then n # x # xs else x # ins_before n e xs)"

fun ins_after :: "addr \<Rightarrow> addr \<Rightarrow> addr list \<Rightarrow> addr list" where
  "ins_after e n [] = []"
| "ins_after e n (x # xs) = (if x = e then x # n # xs else x # ins_after e n xs)"

definition on_all :: "(addr list \<Rightarrow> addr list) \<Rightarrow> hlists \<Rightarrow> hlists" where
  "on_all f L = (\<lambda>h. map_option f (L h))"

text \<open>The node \<open>n\<close> gets a new role.\<close>

definition used :: "addr \<Rightarrow> hspec \<Rightarrow> hspec" where
  "used n A = A\<lparr>unhashed := unhashed A - {n}, faked := faked A - {n}\<rparr>"

fun hlist_op_spec :: "hlist_op \<Rightarrow> hspec \<Rightarrow> hspec" where
  "hlist_op_spec (HInit h) A = A\<lparr>listed_at := (listed_at A)(h \<mapsto> [])\<rparr>"
| "hlist_op_spec (HInitNode n) A = (used n A)\<lparr>unhashed := insert n (unhashed A)\<rparr>"
| "hlist_op_spec (HAddHead n h) A = (used n A)\<lparr>listed_at := (listed_at A)(h \<mapsto> n # the (listed_at A h))\<rparr>"
| "hlist_op_spec (HAddBefore n e) A = (used n A)\<lparr>listed_at := on_all (ins_before n e) (listed_at A)\<rparr>"
| "hlist_op_spec (HAddAfter e n) A = (used n A)\<lparr>listed_at := on_all (ins_after e n) (listed_at A)\<rparr>"
| "hlist_op_spec (HAddFake n) A = (used n A)\<lparr>faked := insert n (faked A)\<rparr>"
| "hlist_op_spec (HDel e) A = (used e A)\<lparr>listed_at := on_all (remove1 e) (listed_at A)\<rparr>"
| "hlist_op_spec (HDelInit e) A =
     (used e A)\<lparr>listed_at := on_all (remove1 e) (listed_at A), unhashed := insert e (unhashed A)\<rparr>"
| "hlist_op_spec (HMove old new) A = A\<lparr>listed_at := (listed_at A)(new := listed_at A old, old \<mapsto> [])\<rparr>"

text \<open>What a caller has to ensure: a head or node is allocated, a new node is on no list.\<close>

definition free_node :: "hheap \<Rightarrow> hspec \<Rightarrow> addr \<Rightarrow> bool" where
  "free_node H A n \<longleftrightarrow> n \<in> dom (hlist_nodes H) \<and> n \<notin> on_list (listed_at A)"

fun hlist_op_ok :: "hheap \<Rightarrow> hspec \<Rightarrow> hlist_op \<Rightarrow> bool" where
  "hlist_op_ok H A (HInit h) = (h \<in> dom (hlist_heads H))"
| "hlist_op_ok H A (HInitNode n) = free_node H A n"
| "hlist_op_ok H A (HAddHead n h) = (free_node H A n \<and> h \<in> dom (listed_at A))"
| "hlist_op_ok H A (HAddBefore n e) = (free_node H A n \<and> e \<in> on_list (listed_at A))"
| "hlist_op_ok H A (HAddAfter e n) = (free_node H A n \<and> e \<in> on_list (listed_at A))"
| "hlist_op_ok H A (HAddFake n) = (n \<in> unhashed A)"
| "hlist_op_ok H A (HDel e) = (e \<in> on_list (listed_at A) \<union> faked A)"
| "hlist_op_ok H A (HDelInit e) = (e \<in> on_list (listed_at A) \<union> faked A \<union> unhashed A)"
| "hlist_op_ok H A (HMove old new) = (old \<in> dom (listed_at A) \<and> new \<in> dom (hlist_heads H) \<and> old \<noteq> new)"

fun hlist_run :: "hlist_op list \<Rightarrow> hheap \<Rightarrow> hheap option" where
  "hlist_run [] H = Some H"
| "hlist_run (op # ops) H = do { H \<leftarrow> hlist_op_run op H; hlist_run ops H }"

fun hlist_spec :: "hlist_op list \<Rightarrow> hspec \<Rightarrow> hspec" where
  "hlist_spec [] A = A"
| "hlist_spec (op # ops) A = hlist_spec ops (hlist_op_spec op A)"

fun hlist_ops_ok :: "hheap \<Rightarrow> hspec \<Rightarrow> hlist_op list \<Rightarrow> bool" where
  "hlist_ops_ok H A [] = True"
| "hlist_ops_ok H A (op # ops) = (hlist_op_ok H A op \<and> hlist_ops_ok H (hlist_op_spec op A) ops)"

section \<open>Every operation implements its specification\<close>

lemma ins_split: "e \<notin> set xs \<Longrightarrow> ins_before n e (xs @ e # ys) = xs @ n # e # ys"
  "e \<notin> set xs \<Longrightarrow> ins_after e n (xs @ e # ys) = xs @ e # n # ys"
  by (induction xs) auto

lemma ins_other: "e \<notin> set xs \<Longrightarrow> ins_before n e xs = xs" "e \<notin> set xs \<Longrightarrow> ins_after e n xs = xs"
  by (induction xs) auto

text \<open>A change at a node changes the one list it is on.\<close>

lemma on_all_listed:
  assumes "hlists_rep H A" and "listed_at A h = Some xs" and "e \<in> set xs" and "\<And>ys. e \<notin> set ys \<Longrightarrow> f ys = ys"
  shows "on_all f (listed_at A) = (listed_at A)(h \<mapsto> f xs)"
proof
  fix k
  show "on_all f (listed_at A) k = ((listed_at A)(h \<mapsto> f xs)) k"
  proof (cases "listed_at A k")
    case (Some ys)
    then show ?thesis
      using hdisjointD [OF hrep_disjoint [OF assms(1)] Some assms(2)] assms(2-4) by (cases "k = h") (auto simp: on_all_def)
  qed (use assms(2) in \<open>auto simp: on_all_def\<close>)
qed

lemma on_all_unlisted:
  assumes "e \<notin> on_list L" and "\<And>ys. e \<notin> set ys \<Longrightarrow> f ys = ys"
  shows "on_all f L = L"
proof
  show "on_all f L k = L k" for k
    using assms(2) on_listI [of L k _ e] assms(1) by (cases "L k") (auto simp: on_all_def)
qed

lemma used_unlisted: "hlists_rep H A \<Longrightarrow> e \<in> on_list (listed_at A) \<Longrightarrow> used e A = A"
  using unlisted [of H A e] by (cases A) (auto simp: used_def)

text \<open>A change of one list for the sake of the node \<open>n\<close>.\<close>

lemma hrep_change_used:
  assumes "hlists_rep H A" and "listed_at A h = Some xs" and "hlist H' h zs" and "hkeeps (cells h ws) H H'"
    and "set zs \<subseteq> set ws" "set ws \<subseteq> set xs \<union> {n}" "n \<notin> on_list (listed_at A)"
  shows "hlists_rep H' ((used n A)\<lparr>listed_at := (listed_at A)(h \<mapsto> zs)\<rparr>)"
proof -
  have "{n} \<inter> on_list (listed_at A) = {}" using assms(7) by simp
  from hrep_change_list [OF assms(1-6) this] show ?thesis by (simp add: hlists_rep_def used_def)
qed

definition keeps_cells :: "hheap \<Rightarrow> hheap \<Rightarrow> bool" where
  "keeps_cells H H' \<longleftrightarrow> dom (hlist_heads H') = dom (hlist_heads H) \<and> dom (hlist_nodes H') = dom (hlist_nodes H)"

lemma hkeeps_cells: "hkeeps S H H' \<Longrightarrow> keeps_cells H H'"
  unfolding hkeeps_def keeps_cells_def using loc_ok_simps by blast

lemma keeps_cells_trans: "keeps_cells H H' \<Longrightarrow> keeps_cells H' H'' \<Longrightarrow> keeps_cells H H''"
  by (simp add: keeps_cells_def)

definition himplements :: "hlist_op \<Rightarrow> hheap \<Rightarrow> hspec \<Rightarrow> bool" where
  "himplements op H A \<longleftrightarrow> (\<exists>H'. hlist_op_run op H = Some H' \<and> hlists_rep H' (hlist_op_spec op A) \<and> keeps_cells H H')"

lemma himplementsI:
  "hlist_op_run op H = Some H' \<Longrightarrow> hlists_rep H' (hlist_op_spec op A) \<Longrightarrow> keeps_cells H H' \<Longrightarrow> himplements op H A"
  unfolding himplements_def by blast

lemma free_nodeD: "free_node H A n \<Longrightarrow> loc_ok H (Next n)" "free_node H A n \<Longrightarrow> n \<notin> on_list (listed_at A)"
  by (auto simp: free_node_def loc_ok_simps)

lemma init_head_rep:
  assumes "hlists_rep H A" and "h \<in> dom (hlist_heads H)"
  shows "himplements (HInit h) H A"
proof -
  define H' where "H' = up_loc (First h) None H"
  have ok: "loc_ok H (First h)" using assms(2) by (simp add: loc_ok_simps)
  then have run: "hlist_op_run (HInit h) H = Some H'" by (simp add: INIT_HLIST_HEAD_def H'_def heap_simps)
  have k: "hkeeps {First h} H H'" by (rule hkeepsI) (use ok in \<open>auto simp: H'_def heap_simps\<close>)
  have "hlists_rep H' (hlist_op_spec (HInit h) A)"
  proof (rule hrep_change [OF assms(1) k])
    show "hdisjoint (listed_at (hlist_op_spec (HInit h) A))"
      using hrep_disjoint [OF assms(1)] by (fastforce simp: hdisjoint_def)
    show "hlist H' k zs \<or> listed_at A k = Some zs \<and> {First h} \<inter> cells k zs = {}"
      if "listed_at (hlist_op_spec (HInit h) A) k = Some zs" for k zs
      using that ok by (cases "k = h") (auto simp: hlist_def hrest_simps H'_def heap_simps cells_def)
  qed auto
  then show ?thesis using run hkeeps_cells [OF k] by (intro himplementsI)
qed

lemma init_node_keeps:
  assumes "loc_ok H (Next n)"
  shows "\<exists>H'. INIT_HLIST_NODE n H = Some H' \<and> hkeeps {Next n} H H' \<and> ld_loc (Next n) H' = Some None \<and> ld_pprev n H' = Some None"
proof -
  define H' where "H' = up_pprev n None (up_loc (Next n) None H)"
  have "INIT_HLIST_NODE n H = Some H'" using assms by (simp add: INIT_HLIST_NODE_def H'_def heap_simps)
  moreover have "hkeeps {Next n} H H'" by (rule hkeepsI) (use assms in \<open>auto simp: H'_def heap_simps\<close>)
  moreover have "ld_loc (Next n) H' = Some None" "ld_pprev n H' = Some None" using assms by (simp_all add: H'_def heap_simps)
  ultimately show ?thesis by blast
qed

lemma rep_unhashed:
  "hlists_rep H (used n A) \<Longrightarrow> ld_loc (Next n) H = Some None \<Longrightarrow> ld_pprev n H = Some None \<Longrightarrow>
   hlists_rep H ((used n A)\<lparr>unhashed := insert n (unhashed A)\<rparr>)"
  by (auto simp: hlists_rep_def used_def)

lemma init_node_rep:
  assumes "hlists_rep H A" and "free_node H A n"
  shows "himplements (HInitNode n) H A"
proof -
  obtain H' where H': "INIT_HLIST_NODE n H = Some H'" "hkeeps {Next n} H H'" "ld_loc (Next n) H' = Some None" "ld_pprev n H' = Some None"
    using init_node_keeps [OF free_nodeD(1) [OF assms(2)]] by blast
  have "hlists_rep H' (used n A)"
    using hrep_change_node [OF assms(1) H'(2)] assms(2) by (simp add: used_def free_node_def)
  then show ?thesis using H' hkeeps_cells [OF H'(2)] rep_unhashed by (intro himplementsI) simp_all
qed

lemma add_fake_rep:
  assumes "hlists_rep H A" and "n \<in> unhashed A"
  shows "himplements (HAddFake n) H A"
proof -
  define H' where "H' = up_pprev n (Some (Next n)) H"
  have u: "ld_loc (Next n) H = Some None" "n \<notin> on_list (listed_at A)"
    using assms unlisted by (auto simp: hlists_rep_def)
  have ok: "loc_ok H (Next n)" by (rule loc_okI(1) [OF u(1)])
  have run: "hlist_op_run (HAddFake n) H = Some H'" using ok by (simp add: hlist_add_fake_def H'_def heap_simps)
  have k: "hkeeps {Next n} H H'" by (rule hkeepsI) (use ok in \<open>auto simp: H'_def heap_simps\<close>)
  have "hlists_rep H' (used n A)" using hrep_change_node [OF assms(1) k u(2)] by (simp add: used_def)
  then have "hlists_rep H' (hlist_op_spec (HAddFake n) A)"
    using u ok by (auto simp: hlists_rep_def used_def H'_def heap_simps)
  then show ?thesis using run hkeeps_cells [OF k] by (intro himplementsI)
qed

lemma add_head_rep:
  assumes "hlists_rep H A" and "free_node H A n" and "h \<in> dom (listed_at A)"
  shows "himplements (HAddHead n h) H A"
proof -
  obtain xs where xs: "listed_at A h = Some xs" using assms(3) by blast
  have n: "n \<notin> set xs" using assms(2) on_listI [of "listed_at A", OF xs] by (auto simp: free_node_def)
  obtain H' where H': "hlist_add_head n h H = Some H'" "hlist H' h (n # xs)" "hkeeps (cells h (n # xs)) H H'"
    using add_head_hlist [OF rep_hlist [OF assms(1) xs] free_nodeD(1) [OF assms(2)] n] by blast
  have "hlists_rep H' (hlist_op_spec (HAddHead n h) A)"
    using hrep_change_used [OF assms(1) xs H'(2,3) _ _ free_nodeD(2) [OF assms(2)]] by (simp add: xs)
  then show ?thesis using H'(1) hkeeps_cells [OF H'(3)] by (intro himplementsI) simp_all
qed

lemma add_near_rep:
  assumes "hlists_rep H A" and "free_node H A n" and "e \<in> on_list (listed_at A)"
  shows "himplements (HAddBefore n e) H A" "himplements (HAddAfter e n) H A"
proof -
  obtain h xs ys where l: "listed_at A h = Some (xs @ e # ys)" using assms(3) by (rule on_listE)
  note h = rep_hlist [OF assms(1) l]
  have e: "e \<notin> set xs" using h by (auto simp: hlist_def)
  have n: "n \<notin> set (xs @ e # ys)" using assms(2) on_listI [of "listed_at A", OF l] by (auto simp: free_node_def)
  note f = free_nodeD [OF assms(2)]
  obtain H1 where H1: "hlist_add_before n e H = Some H1" "hlist H1 h (xs @ n # e # ys)" "hkeeps (cells h (xs @ n # e # ys)) H H1"
    using add_before_hlist [OF h f(1) n] by blast
  have "on_all (ins_before n e) (listed_at A) = (listed_at A)(h \<mapsto> xs @ n # e # ys)"
    using on_all_listed [OF assms(1) l, of e "ins_before n e"] by (simp add: ins_other ins_split e)
  then have "hlists_rep H1 (hlist_op_spec (HAddBefore n e) A)"
    using hrep_change_used [OF assms(1) l H1(2,3) _ _ f(2)] by (simp add: insert_commute)
  then show "himplements (HAddBefore n e) H A" using H1(1) hkeeps_cells [OF H1(3)] by (intro himplementsI) simp_all
  obtain H2 where H2: "hlist_add_after e n H = Some H2" "hlist H2 h (xs @ e # n # ys)" "hkeeps (cells h (xs @ e # n # ys)) H H2"
    using add_after_hlist [OF h f(1) n] by blast
  have "on_all (ins_after e n) (listed_at A) = (listed_at A)(h \<mapsto> xs @ e # n # ys)"
    using on_all_listed [OF assms(1) l, of e "ins_after e n"] by (simp add: ins_other ins_split e)
  then have "hlists_rep H2 (hlist_op_spec (HAddAfter e n) A)"
    using hrep_change_used [OF assms(1) l H2(2,3) _ _ f(2)] by (simp add: insert_commute)
  then show "himplements (HAddAfter e n) H A" using H2(1) hkeeps_cells [OF H2(3)] by (intro himplementsI) simp_all
qed

text \<open>The specification without the node \<open>e\<close>.\<close>

abbreviation dropped :: "addr \<Rightarrow> hspec \<Rightarrow> hspec" where
  "dropped e A \<equiv> (used e A)\<lparr>listed_at := on_all (remove1 e) (listed_at A)\<rparr>"

lemma del_links_rep:
  assumes "hlists_rep H A" and "e \<in> on_list (listed_at A) \<union> faked A"
  shows "\<exists>H'. hlist_del_links e H = Some H' \<and> hlists_rep H' (dropped e A) \<and> hkeeps UNIV H H' \<and>
    e \<notin> on_list (listed_at (dropped e A)) \<and> loc_ok H' (Next e)"
proof (cases "e \<in> on_list (listed_at A)")
  case True
  then obtain h xs ys where l: "listed_at A h = Some (xs @ e # ys)" by (rule on_listE)
  note h = rep_hlist [OF assms(1) l]
  obtain H' where H': "hlist_del_links e H = Some H'" "hlist H' h (xs @ ys)" "hkeeps (cells h (xs @ e # ys)) H H'"
    using del_links_hlist [OF h] by blast
  have e: "e \<notin> set xs" "e \<notin> set ys" using h by (auto simp: hlist_def)
  have o: "on_all (remove1 e) (listed_at A) = (listed_at A)(h \<mapsto> xs @ ys)"
    using on_all_listed [OF assms(1) l, of e "remove1 e"] e by (simp add: remove1_idem remove1_append)
  have "hlists_rep H' (A\<lparr>listed_at := (listed_at A)(h \<mapsto> xs @ ys), unhashed := unhashed A - {}, faked := faked A - {}\<rparr>)"
    by (rule hrep_change_list [OF assms(1) l H'(2,3)]) auto
  then have "hlists_rep H' (dropped e A)" by (simp add: o used_unlisted [OF assms(1) True] hlists_rep_def)
  moreover have "e \<notin> set zs" if "listed_at A k = Some zs" "k \<noteq> h" for k zs
    using hdisjointD [OF hrep_disjoint [OF assms(1)] that(1) l that(2)] by auto
  then have "e \<notin> on_list (listed_at (dropped e A))" using e by (auto simp: on_list_def o split: if_splits)
  moreover have "loc_ok H (Next e)" using hlist_ok [OF h] by simp
  ultimately show ?thesis using H' by (auto simp: hkeeps_def)
next
  case False
  then have f: "ld_loc (Next e) H = Some None" "ld_pprev e H = Some (Some (Next e))"
    using assms by (auto simp: hlists_rep_def)
  have ok: "loc_ok H (Next e)" by (rule loc_okI(1) [OF f(1)])
  define H' where "H' = up_loc (Next e) None H"
  have n: "ptr_ok H None" "\<And>v. up_pprev_if None v H' = H'" by (simp_all add: ptr_ok_def up_pprev_if_def)
  have run: "hlist_del_links e H = Some H'" using f ok n by (simp add: hlist_del_links_def H'_def heap_simps)
  have k: "hkeeps {Next e} H H'" by (rule hkeepsI) (use ok in \<open>auto simp: H'_def heap_simps\<close>)
  have o: "on_all (remove1 e) (listed_at A) = listed_at A"
    by (rule on_all_unlisted [OF False]) (simp add: remove1_idem)
  have "hlists_rep H' (dropped e A)" using hrep_change_node [OF assms(1) k False] by (simp add: o used_def hlists_rep_def)
  then show ?thesis using run k ok False by (auto simp: o hkeeps_def)
qed

lemma used_dropped: "hlists_rep H (A'\<lparr>unhashed := unhashed A' - {e}, faked := faked A' - {e}\<rparr>) \<Longrightarrow>
    A' = dropped e A \<Longrightarrow> hlists_rep H (dropped e A)"
  by (auto simp: hlists_rep_def used_def)

lemma hdel_rep:
  assumes "hlists_rep H A" and "e \<in> on_list (listed_at A) \<union> faked A"
  shows "himplements (HDel e) H A"
proof -
  obtain H1 where H1: "hlist_del_links e H = Some H1" "hlists_rep H1 (dropped e A)" "hkeeps UNIV H H1"
    "e \<notin> on_list (listed_at (dropped e A))" "loc_ok H1 (Next e)"
    using del_links_rep [OF assms] by blast
  define H' where "H' = up_pprev e (Some (Wild LIST_POISON2)) (up_loc (Next e) (Some LIST_POISON1) H1)"
  have run: "hlist_del e H = Some H'" using H1(1,5) by (simp add: hlist_del_def H'_def heap_simps)
  have k: "hkeeps {Next e} H1 H'" by (rule hkeepsI) (use H1(5) in \<open>auto simp: H'_def heap_simps\<close>)
  have "hlists_rep H' (dropped e A)" by (rule used_dropped [OF hrep_change_node [OF H1(2) k H1(4)] refl])
  then show ?thesis using run keeps_cells_trans [OF hkeeps_cells [OF H1(3)] hkeeps_cells [OF k]]
    by (intro himplementsI) simp_all
qed

lemma hdel_init_rep:
  assumes "hlists_rep H A" and "e \<in> on_list (listed_at A) \<union> faked A \<union> unhashed A"
  shows "himplements (HDelInit e) H A"
proof (cases "e \<in> on_list (listed_at A) \<union> faked A")
  case True
  obtain H1 where H1: "hlist_del_links e H = Some H1" "hlists_rep H1 (dropped e A)" "hkeeps UNIV H H1"
    "e \<notin> on_list (listed_at (dropped e A))" "loc_ok H1 (Next e)"
    using del_links_rep [OF assms(1) True] by blast
  have "\<exists>l. ld_pprev e H = Some (Some l)" using True listed_pprev [OF assms(1), of e] assms(1) by (auto simp: hlists_rep_def)
  then have u: "hlist_unhashed e H = Some False" by (auto simp: hlist_unhashed_def)
  obtain H' where H': "INIT_HLIST_NODE e H1 = Some H'" "hkeeps {Next e} H1 H'" "ld_loc (Next e) H' = Some None" "ld_pprev e H' = Some None"
    using init_node_keeps [OF H1(5)] by blast
  have "hlists_rep H' (dropped e A)" by (rule used_dropped [OF hrep_change_node [OF H1(2) H'(2) H1(4)] refl])
  then have "hlists_rep H' (hlist_op_spec (HDelInit e) A)" using H'(3,4) by (auto simp: hlists_rep_def used_def)
  moreover have "hlist_op_run (HDelInit e) H = Some H'" using u H1(1) H'(1) by (simp add: hlist_del_init_def)
  ultimately show ?thesis using keeps_cells_trans [OF hkeeps_cells [OF H1(3)] hkeeps_cells [OF H'(2)]]
    by (intro himplementsI)
next
  case False
  then have u: "e \<in> unhashed A" "e \<notin> faked A" "e \<notin> on_list (listed_at A)" using assms(2) by auto
  have "hlist_unhashed e H = Some True" using assms(1) u by (auto simp: hlist_unhashed_def hlists_rep_def)
  then have run: "hlist_op_run (HDelInit e) H = Some H" by (simp add: hlist_del_init_def)
  have o: "on_all (remove1 e) (listed_at A) = listed_at A"
    by (rule on_all_unlisted [OF u(3)]) (simp add: remove1_idem)
  have "hlists_rep H (hlist_op_spec (HDelInit e) A)" using assms(1) u by (auto simp: hlists_rep_def used_def o)
  then show ?thesis using run by (intro himplementsI) (simp_all add: keeps_cells_def)
qed

lemma hmove_rep:
  assumes "hlists_rep H A" and "old \<in> dom (listed_at A)" and "new \<in> dom (hlist_heads H)" and "old \<noteq> new"
  shows "himplements (HMove old new) H A"
proof -
  obtain xs where xs: "listed_at A old = Some xs" using assms(2) by blast
  have ok: "loc_ok H (First new)" using assms(3) by (simp add: loc_ok_simps)
  obtain H' where H': "hlist_move_list old new H = Some H'" "hlist H' new xs" "hlist H' old []"
    "hkeeps (cells old xs \<union> {First new}) H H'"
    using move_hlist [OF rep_hlist [OF assms(1) xs] ok assms(4)] by blast
  let ?A = "hlist_op_spec (HMove old new) A"
  have d: "set xs \<inter> set ys = {}" if "listed_at A k = Some ys" "k \<noteq> old" for k ys
    by (rule hdisjointD [OF hrep_disjoint [OF assms(1)] xs that(1)]) (use that(2) in simp)
  have "hlists_rep H' ?A"
  proof (rule hrep_change [OF assms(1) H'(4)])
    show "hdisjoint (listed_at ?A)" unfolding hdisjoint_def
    proof (intro allI impI, elim conjE)
      fix k k' xs' ys' assume k: "listed_at ?A k = Some xs'" "listed_at ?A k' = Some ys'" "k \<noteq> k'"
      show "set xs' \<inter> set ys' = {}"
        using k xs d [of k xs'] d [of k' ys'] hdisjointD [OF hrep_disjoint [OF assms(1)], of k xs' k' ys'] by (auto split: if_splits)
    qed
    show "hlist H' k zs \<or> listed_at A k = Some zs \<and> (cells old xs \<union> {First new}) \<inter> cells k zs = {}"
      if "listed_at ?A k = Some zs" for k zs
      using that H'(2,3) xs d [of k zs] by (auto simp: cells_def split: if_splits)
    show "(cells old xs \<union> {First new}) \<inter> Next ` (unhashed ?A \<union> faked ?A) = {}"
      using unlisted [OF assms(1)] on_listI [of "listed_at A", OF xs] by (auto simp: cells_def)
  qed auto
  then show ?thesis using H'(1) hkeeps_cells [OF H'(4)] by (intro himplementsI) simp_all
qed

lemma hlist_op_implements:
  assumes "hlists_rep H A" and "hlist_op_ok H A op"
  shows "himplements op H A"
  using assms(2) by (cases op)
    (simp_all add: init_head_rep init_node_rep add_fake_rep add_head_rep add_near_rep hdel_rep hdel_init_rep hmove_rep assms(1))

lemma hlist_op_ok_cells: "keeps_cells H H' \<Longrightarrow> hlist_op_ok H' A op = hlist_op_ok H A op"
  by (cases op) (simp_all add: keeps_cells_def free_node_def)

lemma hlist_ops_ok_cells: "keeps_cells H H' \<Longrightarrow> hlist_ops_ok H' A ops = hlist_ops_ok H A ops"
  by (induction ops arbitrary: A) (simp_all add: hlist_op_ok_cells)

lemma hlist_run_rep:
  "hlists_rep H A \<Longrightarrow> hlist_ops_ok H A ops \<Longrightarrow>
   \<exists>H'. hlist_run ops H = Some H' \<and> hlists_rep H' (hlist_spec ops A) \<and> keeps_cells H H'"
proof (induction ops arbitrary: H A)
  case (Cons op ops)
  obtain H1 where H1: "hlist_op_run op H = Some H1" "hlists_rep H1 (hlist_op_spec op A)" "keeps_cells H H1"
    using hlist_op_implements [OF Cons.prems(1)] Cons.prems(2) by (auto simp: himplements_def)
  with Cons.IH [OF H1(2)] Cons.prems(2) keeps_cells_trans [OF H1(3)] show ?case
    by (auto simp: hlist_ops_ok_cells)
qed (simp add: keeps_cells_def)

section \<open>Loops\<close>

lemma hfor_each_fold: "hrest H l xs \<Longrightarrow> hfor_each_from f H (hd_ptr xs) s = foldM f xs s"
proof (induction xs arbitrary: l s)
  case (Cons x xs)
  have "hrest H (Next x) xs" using Cons.prems by (simp add: hrest_simps)
  then have "hfor_each_from f H (hd_ptr xs) s = foldM f xs s" for s by (rule Cons.IH)
  moreover have "ld_loc (Next x) H = Some (hd_ptr xs)" by (rule hrest_hd) fact
  ultimately show ?case by (subst hfor_each_from.simps) (cases "f x s"; simp)
qed (simp add: hfor_each_from.simps)

lemma hlist_for_each_fold: "hlist H h xs \<Longrightarrow> hlist_for_each f h H s = foldM f xs s"
  using hfor_each_fold [of H "First h" xs f s] by (simp add: hlist_for_each_def hlist_hd hlist_def)

lemma member_of_hentry [simp]: "member_of (hlist_entry p off) off = p"
  by (simp add: member_of_def hlist_entry_def container_of_def)

lemma hentry_safe_Some: "hlist_entry_safe (Some p) off = Some (hlist_entry p off)" "hlist_entry_safe None off = None"
  by (simp_all add: hlist_entry_safe_def)

lemma hentry_fold:
  "hrest H l xs \<Longrightarrow> hlist_for_each_entry_from f off H (hlist_entry_safe (hd_ptr xs) off) s = foldM (\<lambda>p. f (hlist_entry p off)) xs s"
proof (induction xs arbitrary: l s)
  case (Cons x xs)
  have r: "hrest H (Next x) xs" using Cons.prems by (simp add: hrest_simps)
  then have "hlist_for_each_entry_from f off H (hlist_entry_safe (hd_ptr xs) off) s = foldM (\<lambda>p. f (hlist_entry p off)) xs s" for s
    by (rule Cons.IH)
  then show ?case using hrest_hd [OF r]
    by (subst hlist_for_each_entry_from.simps) (cases "f (hlist_entry x off) s"; simp add: hentry_safe_Some hentry_next_def)
qed (simp add: hlist_for_each_entry_from.simps hentry_safe_Some)

lemma hlist_for_each_entry_fold:
  "hlist H h xs \<Longrightarrow> hlist_for_each_entry f h off H s = foldM (\<lambda>p. f (hlist_entry p off)) xs s"
  "hlist H h (xs @ e # ys) \<Longrightarrow>
     hlist_for_each_entry_continue f off H (hlist_entry e off) s = foldM (\<lambda>p. f (hlist_entry p off)) ys s"
  using hentry_fold [of H "First h" xs f off s] hlist_node [of H h xs e ys] hentry_fold [of H "Next e" ys f off s]
  by (simp_all add: hlist_for_each_entry_def hlist_for_each_entry_continue_def hentry_next_def hlist_hd hlist_def)

text \<open>The typed safe loop is the safe loop over nodes.\<close>

lemma hentry_safe_from_eq: "hentry_safe_from f off (hlist_entry_safe p off) H = hfor_each_safe_from (\<lambda>p. f (hlist_entry p off)) p H"
proof (rule option_eqI)
  fix r
  show "hentry_safe_from f off (hlist_entry_safe p off) H = Some r \<Longrightarrow> hfor_each_safe_from (\<lambda>p. f (hlist_entry p off)) p H = Some r"
    by (drule hentry_safe_from.raw_induct [where P = "\<lambda>f off pos H r. \<forall>p. pos = hlist_entry_safe p off \<longrightarrow>
      hfor_each_safe_from (\<lambda>p. f (hlist_entry p off)) p H = Some r", rotated], intro allI impI, subst hfor_each_safe_from.simps)
      (auto simp: bind_eq_Some_iff hentry_safe_Some split: option.splits)
  show "hfor_each_safe_from (\<lambda>p. f (hlist_entry p off)) p H = Some r \<Longrightarrow> hentry_safe_from f off (hlist_entry_safe p off) H = Some r"
    by (drule hfor_each_safe_from.raw_induct [where P = "\<lambda>g p H r. g = (\<lambda>p. f (hlist_entry p off)) \<longrightarrow>
      hentry_safe_from f off (hlist_entry_safe p off) H = Some r", rotated], intro allI impI, subst hentry_safe_from.simps)
      (auto simp: bind_eq_Some_iff hentry_safe_Some split: option.splits)
qed

lemma hlist_for_each_entry_safe_eq:
  "hlist_for_each_entry_safe f h off H = hlist_for_each_safe (\<lambda>p. f (hlist_entry p off)) h H"
  by (simp add: hlist_for_each_entry_safe_def hlist_for_each_safe_def hentry_safe_from_eq)

text \<open>The safe loop survives the removal of the node it stands on; here it empties a list.\<close>

lemma empty_loop_rep:
  "hlists_rep H A \<Longrightarrow> listed_at A h = Some xs \<Longrightarrow>
   \<exists>H'. hfor_each_safe_from hlist_del_init (hd_ptr xs) H = Some H' \<and>
     hlists_rep H' (hlist_spec (map HDelInit xs) A) \<and> listed_at (hlist_spec (map HDelInit xs) A) h = Some []"
proof (induction xs arbitrary: H A)
  case (Cons x xs)
  have x: "x \<in> on_list (listed_at A) \<union> faked A \<union> unhashed A" using on_listI [of "listed_at A", OF Cons.prems(2)] by simp
  obtain H1 where H1: "hlist_del_init x H = Some H1" "hlists_rep H1 (hlist_op_spec (HDelInit x) A)"
    using hdel_init_rep [OF Cons.prems(1) x] by (auto simp: himplements_def)
  have l: "listed_at (hlist_op_spec (HDelInit x) A) h = Some xs" using Cons.prems(2) by (simp add: on_all_def)
  have n: "ld_loc (Next x) H = Some (hd_ptr xs)"
    using hlist_node(2) [of H h "[]" x xs] rep_hlist [OF Cons.prems] by simp
  show ?case using Cons.IH [OF H1(2) l] H1(1) n by (subst hfor_each_safe_from.simps) simp
qed (simp add: hfor_each_safe_from.simps)

section \<open>Properties\<close>

text \<open>C16. The lists with a single pointer as head are correct: on a heap that holds any family of disjoint lists, every
  sequence of the operations that respects their preconditions is defined and does to the lists what the
  specification says. Afterwards \<open>hlist_empty\<close> and \<open>hlist_unhashed\<close> answer for the contents, the loop visits
  the nodes in order and ends, the typed loops visit the structures around them, from the first or from any node on,
  and the safe loops can take out every node they visit.\<close>

theorem hlist_ops_refine:
  assumes "hlists_rep H A" and "hlist_ops_ok H A ops"
  shows "\<exists>H'. hlist_run ops H = Some H' \<and> hlists_rep H' (hlist_spec ops A) \<and>
    (\<forall>n\<in>unhashed (hlist_spec ops A). hlist_unhashed n H' = Some True) \<and>
    (\<forall>h xs. listed_at (hlist_spec ops A) h = Some xs \<longrightarrow>
      hlist_empty h H' = Some (xs = []) \<and> (\<forall>n\<in>set xs. hlist_unhashed n H' = Some False) \<and>
      hlist_for_each (\<lambda>n s. Some (s @ [n])) h H' [] = Some xs \<and>
      (\<exists>H''. hlist_for_each_safe hlist_del_init h H' = Some H'' \<and> hlist_empty h H'' = Some True) \<and>
      (\<forall>off. hlist_for_each_entry (\<lambda>p s. Some (s @ [p])) h off H' [] = Some (map (\<lambda>n. hlist_entry n off) xs)) \<and>
      (\<forall>off. \<exists>H''. hlist_for_each_entry_safe (\<lambda>p. hlist_del_init (member_of p off)) h off H' = Some H'' \<and>
        hlist_empty h H'' = Some True)) \<and>
    (\<forall>h as n bs off. listed_at (hlist_spec ops A) h = Some (as @ n # bs) \<longrightarrow>
      hlist_for_each_entry_continue (\<lambda>p s. Some (s @ [p])) off H' (hlist_entry n off) [] =
        Some (map (\<lambda>n. hlist_entry n off) bs))"
proof -
  obtain H' where H': "hlist_run ops H = Some H'" "hlists_rep H' (hlist_spec ops A)"
    using hlist_run_rep [OF assms] by blast
  have f: "foldM (\<lambda>n s. Some (s @ [n])) xs s = Some (s @ xs)" for xs s :: "addr list"
    by (induction xs arbitrary: s) auto
  have e: "hlist_empty h H1 = Some (xs = [])" if "hlist H1 h xs" for h H1 xs
    using hlist_hd [OF that] by (cases xs) (simp_all add: hlist_empty_def)
  have n: "hlist_unhashed n H' = Some False" if l: "listed_at (hlist_spec ops A) h = Some xs" and "n \<in> set xs" for h xs n
  proof -
    have "n \<in> on_list (listed_at (hlist_spec ops A))" by (rule on_listI) (rule l, rule that(2))
    then obtain m where "ld_pprev n H' = Some (Some m)" using listed_pprev [OF H'(2)] by blast
    then show ?thesis by (simp add: hlist_unhashed_def)
  qed
  have u: "hlist_unhashed n H' = Some True" if "n \<in> unhashed (hlist_spec ops A)" for n
    using H'(2) that by (simp add: hlists_rep_def hlist_unhashed_def)
  have d: "\<exists>H''. hlist_for_each_safe hlist_del_init h H' = Some H'' \<and> hlist_empty h H'' = Some True"
    if l: "listed_at (hlist_spec ops A) h = Some xs" for h xs
  proof -
    obtain H'' where H'': "hfor_each_safe_from hlist_del_init (hd_ptr xs) H' = Some H''"
      "hlists_rep H'' (hlist_spec (map HDelInit xs) (hlist_spec ops A))"
      "listed_at (hlist_spec (map HDelInit xs) (hlist_spec ops A)) h = Some []"
      using empty_loop_rep [OF H'(2) l] by blast
    then show ?thesis using e [OF rep_hlist [OF H''(2,3)]] hlist_hd [OF rep_hlist [OF H'(2) l]]
      by (simp add: hlist_for_each_safe_def)
  qed
  have i: "hlist_for_each (\<lambda>n s. Some (s @ [n])) h H' [] = Some xs" if "listed_at (hlist_spec ops A) h = Some xs" for h xs
    by (simp add: hlist_for_each_fold [OF rep_hlist [OF H'(2) that]] f)
  have g: "foldM (\<lambda>n s. Some (s @ [hlist_entry n off])) xs s = Some (s @ map (\<lambda>n. hlist_entry n off) xs)" for off xs s
    by (induction xs arbitrary: s) auto
  have t: "hlist_for_each_entry (\<lambda>p s. Some (s @ [p])) h off H' [] = Some (map (\<lambda>n. hlist_entry n off) xs)"
    if "listed_at (hlist_spec ops A) h = Some xs" for h xs off
    by (simp add: hlist_for_each_entry_fold(1) [OF rep_hlist [OF H'(2) that]] g)
  have c: "hlist_for_each_entry_continue (\<lambda>p s. Some (s @ [p])) off H' (hlist_entry n off) [] = Some (map (\<lambda>n. hlist_entry n off) bs)"
    if "listed_at (hlist_spec ops A) h = Some (as @ n # bs)" for h as n bs off
    by (simp add: hlist_for_each_entry_fold(2) [OF rep_hlist [OF H'(2) that]] g)
  show ?thesis
  proof (rule exI [of _ H'], intro conjI allI impI ballI H')
    show "hlist_empty h H' = Some (xs = [])" if "listed_at (hlist_spec ops A) h = Some xs" for h xs
      by (rule e [OF rep_hlist [OF H'(2) that]])
    show "\<exists>H''. hlist_for_each_entry_safe (\<lambda>p. hlist_del_init (member_of p off)) h off H' = Some H'' \<and>
      hlist_empty h H'' = Some True" if "listed_at (hlist_spec ops A) h = Some xs" for h xs off
      using d [OF that] by (simp add: hlist_for_each_entry_safe_eq)
  qed (simp_all add: u n d i t c)
qed

lemma hlist_ops_refine_witness:
  "\<exists>H'. hlist_run [HInit 1, HInit 2, HAddHead 5 1, HAddBefore 6 5, HAddAfter 5 7, HDel 5, HInitNode 8, HAddFake 8, HDelInit 8, HMove 1 2]
      \<lparr>hlist_heads = (\<lambda>h. if h < 3 then Some (Some 99) else None),
       hlist_nodes = (\<lambda>n. if n < 9 then Some \<lparr>hnext = Some 99, pprev = Some (Wild 99)\<rparr> else None)\<rparr> = Some H' \<and>
    hlist_for_each (\<lambda>n s. Some (s @ [n])) 2 H' [] = Some [6, 7] \<and> hlist_empty 1 H' = Some True \<and>
    hlist_unhashed 8 H' = Some True \<and>
    hlist_for_each_entry_continue (\<lambda>p s. Some (s @ [p])) 4 H' (hlist_entry 6 4) [] = Some [3]"
proof -
  let ?H = "\<lparr>hlist_heads = (\<lambda>h. if h < 3 then Some (Some 99) else None),
       hlist_nodes = (\<lambda>n. if n < 9 then Some \<lparr>hnext = Some 99, pprev = Some (Wild 99)\<rparr> else None)\<rparr>"
  let ?A = "\<lparr>listed_at = Map.empty, unhashed = {}, faked = {}\<rparr>"
  let ?ops = "[HInit 1, HInit 2, HAddHead 5 1, HAddBefore 6 5, HAddAfter 5 7, HDel 5, HInitNode 8, HAddFake 8, HDelInit 8, HMove 1 2]"
  have r: "hlists_rep ?H ?A" by (simp add: hlists_rep_def hdisjoint_def)
  have u: "on_all f (L(h \<mapsto> xs)) = (on_all f L)(h \<mapsto> f xs)" "on_all f Map.empty = Map.empty" for f L h xs
    by (auto simp: on_all_def)
  have o: "n \<in> on_list (L(h \<mapsto> xs)) \<longleftrightarrow> n \<in> set xs \<or> n \<in> on_list (L(h := None))" "n \<notin> on_list Map.empty" for n L h xs
    unfolding on_list_def by (simp_all, metis)
  have s: "listed_at (hlist_spec ?ops ?A) 2 = Some [6, 7]" "listed_at (hlist_spec ?ops ?A) 1 = Some []"
    "8 \<in> unhashed (hlist_spec ?ops ?A)"
    by (simp_all add: used_def u)
  have ok: "hlist_ops_ok ?H ?A ?ops"
    by (simp add: used_def u o free_node_def dom_def fun_upd_twist)
  have a: "listed_at (hlist_spec ?ops ?A) 2 = Some ([] @ 6 # [7])" using s(1) by simp
  obtain H' where H': "hlist_run ?ops ?H = Some H'" "hlist_for_each (\<lambda>n s. Some (s @ [n])) 2 H' [] = Some [6, 7]"
    "hlist_empty 1 H' = Some ([] = ([] :: addr list))" "hlist_unhashed 8 H' = Some True"
    "hlist_for_each_entry_continue (\<lambda>p s. Some (s @ [p])) 4 H' (hlist_entry 6 4) [] = Some (map (\<lambda>n. hlist_entry n 4) [7])"
    using hlist_ops_refine [OF r ok] s a by blast
  then show ?thesis by (auto simp: hlist_entry_def container_of_def)
qed

end
