(* ===== verification/C_Strings.thy ===== *)
theory C_Strings
  imports Psnet_Prelude
begin

text \<open>
  C character buffers. A buffer is a list of characters; a pointer into a buffer is the suffix
  that starts there, so \<open>msg + k\<close> is \<open>drop k msg\<close>. Reading past the end of a buffer is
  undefined (\<open>None\<close>). A C string is a buffer that holds a NUL. The functions of the C
  library that the program uses are modelled here: \<open>strncmp\<close>, \<open>strtol\<close>,
  \<open>atoi\<close>, \<open>isspace\<close> and the decimal conversion of \<open>printf\<close>.
\<close>

section \<open>Buffers\<close>

abbreviation NUL :: char where "NUL \<equiv> CHR 0x00"
abbreviation QUOTE :: char where "QUOTE \<equiv> CHR 0x22"
abbreviation BACKSLASH :: char where "BACKSLASH \<equiv> CHR 0x5C"
abbreviation TAB :: char where "TAB \<equiv> CHR 0x09"
abbreviation CR :: char where "CR \<equiv> CHR 0x0D"
abbreviation LF :: char where "LF \<equiv> CHR 0x0A"

definition rd :: "char list \<Rightarrow> nat \<Rightarrow> char option" where
  "rd b i = (if i < length b then Some (b ! i) else None)"

definition wr :: "char list \<Rightarrow> nat \<Rightarrow> char \<Rightarrow> char list option" where
  "wr b i c = (if i < length b then Some (b[i := c]) else None)"

text \<open>The pointer \<open>b + k\<close>; undefined outside the buffer.\<close>

definition ptr_at :: "char list \<Rightarrow> int \<Rightarrow> char list option" where
  "ptr_at b k = (if 0 \<le> k \<and> k \<le> int (length b) then Some (drop (nat k) b) else None)"

text \<open>Reads \<open>n\<close> bytes from a pointer.\<close>

definition rd_bytes :: "char list \<Rightarrow> int \<Rightarrow> char list option" where
  "rd_bytes p n = (if 0 \<le> n \<and> n \<le> int (length p) then Some (take (nat n) p) else None)"

text \<open>The value of a (signed) \<open>char\<close>.\<close>

definition schar :: "char \<Rightarrow> int" where
  "schar c = (let n = of_char c in if n < 128 then n else n - 256)"

text \<open>There is a NUL at or after the position.\<close>

definition terminated :: "char list \<Rightarrow> nat \<Rightarrow> bool" where
  "terminated b i \<longleftrightarrow> NUL \<in> set (drop i b)"

text \<open>The C string a pointer points to: everything before the first NUL.\<close>

definition cstr :: "char list \<Rightarrow> string" where
  "cstr b = takeWhile (\<lambda>c. c \<noteq> NUL) b"

section \<open>Comparison\<close>

text \<open>\<open>strncmp (p, key, strlen (key)) == 0\<close> for a string \<open>key\<close> without NUL.\<close>

fun strncmp_eq :: "char list \<Rightarrow> string \<Rightarrow> bool option" where
  "strncmp_eq p [] = Some True"
| "strncmp_eq [] (k # ks) = None"
| "strncmp_eq (c # cs) (k # ks) = (if c = k then strncmp_eq cs ks else Some False)"

section \<open>Numbers\<close>

definition c_isspace :: "char \<Rightarrow> bool" where
  "c_isspace c \<longleftrightarrow> c = CHR '' '' \<or> (9 \<le> (of_char c :: nat) \<and> (of_char c :: nat) \<le> 13)"

definition c_isdigit :: "char \<Rightarrow> bool" where
  "c_isdigit c \<longleftrightarrow> 48 \<le> (of_char c :: nat) \<and> (of_char c :: nat) \<le> 57"

definition digit_val :: "char \<Rightarrow> nat" where
  "digit_val c = of_char c - 48"

fun skip_space :: "char list \<Rightarrow> char list option" where
  "skip_space [] = None"
| "skip_space (c # cs) = (if c_isspace c then skip_space cs else Some (c # cs))"

text \<open>Reads digits; the accumulated value and the pointer to the first other character.\<close>

fun read_digits :: "nat \<Rightarrow> char list \<Rightarrow> (nat \<times> char list) option" where
  "read_digits acc [] = None"
| "read_digits acc (c # cs) =
     (if c_isdigit c then read_digits (10 * acc + digit_val c) cs else Some (acc, c # cs))"

definition LONG_MAX :: int where "LONG_MAX = 2 ^ 63 - 1"
definition LONG_MIN :: int where "LONG_MIN = - (2 ^ 63)"

definition clamp_long :: "int \<Rightarrow> int" where
  "clamp_long n = max LONG_MIN (min LONG_MAX n)"

text \<open>
  \<open>strtol (s, &endptr, 10)\<close>: the value, saturated to the range of \<open>long\<close>, and
  \<open>endptr\<close>, which is \<open>s\<close> itself when there is no number.
\<close>

definition c_strtol :: "char list \<Rightarrow> (int \<times> char list) option" where
  "c_strtol s = do {
     p \<leftarrow> skip_space s;
     let c = hd p;
     let neg = (c = CHR ''-'');
     let q = (if c = CHR ''-'' \<or> c = CHR ''+'' then tl p else p);
     d \<leftarrow> rd q 0;
     if \<not> c_isdigit d then Some (0, s)
     else do {
       (n, e) \<leftarrow> read_digits 0 q;
       Some (clamp_long (if neg then - int n else int n), e)
     }
   }"

text \<open>Conversion of a \<open>long\<close> to \<open>int\<close> keeps the low 32 bits.\<close>

definition int_of_long :: "int \<Rightarrow> int" where
  "int_of_long n = (n + 2 ^ 31) mod 2 ^ 32 - 2 ^ 31"

definition c_atoi :: "char list \<Rightarrow> int option" where
  "c_atoi s = map_option (\<lambda>r. int_of_long (fst r)) (c_strtol s)"

text \<open>The conversion \<open>%d\<close> (also \<open>%lu\<close>) of a number that is not negative.\<close>

definition digit_char :: "nat \<Rightarrow> char" where
  "digit_char d = char_of (48 + d)"

fun dec :: "nat \<Rightarrow> string" where
  "dec n = (if n < 10 then [digit_char n] else dec (n div 10) @ [digit_char (n mod 10)])"

declare dec.simps [simp del]

definition dec_int :: "int \<Rightarrow> string" where
  "dec_int n = (if n < 0 then CHR ''-'' # dec (nat (- n)) else dec (nat n))"

section \<open>Lemmas\<close>

lemma rd_Some_iff [buf_simps]: "rd b i = Some c \<longleftrightarrow> i < length b \<and> b ! i = c"
  by (auto simp: rd_def)

lemma rd_append [buf_simps]: "rd (pre @ c # post) (length pre) = Some c"
  by (simp add: rd_def)

lemma rd_Cons_0 [simp]: "rd (c # cs) 0 = Some c"
  by (simp add: rd_def)

lemma digit_chars:
  "digit_char 0 = CHR ''0''" "digit_char (Suc 0) = CHR ''1''" "digit_char 1 = CHR ''1''" "digit_char 2 = CHR ''2''"
  "digit_char 3 = CHR ''3''" "digit_char 4 = CHR ''4''" "digit_char 5 = CHR ''5''" "digit_char 6 = CHR ''6''"
  "digit_char 7 = CHR ''7''" "digit_char 8 = CHR ''8''" "digit_char 9 = CHR ''9''"
  by code_simp+

lemma digit_char_digit [simp]: "d < 10 \<Longrightarrow> c_isdigit (digit_char d)"
  by (simp add: digit_char_def c_isdigit_def)

lemma digit_val_char [simp]: "d < 10 \<Longrightarrow> digit_val (digit_char d) = d"
  by (simp add: digit_char_def digit_val_def)

lemma read_digits_append:
  assumes "\<forall>c \<in> set ds. c_isdigit c"
  shows "read_digits acc (ds @ cs) = read_digits (foldl (\<lambda>a c. 10 * a + digit_val c) acc ds) cs"
  using assms by (induction ds arbitrary: acc) auto

lemma dec_digits: "\<forall>c \<in> set (dec n). c_isdigit c"
proof (induction n rule: dec.induct)
  case (1 n)
  then show ?case by (cases "n < 10") (auto simp: dec.simps [of n])
qed

lemma dec_value: "foldl (\<lambda>a c. 10 * a + digit_val c) 0 (dec n) = n"
proof (induction n rule: dec.induct)
  case (1 n)
  then show ?case by (cases "n < 10") (auto simp: dec.simps [of n])
qed

lemma dec_nonempty: "dec n \<noteq> []"
  by (subst dec.simps) simp

lemma dec_length_le: "n < 10 ^ k \<Longrightarrow> 0 < k \<Longrightarrow> length (dec n) \<le> k"
proof (induction n arbitrary: k rule: dec.induct)
  case (1 n)
  show ?case
  proof (cases "n < 10")
    case True
    then show ?thesis using 1 by (simp add: dec.simps [of n])
  next
    case False
    obtain j where j: "k = Suc j" using 1(3) by (cases k) auto
    have "0 < j" using 1(2) j False by (cases j) auto
    note k = j this
    have "n div 10 < 10 ^ j" using 1(2) k by (simp add: less_mult_imp_div_less mult.commute)
    then show ?thesis using 1(1) [OF False, of j] k False by (simp add: dec.simps [of n])
  qed
qed

lemma digits_bound:
  "\<forall>c \<in> set ds. c_isdigit c \<Longrightarrow> foldl (\<lambda>a c. 10 * a + digit_val c) acc ds < (acc + 1) * 10 ^ length ds"
proof (induction ds arbitrary: acc)
  case (Cons c ds)
  then have "foldl (\<lambda>a c. 10 * a + digit_val c) acc (c # ds) < (10 * acc + digit_val c + 1) * 10 ^ length ds" by simp
  moreover have "digit_val c < 10" using Cons.prems by (auto simp: digit_val_def c_isdigit_def)
  then have "(10 * acc + digit_val c + 1) * 10 ^ length ds \<le> ((acc + 1) * 10) * 10 ^ length ds"
    by (intro mult_right_mono) simp_all
  moreover have "((acc + 1) * 10) * 10 ^ length ds = (acc + 1) * 10 ^ length (c # ds)" by (simp add: algebra_simps)
  ultimately show ?case by linarith
qed simp

lemma dec_length_ge: "10 ^ k \<le> n \<Longrightarrow> k < length (dec n)"
proof -
  assume "10 ^ k \<le> n"
  also have "n < 10 ^ length (dec n)"
    using digits_bound [OF dec_digits, of 0 n] dec_value [of n] by simp
  finally show ?thesis by simp
qed

text \<open>Reading back a printed number.\<close>

lemma c_isdigit_not [simp]: "c_isdigit c \<Longrightarrow> \<not> c_isspace c \<and> c \<noteq> CHR ''-'' \<and> c \<noteq> CHR ''+'' \<and> c \<noteq> NUL"
  by (auto simp: c_isdigit_def c_isspace_def)

lemma c_strtol_dec:
  assumes "int n \<le> LONG_MAX" and "\<not> c_isdigit c"
  shows "c_strtol (dec n @ c # cs) = Some (int n, c # cs)"
proof -
  obtain d ds where ds: "dec n = d # ds" using dec_nonempty [of n] by (cases "dec n") auto
  have d: "c_isdigit d" using dec_digits [of n] ds by simp
  have "read_digits 0 (dec n @ c # cs) = Some (n, c # cs)"
    using assms(2) dec_value [of n] by (simp add: read_digits_append dec_digits)
  moreover have "clamp_long (int n) = int n"
    using assms(1) by (simp add: clamp_long_def LONG_MIN_def)
  ultimately show ?thesis using d c_isdigit_not [OF d] by (simp add: c_strtol_def ds Let_def)
qed

lemma strncmp_eq_take:
  "length k \<le> length p \<Longrightarrow> strncmp_eq p k = Some (take (length k) p = k)"
  by (induction p k rule: strncmp_eq.induct) auto

lemma strncmp_eq_terminated:
  "NUL \<in> set p \<Longrightarrow> NUL \<notin> set k \<Longrightarrow> \<exists>b. strncmp_eq p k = Some b"
  by (induction p k rule: strncmp_eq.induct) auto

lemma strncmp_eq_same: "strncmp_eq (k @ p) k = Some True"
  by (induction k) auto

section \<open>Numbers in arbitrary text\<close>

lemma skip_space_total: "NUL \<in> set s \<Longrightarrow> \<exists>c p. skip_space s = Some (c # p) \<and> NUL \<in> set (c # p)"
  by (induction s) (auto simp: c_isspace_def)

lemma read_digits_total: "NUL \<in> set s \<Longrightarrow> \<exists>n c e. read_digits a s = Some (n, c # e)"
  by (induction a s rule: read_digits.induct) (auto simp: c_isdigit_def)

lemma c_strtol_total:
  assumes "NUL \<in> set s"
  shows "\<exists>v c e. c_strtol s = Some (v, c # e)"
proof -
  obtain c p where p: "skip_space s = Some (c # p)" "NUL \<in> set (c # p)" using skip_space_total [OF assms] by blast
  define q where "q = (if c = CHR ''-'' \<or> c = CHR ''+'' then p else c # p)"
  have q: "NUL \<in> set q" using p(2) by (auto simp: q_def split: if_splits)
  then obtain d r where d: "q = d # r" by (cases q) auto
  obtain c' s' where s': "s = c' # s'" using assms by (cases s) auto
  obtain n c'' e where n: "read_digits 0 q = Some (n, c'' # e)" using read_digits_total [OF q] by blast
  have "c_strtol s = do { d \<leftarrow> rd q 0; if \<not> c_isdigit d then Some (0, s)
      else do { (n, e) \<leftarrow> read_digits 0 q; Some (clamp_long (if c = CHR ''-'' then - int n else int n), e) } }"
    unfolding c_strtol_def q_def using p(1) by (simp add: Let_def cong: if_cong)
  then show ?thesis using d n s' by (cases "c_isdigit d") (auto simp: rd_def)
qed

end
