(* ===== verification/Jsmn.thy ===== *)
theory Jsmn
  imports C_Strings
begin

text \<open>
  The JSON tokenizer of \<^verbatim>\<open>src/common/jsmn.c\<close>, as it is compiled for psnet: neither
  \<open>JSMN_STRICT\<close> nor \<open>JSMN_PARENT_LINKS\<close> is defined in that translation unit. The
  tokens are the caller's array, a list of fixed length whose unused elements hold whatever
  was there before. Offsets and counts are bounded by the length of a message buffer, so they
  are natural numbers and integers without wrap-around.
\<close>

section \<open>Data\<close>

datatype jsmntype_t = JSMN_PRIMITIVE | JSMN_OBJECT | JSMN_ARRAY | JSMN_STRING

datatype jsmnerr_t = JSMN_ERROR_NOMEM | JSMN_ERROR_INVAL | JSMN_ERROR_PART | JSMN_SUCCESS

record jsmntok_t =
  tok_type :: jsmntype_t
  tok_start :: int
  tok_end :: int
  tok_size :: int

text \<open>\<open>pos\<close> and \<open>toknext\<close> have the type \<open>unsigned int\<close>, \<open>toksuper\<close> and the members of a token the type \<open>int\<close>. A position never leaves the
  string and its NUL, so for buffers of at most \<open>2 ^ 31\<close> characters the mathematical numbers are the ones of the code; all
  buffers of the program have 512 bytes, or the length of a response.\<close>

record jsmn_parser =
  pos :: nat
  toknext :: nat
  toksuper :: int

definition rd_tok :: "jsmntok_t list \<Rightarrow> nat \<Rightarrow> jsmntok_t option" where
  "rd_tok toks i = (if i < length toks then Some (toks ! i) else None)"

definition upd_tok :: "nat \<Rightarrow> (jsmntok_t \<Rightarrow> jsmntok_t) \<Rightarrow> jsmntok_t list \<Rightarrow> jsmntok_t list option" where
  "upd_tok i f toks = (if i < length toks then Some (toks[i := f (toks ! i)]) else None)"

section \<open>Tokenizer\<close>

text \<open>A fresh token (its index), or NULL when the array is used up.\<close>

definition jsmn_alloc_token ::
  "jsmn_parser \<Rightarrow> jsmntok_t list \<Rightarrow> nat \<Rightarrow> (nat option \<times> jsmn_parser \<times> jsmntok_t list) option" where
  "jsmn_alloc_token p toks num =
     (if num \<le> toknext p then Some (None, p, toks)
      else do {
        let i = toknext p;
        toks \<leftarrow> upd_tok i (\<lambda>t. t\<lparr>tok_start := -1, tok_end := -1, tok_size := 0\<rparr>) toks;
        Some (Some i, p\<lparr>toknext := i + 1\<rparr>, toks)
      })"

definition jsmn_fill_token :: "jsmntype_t \<Rightarrow> int \<Rightarrow> int \<Rightarrow> jsmntok_t \<Rightarrow> jsmntok_t" where
  "jsmn_fill_token type start end t =
     t\<lparr>tok_type := type, tok_start := start, tok_end := end, tok_size := 0\<rparr>"

definition prim_stop :: "char \<Rightarrow> bool" where
  "prim_stop c \<longleftrightarrow> c \<in> {CHR '':'', TAB, CR, LF, CHR '' '', CHR '','', CHR '']'', CHR ''}''}"

text \<open>The scan of a primitive: the end position, or an invalid character (\<open>Some None\<close>).\<close>

fun prim_scan :: "char list \<Rightarrow> nat \<Rightarrow> nat option option" where
  "prim_scan [] i = None"
| "prim_scan (c # cs) i =
     (if c = NUL then Some (Some i)
      else if prim_stop c then Some (Some i)
      else if schar c < 32 \<or> 127 \<le> schar c then Some None
      else prim_scan cs (i + 1))"

definition jsmn_parse_primitive ::
  "jsmn_parser \<Rightarrow> char list \<Rightarrow> jsmntok_t list \<Rightarrow> nat \<Rightarrow>
   (jsmnerr_t \<times> jsmn_parser \<times> jsmntok_t list) option" where
  "jsmn_parse_primitive p js toks num = do {
     let start = pos p;
     r \<leftarrow> prim_scan (drop start js) start;
     (case r of
        None \<Rightarrow> Some (JSMN_ERROR_INVAL, p\<lparr>pos := start\<rparr>, toks)
      | Some e \<Rightarrow> do {
          (tk, p, toks) \<leftarrow> jsmn_alloc_token (p\<lparr>pos := e\<rparr>) toks num;
          (case tk of
             None \<Rightarrow> Some (JSMN_ERROR_NOMEM, p\<lparr>pos := start\<rparr>, toks)
           | Some i \<Rightarrow> do {
               toks \<leftarrow> upd_tok i (jsmn_fill_token JSMN_PRIMITIVE (int start) (int (pos p))) toks;
               Some (JSMN_SUCCESS, p\<lparr>pos := pos p - 1\<rparr>, toks)
             })
        })
   }"

datatype str_end = StrEnd nat | StrInval | StrPart

definition escape_ok :: "char \<Rightarrow> bool" where
  "escape_ok c \<longleftrightarrow> c \<in> {QUOTE, CHR ''/'', BACKSLASH, CHR ''b'', CHR ''f'', CHR ''r'', CHR ''n'', CHR ''t'', CHR ''u''}"

text \<open>The scan of a string, from the character after the opening quote.\<close>

fun str_scan :: "char list \<Rightarrow> nat \<Rightarrow> str_end option" where
  "str_scan [] i = None"
| "str_scan (c # cs) i =
     (if c = NUL then Some StrPart
      else if c = QUOTE then Some (StrEnd i)
      else if c = BACKSLASH then
        (case cs of
           [] \<Rightarrow> None
         | e # cs' \<Rightarrow> if escape_ok e then str_scan cs' (i + 2) else Some StrInval)
      else str_scan cs (i + 1))"

definition jsmn_parse_string ::
  "jsmn_parser \<Rightarrow> char list \<Rightarrow> jsmntok_t list \<Rightarrow> nat \<Rightarrow>
   (jsmnerr_t \<times> jsmn_parser \<times> jsmntok_t list) option" where
  "jsmn_parse_string p js toks num = do {
     let start = pos p;
     r \<leftarrow> str_scan (drop (start + 1) js) (start + 1);
     (case r of
        StrInval \<Rightarrow> Some (JSMN_ERROR_INVAL, p\<lparr>pos := start\<rparr>, toks)
      | StrPart \<Rightarrow> Some (JSMN_ERROR_PART, p\<lparr>pos := start\<rparr>, toks)
      | StrEnd e \<Rightarrow> do {
          (tk, p, toks) \<leftarrow> jsmn_alloc_token (p\<lparr>pos := e\<rparr>) toks num;
          (case tk of
             None \<Rightarrow> Some (JSMN_ERROR_NOMEM, p\<lparr>pos := start\<rparr>, toks)
           | Some i \<Rightarrow> do {
               toks \<leftarrow> upd_tok i (jsmn_fill_token JSMN_STRING (int (start + 1)) (int (pos p))) toks;
               Some (JSMN_SUCCESS, p, toks)
             })
        })
   }"

definition tok_open :: "jsmntok_t \<Rightarrow> bool" where
  "tok_open t \<longleftrightarrow> tok_start t \<noteq> -1 \<and> tok_end t = -1"

text \<open>The backward search for an open object or array, from index \<open>i - 1\<close> down to 0.\<close>

fun find_open :: "jsmntok_t list \<Rightarrow> nat \<Rightarrow> nat option option" where
  "find_open toks 0 = Some None"
| "find_open toks (Suc i) = do {
     t \<leftarrow> rd_tok toks i;
     if tok_open t then Some (Some i) else find_open toks i
   }"

text \<open>\<open>if (parser->toksuper != -1) tokens[parser->toksuper].size++\<close>.\<close>

definition bump_super :: "jsmn_parser \<Rightarrow> jsmntok_t list \<Rightarrow> jsmntok_t list option" where
  "bump_super p toks =
     (if toksuper p \<noteq> -1 then upd_tok (nat (toksuper p)) (\<lambda>t. t\<lparr>tok_size := tok_size t + 1\<rparr>) toks
      else Some toks)"

definition jsmn_open ::
  "char \<Rightarrow> nat \<Rightarrow> jsmn_parser \<Rightarrow> jsmntok_t list \<Rightarrow> (jsmnerr_t \<times> jsmn_parser \<times> jsmntok_t list) option" where
  "jsmn_open c num p toks = do {
     (tk, p, toks) \<leftarrow> jsmn_alloc_token p toks num;
     (case tk of
        None \<Rightarrow> Some (JSMN_ERROR_NOMEM, p, toks)
      | Some i \<Rightarrow> do {
          toks \<leftarrow> bump_super p toks;
          toks \<leftarrow> upd_tok i (\<lambda>t. t\<lparr>tok_type := (if c = CHR ''{'' then JSMN_OBJECT else JSMN_ARRAY),
                                     tok_start := int (pos p)\<rparr>) toks;
          Some (JSMN_SUCCESS, p\<lparr>toksuper := int (toknext p) - 1\<rparr>, toks)
        })
   }"

definition jsmn_close ::
  "char \<Rightarrow> jsmn_parser \<Rightarrow> jsmntok_t list \<Rightarrow> (jsmnerr_t \<times> jsmn_parser \<times> jsmntok_t list) option" where
  "jsmn_close c p toks = do {
     let type = (if c = CHR ''}'' then JSMN_OBJECT else JSMN_ARRAY);
     r \<leftarrow> find_open toks (toknext p);
     (case r of
        None \<Rightarrow> Some (JSMN_ERROR_INVAL, p, toks)
      | Some i \<Rightarrow> do {
          t \<leftarrow> rd_tok toks i;
          if tok_type t \<noteq> type then Some (JSMN_ERROR_INVAL, p, toks)
          else do {
            let p = p\<lparr>toksuper := -1\<rparr>;
            toks \<leftarrow> upd_tok i (\<lambda>t. t\<lparr>tok_end := int (pos p) + 1\<rparr>) toks;
            s \<leftarrow> find_open toks (i + 1);
            Some (JSMN_SUCCESS, (case s of None \<Rightarrow> p | Some j \<Rightarrow> p\<lparr>toksuper := int j\<rparr>), toks)
          }
        })
   }"

definition sep_char :: "char \<Rightarrow> bool" where
  "sep_char c \<longleftrightarrow> c \<in> {TAB, CR, LF, CHR '':'', CHR '','', CHR '' ''}"

text \<open>The body of the loop of \<open>jsmn_parse\<close>: the \<open>switch\<close> on the character.\<close>

definition jsmn_char ::
  "char list \<Rightarrow> nat \<Rightarrow> char \<Rightarrow> jsmn_parser \<Rightarrow> jsmntok_t list \<Rightarrow>
   (jsmnerr_t \<times> jsmn_parser \<times> jsmntok_t list) option" where
  "jsmn_char js num c p toks =
     (if c = CHR ''{'' \<or> c = CHR ''['' then jsmn_open c num p toks
      else if c = CHR ''}'' \<or> c = CHR '']'' then jsmn_close c p toks
      else if c = QUOTE then do {
        (r, p, toks) \<leftarrow> jsmn_parse_string p js toks num;
        if r \<noteq> JSMN_SUCCESS then Some (r, p, toks)
        else do { toks \<leftarrow> bump_super p toks; Some (JSMN_SUCCESS, p, toks) }
      }
      else if sep_char c then Some (JSMN_SUCCESS, p, toks)
      else do {
        (r, p, toks) \<leftarrow> jsmn_parse_primitive p js toks num;
        if r \<noteq> JSMN_SUCCESS then Some (r, p, toks)
        else do { toks \<leftarrow> bump_super p toks; Some (JSMN_SUCCESS, p, toks) }
      })"

partial_function (option) jsmn_parse_loop ::
  "char list \<Rightarrow> nat \<Rightarrow> jsmn_parser \<Rightarrow> jsmntok_t list \<Rightarrow> (jsmnerr_t \<times> jsmn_parser \<times> jsmntok_t list) option" where
  "jsmn_parse_loop js num p toks = do {
     c \<leftarrow> rd js (pos p);
     if c = NUL then Some (JSMN_SUCCESS, p, toks)
     else do {
       (r, p, toks) \<leftarrow> jsmn_char js num c p toks;
       if r \<noteq> JSMN_SUCCESS then Some (r, p, toks)
       else jsmn_parse_loop js num (p\<lparr>pos := pos p + 1\<rparr>) toks
     }
   }"

definition jsmn_parse ::
  "jsmn_parser \<Rightarrow> char list \<Rightarrow> jsmntok_t list \<Rightarrow> nat \<Rightarrow>
   (jsmnerr_t \<times> jsmn_parser \<times> jsmntok_t list) option" where
  "jsmn_parse p js toks num = do {
     (r, p, toks) \<leftarrow> jsmn_parse_loop js num p toks;
     if r \<noteq> JSMN_SUCCESS then Some (r, p, toks)
     else do {
       u \<leftarrow> find_open toks (toknext p);
       Some (case u of None \<Rightarrow> JSMN_SUCCESS | Some _ \<Rightarrow> JSMN_ERROR_PART, p, toks)
     }
   }"

definition jsmn_init :: jsmn_parser where
  "jsmn_init = \<lparr>pos = 0, toknext = 0, toksuper = -1\<rparr>"

section \<open>Lookup in a token array\<close>

text \<open>
  The additions of psnet. An object is a pointer into the token array, so \<open>obj[i]\<close> is
  element \<open>i\<close> of the suffix that starts at the object.
\<close>

definition jsmn_toklen :: "jsmntok_t \<Rightarrow> int" where
  "jsmn_toklen t = tok_end t - tok_start t"

text \<open>Skips one value: \<open>for (end = 1; end; i++, end--)\<close>.\<close>

partial_function (option) skip_value ::
  "jsmntok_t list \<Rightarrow> nat \<Rightarrow> int \<Rightarrow> int \<Rightarrow> (nat \<times> int) option" where
  "skip_value obj i end ntok =
     (if end = 0 then Some (i, ntok)
      else do {
        t \<leftarrow> rd_tok obj i;
        skip_value obj (i + 1) (end + tok_size t - 1) (ntok + tok_size t)
      })"

partial_function (option) get_value_loop ::
  "char list \<Rightarrow> jsmntok_t list \<Rightarrow> string \<Rightarrow> nat \<Rightarrow> int \<Rightarrow> int option" where
  "get_value_loop msg obj key i ntok =
     (if int i + 1 < ntok then do {
        k \<leftarrow> rd_tok obj i;
        if tok_type k \<noteq> JSMN_STRING then Some (-1)
        else do {
          p \<leftarrow> ptr_at msg (tok_start k);
          eq \<leftarrow> strncmp_eq p key;
          if eq then Some (int i + 1)
          else do {
            v \<leftarrow> rd_tok obj (i + 1);
            if tok_type v = JSMN_OBJECT \<or> tok_type v = JSMN_ARRAY then do {
              (j, ntok) \<leftarrow> skip_value obj (i + 1) 1 ntok;
              get_value_loop msg obj key (j - 1 + 1) ntok
            }
            else get_value_loop msg obj key (i + 1 + 1) ntok
          }
        }
      }
      else Some (-1))"

definition jsmn_get_value :: "char list \<Rightarrow> jsmntok_t list \<Rightarrow> string \<Rightarrow> int option" where
  "jsmn_get_value msg obj key = do {
     t \<leftarrow> rd_tok obj 0;
     get_value_loop msg obj key 1 (tok_size t + 1)
   }"

text \<open>The variadic lookup: the index (or -1) for each key, and -1 if one of them is missing.\<close>

fun jsmn_get_values :: "char list \<Rightarrow> jsmntok_t list \<Rightarrow> string list \<Rightarrow> (int \<times> int list) option" where
  "jsmn_get_values msg obj [] = Some (0, [])"
| "jsmn_get_values msg obj (key # keys) = do {
     i \<leftarrow> jsmn_get_value msg obj key;
     (rc, is) \<leftarrow> jsmn_get_values msg obj keys;
     Some (if i = -1 then -1 else rc, i # is)
   }"

definition jsmn_tokdup :: "char list \<Rightarrow> jsmntok_t \<Rightarrow> char list option" where
  "jsmn_tokdup msg t = do {
     p \<leftarrow> ptr_at msg (tok_start t);
     s \<leftarrow> rd_bytes p (jsmn_toklen t);
     Some (s @ [NUL])
   }"

definition jsmn_tokeq :: "char list \<Rightarrow> jsmntok_t \<Rightarrow> string \<Rightarrow> bool option" where
  "jsmn_tokeq msg t str =
     (if jsmn_toklen t \<noteq> int (length str) then Some False
      else do { p \<leftarrow> ptr_at msg (tok_start t); strncmp_eq p str })"

declare jsmn_parse_loop.simps [code] skip_value.simps [code] get_value_loop.simps [code]

end
