(* ===== verification/Jsmn_Safety.thy ===== *)
theory Jsmn_Safety
  imports Jsmn
begin

text \<open>
  Memory safety and termination of the tokenizer: on every NUL-terminated buffer it returns
  without reading outside the buffer or the token array, and the tokens it reports lie inside
  the string.
\<close>

section \<open>Positions in a C string\<close>

definition slen :: "char list \<Rightarrow> nat" where
  "slen b = length (cstr b)"

lemma slen_Cons [simp]: "slen (c # cs) = (if c = NUL then 0 else Suc (slen cs))"
  by (simp add: slen_def cstr_def)

lemma slen_Nil [simp]: "slen [] = 0"
  by (simp add: slen_def cstr_def)

lemma slen_less: "NUL \<in> set b \<Longrightarrow> slen b < length b"
  unfolding slen_def cstr_def by (induction b) auto

lemma nth_slen: "NUL \<in> set b \<Longrightarrow> b ! slen b = NUL"
  unfolding slen_def cstr_def by (induction b) auto

lemma nth_before_slen: "i < slen b \<Longrightarrow> b ! i \<noteq> NUL"
proof (induction b arbitrary: i)
  case (Cons c b)
  then show ?case by (cases i) (simp_all split: if_splits)
qed simp

lemma slen_drop: "i \<le> slen b \<Longrightarrow> slen (drop i b) = slen b - i"
proof (induction b arbitrary: i)
  case (Cons c b)
  then show ?case by (cases i) (simp_all split: if_splits)
qed simp

lemma NUL_in_drop: "NUL \<in> set b \<Longrightarrow> i \<le> slen b \<Longrightarrow> NUL \<in> set (drop i b)"
proof -
  assume b: "NUL \<in> set b" and i: "i \<le> slen b"
  then have "drop i b ! (slen b - i) = NUL" "slen b - i < length (drop i b)"
    using nth_slen [OF b] slen_less [OF b] by simp_all
  then show ?thesis by (metis nth_mem)
qed

section \<open>Scans\<close>

lemma prim_scan_ok:
  "NUL \<in> set cs \<Longrightarrow> \<exists>r. prim_scan cs i = Some r \<and> (\<forall>e. r = Some e \<longrightarrow> i \<le> e \<and> e \<le> i + slen cs)"
proof (induction cs i rule: prim_scan.induct)
  case (2 c cs i)
  show ?case
  proof (cases "c = NUL \<or> prim_stop c \<or> schar c < 32 \<or> 127 \<le> schar c")
    case False
    then have "NUL \<in> set cs" using 2(2) by auto
    then show ?thesis using 2(1) False by fastforce
  qed auto
qed simp

lemma prim_scan_progress:
  assumes "prim_scan (c # cs) i = Some (Some e)" and "c \<noteq> NUL" and "\<not> prim_stop c"
  shows "i < e"
proof -
  have "prim_scan cs j = Some (Some e) \<Longrightarrow> j \<le> e" for j
    by (induction cs j rule: prim_scan.induct) (auto split: if_splits)
  then show ?thesis using assms by (force split: if_splits)
qed

lemma str_scan_ok:
  "NUL \<in> set cs \<Longrightarrow> \<exists>r. str_scan cs i = Some r \<and> (\<forall>e. r = StrEnd e \<longrightarrow> i \<le> e \<and> e < i + slen cs)"
proof (induction cs i rule: str_scan.induct)
  case (2 c cs i)
  consider "c = NUL" | "c = QUOTE" | "c = BACKSLASH" | "c \<noteq> NUL" "c \<noteq> QUOTE" "c \<noteq> BACKSLASH" by blast
  then show ?case
  proof cases
    case 3
    then obtain e cs' where cs: "cs = e # cs'" using 2(3) by (cases cs) auto
    show ?thesis
    proof (cases "escape_ok e")
      case True
      then have ne: "e \<noteq> NUL" by (auto simp: escape_ok_def)
      then have "NUL \<in> set cs'" using 2(3) 3 cs by auto
      then show ?thesis using 2(1) 3 cs True ne by fastforce
    qed (use 3 cs in simp)
  next
    case 4
    then have "NUL \<in> set cs" using 2(3) by auto
    then show ?thesis using 2(2) 4 by fastforce
  qed auto
qed simp

section \<open>The parser state\<close>

definition tok_wf :: "char list \<Rightarrow> jsmntok_t \<Rightarrow> bool" where
  "tok_wf js t \<longleftrightarrow> 0 \<le> tok_start t \<and> tok_start t \<le> int (slen js) \<and> 0 \<le> tok_size t \<and>
     (tok_end t = -1 \<or> tok_start t \<le> tok_end t \<and> tok_end t \<le> int (slen js))"

definition ps_ok :: "char list \<Rightarrow> nat \<Rightarrow> jsmn_parser \<Rightarrow> jsmntok_t list \<Rightarrow> bool" where
  "ps_ok js num p toks \<longleftrightarrow> num \<le> length toks \<and> toknext p \<le> num \<and>
     (toksuper p = -1 \<or> 0 \<le> toksuper p \<and> toksuper p < int (toknext p)) \<and>
     (\<forall>i < toknext p. tok_wf js (toks ! i) \<and> tok_start (toks ! i) \<le> int (pos p))"

lemma upd_tok_Some: "i < length toks \<Longrightarrow> upd_tok i f toks = Some (toks[i := f (toks ! i)])"
  by (simp add: upd_tok_def)

lemma tok_start_fill [simp]: "tok_start (jsmn_fill_token ty a b t) = a"
  by (simp add: jsmn_fill_token_def)

lemma find_open_ok:
  assumes "k \<le> length toks"
  shows "\<exists>r. find_open toks k = Some r \<and>
    (case r of None \<Rightarrow> \<forall>i < k. \<not> tok_open (toks ! i) | Some i \<Rightarrow> i < k \<and> tok_open (toks ! i))"
  using assms by (induction k) (auto simp: rd_tok_def less_Suc_eq split: option.splits)

lemma bump_super_ok:
  assumes "ps_ok js num p toks"
  obtains toks' where "bump_super p toks = Some toks'" and "ps_ok js num p toks'"
    and "length toks' = length toks"
proof (cases "toksuper p = -1")
  case True
  with assms show ?thesis by (intro that [of toks]) (simp_all add: bump_super_def)
next
  case False
  let ?s = "nat (toksuper p)"
  let ?toks = "toks[?s := (toks ! ?s)\<lparr>tok_size := tok_size (toks ! ?s) + 1\<rparr>]"
  have s: "?s < toknext p" "?s < length toks" using assms False by (auto simp: ps_ok_def)
  then have "bump_super p toks = Some ?toks" using False by (simp add: bump_super_def upd_tok_Some)
  moreover have "ps_ok js num p ?toks"
    using assms s by (auto simp: ps_ok_def tok_wf_def nth_list_update)
  ultimately show ?thesis by (intro that [of ?toks]) simp_all
qed

lemma jsmn_alloc_ok:
  assumes "ps_ok js num p toks" and "toknext p < num"
  shows "jsmn_alloc_token p toks num =
    Some (Some (toknext p), p\<lparr>toknext := toknext p + 1\<rparr>,
      toks[toknext p := (toks ! toknext p)\<lparr>tok_start := -1, tok_end := -1, tok_size := 0\<rparr>])"
  using assms by (simp add: jsmn_alloc_token_def ps_ok_def upd_tok_Some Let_def)

lemma ps_ok_push:
  assumes "ps_ok js num p toks" and "toknext p < num" and "tok_wf js t"
    and "toksuper p' = toksuper p \<or> toksuper p' = int (toknext p)" and "toknext p' = toknext p + 1"
    and "pos p \<le> pos p'" and "tok_start t \<le> int (pos p')"
  shows "ps_ok js num p' (toks[toknext p := t])"
proof -
  have "i < toknext p' \<Longrightarrow> i = toknext p \<or> i < toknext p" for i using assms(5) by auto
  then show ?thesis using assms by (auto simp: ps_ok_def nth_list_update) force+
qed

text \<open>The outcome of one case of the \<open>switch\<close>: defined, and progress on success.\<close>

definition step_ok :: "char list \<Rightarrow> nat \<Rightarrow> jsmn_parser \<Rightarrow> jsmntok_t list \<Rightarrow>
    (jsmnerr_t \<times> jsmn_parser \<times> jsmntok_t list) option \<Rightarrow> bool" where
  "step_ok js num p toks res \<longleftrightarrow> (\<exists>r p' toks'. res = Some (r, p', toks') \<and> length toks' = length toks \<and>
     (r = JSMN_SUCCESS \<longrightarrow> ps_ok js num p' toks' \<and> pos p \<le> pos p' \<and> pos p' < slen js))"

lemma jsmn_parse_string_ok:
  assumes nul: "NUL \<in> set js" and ok: "ps_ok js num p toks" and lt: "pos p < slen js"
  shows "step_ok js num p toks (jsmn_parse_string p js toks num)"
proof -
  have "NUL \<in> set (drop (pos p + 1) js)" using nul lt by (intro NUL_in_drop) simp_all
  then obtain r where r: "str_scan (drop (pos p + 1) js) (pos p + 1) = Some r"
    and e: "\<forall>e. r = StrEnd e \<longrightarrow> pos p + 1 \<le> e \<and> e < pos p + 1 + slen (drop (pos p + 1) js)"
    using str_scan_ok by blast
  show ?thesis
  proof (cases r)
    case (StrEnd e')
    then have e': "pos p + 1 \<le> e'" "e' < slen js" using e lt by (simp_all add: slen_drop)
    show ?thesis
    proof (cases "toknext p < num")
      case True
      let ?p = "p\<lparr>pos := e', toknext := toknext p + 1\<rparr>"
      have len: "toknext p < length toks" using ok True by (simp add: ps_ok_def)
      have wf: "tok_wf js (jsmn_fill_token JSMN_STRING (int (pos p + 1)) (int e') t)" for t
        using e' by (simp add: tok_wf_def jsmn_fill_token_def)
      have "ps_ok js num (p\<lparr>pos := e'\<rparr>) toks" using ok e' by (fastforce simp: ps_ok_def)
      from jsmn_alloc_ok [OF this] show ?thesis
        using r StrEnd True len e' ps_ok_push [OF ok True wf, of ?p]
        by (auto simp: jsmn_parse_string_def step_ok_def Let_def upd_tok_Some)
    qed (use r StrEnd in \<open>simp add: jsmn_parse_string_def step_ok_def Let_def jsmn_alloc_token_def\<close>)
  qed (use r in \<open>simp_all add: jsmn_parse_string_def step_ok_def Let_def\<close>)
qed

lemma jsmn_parse_primitive_ok:
  assumes nul: "NUL \<in> set js" and ok: "ps_ok js num p toks" and lt: "pos p < slen js"
    and c: "\<not> prim_stop (js ! pos p)"
  shows "step_ok js num p toks (jsmn_parse_primitive p js toks num)"
proof -
  have "NUL \<in> set (drop (pos p) js)" using nul lt by (intro NUL_in_drop) simp_all
  then obtain r where r: "prim_scan (drop (pos p) js) (pos p) = Some r"
    and e: "\<forall>e. r = Some e \<longrightarrow> pos p \<le> e \<and> e \<le> pos p + slen (drop (pos p) js)"
    using prim_scan_ok by blast
  show ?thesis
  proof (cases r)
    case (Some e')
    have "drop (pos p) js = js ! pos p # drop (Suc (pos p)) js"
      using lt slen_less [OF nul] by (simp add: Cons_nth_drop_Suc)
    then have pr: "pos p < e'"
      using prim_scan_progress [of "js ! pos p" "drop (Suc (pos p)) js" "pos p" e'] r Some c
        nth_before_slen [OF lt] by simp
    have e': "e' \<le> slen js" using e lt Some by (simp add: slen_drop)
    show ?thesis
    proof (cases "toknext p < num")
      case True
      let ?p = "p\<lparr>toknext := toknext p + 1, pos := e' - 1\<rparr>"
      have len: "toknext p < length toks" using ok True by (simp add: ps_ok_def)
      have wf: "tok_wf js (jsmn_fill_token JSMN_PRIMITIVE (int (pos p)) (int e') t)" for t
        using e' pr by (simp add: tok_wf_def jsmn_fill_token_def)
      have "ps_ok js num (p\<lparr>pos := e'\<rparr>) toks" using ok e' pr by (fastforce simp: ps_ok_def)
      from jsmn_alloc_ok [OF this] show ?thesis
        using r Some True len e' pr ps_ok_push [OF ok True wf, of ?p]
        by (auto simp: jsmn_parse_primitive_def step_ok_def Let_def upd_tok_Some)
    qed (use r Some in \<open>simp add: jsmn_parse_primitive_def step_ok_def Let_def jsmn_alloc_token_def\<close>)
  qed (use r in \<open>simp add: jsmn_parse_primitive_def step_ok_def Let_def\<close>)
qed

lemma jsmn_open_ok:
  assumes ok: "ps_ok js num p toks" and lt: "pos p < slen js"
  shows "step_ok js num p toks (jsmn_open c num p toks)"
proof (cases "toknext p < num")
  case True
  let ?fresh = "(toks ! toknext p)\<lparr>tok_start := -1, tok_end := -1, tok_size := 0\<rparr>"
  let ?t = "?fresh\<lparr>tok_type := (if c = CHR ''{'' then JSMN_OBJECT else JSMN_ARRAY), tok_start := int (pos p)\<rparr>"
  have swap: "p\<lparr>toknext := n, toksuper := m\<rparr> = p\<lparr>toksuper := m, toknext := n\<rparr>" for n m by simp
  obtain toks1 where b: "bump_super p toks = Some toks1" and ok1: "ps_ok js num p toks1"
    and l1: "length toks1 = length toks" using bump_super_ok [OF ok] .
  have len: "toknext p < length toks" using ok True by (simp add: ps_ok_def)
  have b': "bump_super (p\<lparr>toknext := toknext p + 1\<rparr>) (toks[toknext p := ?fresh]) = Some (toks1[toknext p := ?fresh])"
    using b ok by (auto simp: bump_super_def upd_tok_def ps_ok_def list_update_swap split: if_splits)
  have "tok_wf js ?t" using lt by (simp add: tok_wf_def)
  from ps_ok_push [OF ok1 True this, of "p\<lparr>toknext := toknext p + 1, toksuper := int (toknext p)\<rparr>"]
  show ?thesis
    using jsmn_alloc_ok [OF ok True] b' len l1 lt
    by (simp add: jsmn_open_def step_ok_def upd_tok_Some cong: if_cong)
next
  case False
  then show ?thesis by (simp add: jsmn_open_def step_ok_def jsmn_alloc_token_def)
qed

lemma jsmn_close_ok:
  assumes ok: "ps_ok js num p toks" and lt: "pos p < slen js"
  shows "step_ok js num p toks (jsmn_close c p toks)"
proof -
  have len: "toknext p \<le> length toks" using ok by (simp add: ps_ok_def)
  from find_open_ok [OF len] obtain r where r: "find_open toks (toknext p) = Some r"
    and r': "case r of None \<Rightarrow> \<forall>i < toknext p. \<not> tok_open (toks ! i) | Some i \<Rightarrow> i < toknext p \<and> tok_open (toks ! i)"
    by blast
  show ?thesis
  proof (cases r)
    case None
    then show ?thesis using r by (simp add: jsmn_close_def step_ok_def)
  next
    case (Some i)
    then have i: "i < toknext p" "tok_open (toks ! i)" "i < length toks" using r' len by auto
    let ?toks = "toks[i := (toks ! i)\<lparr>tok_end := int (pos p) + 1\<rparr>]"
    have "tok_wf js ((toks ! i)\<lparr>tok_end := int (pos p) + 1\<rparr>)"
      using ok i lt by (auto simp: ps_ok_def tok_wf_def)
    then have ok': "ps_ok js num (p\<lparr>toksuper := -1\<rparr>) ?toks"
      using ok i by (auto simp: ps_ok_def nth_list_update)
    obtain s where s: "find_open ?toks (i + 1) = Some s"
      and s': "case s of None \<Rightarrow> True | Some j \<Rightarrow> j < i + 1"
      using find_open_ok [of "i + 1" ?toks] i by (force split: option.splits)
    then have "ps_ok js num (case s of None \<Rightarrow> p\<lparr>toksuper := -1\<rparr> | Some j \<Rightarrow> p\<lparr>toksuper := int j\<rparr>) ?toks"
      using ok' i by (auto simp: ps_ok_def split: option.splits)
    then show ?thesis using r Some i s lt
      by (auto simp: jsmn_close_def step_ok_def Let_def rd_tok_def upd_tok_Some split: option.splits)
  qed
qed

text \<open>After a string or a primitive the size of the enclosing token grows.\<close>

lemma step_ok_bump:
  assumes "step_ok js num p toks res"
  shows "step_ok js num p toks (do {
    (r, p, toks) \<leftarrow> res;
    if r \<noteq> JSMN_SUCCESS then Some (r, p, toks)
    else do { toks \<leftarrow> bump_super p toks; Some (JSMN_SUCCESS, p, toks) } })"
proof -
  obtain r p' toks' where res: "res = Some (r, p', toks')" and len: "length toks' = length toks"
    and ok: "r = JSMN_SUCCESS \<longrightarrow> ps_ok js num p' toks' \<and> pos p \<le> pos p' \<and> pos p' < slen js"
    using assms unfolding step_ok_def by blast
  show ?thesis
  proof (cases "r = JSMN_SUCCESS")
    case True
    then obtain toks2 where "bump_super p' toks' = Some toks2" "ps_ok js num p' toks2"
      "length toks2 = length toks'" using ok bump_super_ok [of js num p' toks'] by blast
    then show ?thesis using True res ok len by (simp add: step_ok_def)
  qed (use res len in \<open>simp add: step_ok_def\<close>)
qed

lemma jsmn_char_ok:
  assumes nul: "NUL \<in> set js" and ok: "ps_ok js num p toks" and lt: "pos p < slen js"
  shows "step_ok js num p toks (jsmn_char js num (js ! pos p) p toks)"
proof -
  let ?c = "js ! pos p"
  consider "?c = CHR ''{'' \<or> ?c = CHR ''[''" | "?c = CHR ''}'' \<or> ?c = CHR '']''" | "?c = QUOTE"
    | "sep_char ?c" | "\<not> prim_stop ?c" "?c \<noteq> QUOTE" "\<not> (?c = CHR ''{'' \<or> ?c = CHR ''['')"
        "\<not> (?c = CHR ''}'' \<or> ?c = CHR '']'')" "\<not> sep_char ?c"
    unfolding sep_char_def prim_stop_def by blast
  then show ?thesis
  proof cases
    case 1
    then show ?thesis using jsmn_open_ok [OF ok lt] by (simp add: jsmn_char_def)
  next
    case 2
    then have "\<not> (?c = CHR ''{'' \<or> ?c = CHR ''['')" by auto
    then show ?thesis using 2 jsmn_close_ok [OF ok lt] by (simp add: jsmn_char_def)
  next
    case 3
    then show ?thesis using step_ok_bump [OF jsmn_parse_string_ok [OF nul ok lt]]
      by (simp add: jsmn_char_def)
  next
    case 4
    then have "jsmn_char js num ?c p toks = Some (JSMN_SUCCESS, p, toks)"
      by (auto simp: jsmn_char_def sep_char_def)
    then show ?thesis using ok lt by (simp add: step_ok_def)
  next
    case 5
    then show ?thesis using step_ok_bump [OF jsmn_parse_primitive_ok [OF nul ok lt]]
      by (simp add: jsmn_char_def)
  qed
qed

lemma jsmn_parse_loop_ok:
  assumes nul: "NUL \<in> set js" and "ps_ok js num p toks" and "pos p \<le> slen js"
  shows "\<exists>r p' toks'. jsmn_parse_loop js num p toks = Some (r, p', toks') \<and> length toks' = length toks \<and>
    (r = JSMN_SUCCESS \<longrightarrow> ps_ok js num p' toks')"
  using assms(2,3)
proof (induction "slen js - pos p" arbitrary: p toks rule: less_induct)
  case less
  note sl = slen_less [OF nul]
  show ?case
  proof (cases "pos p = slen js")
    case True
    then show ?thesis using sl nth_slen [OF nul] less(2)
      by (subst jsmn_parse_loop.simps) (simp add: rd_def)
  next
    case False
    then have lt: "pos p < slen js" using less(3) by simp
    have c: "rd js (pos p) = Some (js ! pos p)" "js ! pos p \<noteq> NUL"
      using lt sl nth_before_slen [OF lt] by (simp_all add: rd_def)
    obtain r p' toks' where st: "jsmn_char js num (js ! pos p) p toks = Some (r, p', toks')"
      and len: "length toks' = length toks"
      and ok: "r = JSMN_SUCCESS \<longrightarrow> ps_ok js num p' toks' \<and> pos p \<le> pos p' \<and> pos p' < slen js"
      using jsmn_char_ok [OF nul less(2) lt] unfolding step_ok_def by blast
    show ?thesis
    proof (cases "r = JSMN_SUCCESS")
      case True
      have "ps_ok js num (p'\<lparr>pos := pos p' + 1\<rparr>) toks'"
        using ok True by (force simp: ps_ok_def)
      moreover have "slen js - pos (p'\<lparr>pos := pos p' + 1\<rparr>) < slen js - pos p"
        using ok True lt by (auto intro: diff_less_mono2)
      ultimately show ?thesis using less(1) [of "p'\<lparr>pos := pos p' + 1\<rparr>" toks'] ok True c st len
        by (subst jsmn_parse_loop.simps) simp
    next
      case False
      then show ?thesis using c st len by (subst jsmn_parse_loop.simps) simp
    qed
  qed
qed

lemma jsmn_parse_defined:
  assumes "NUL \<in> set js" and "num \<le> length toks"
  shows "\<exists>r p toks'. jsmn_parse jsmn_init js toks num = Some (r, p, toks') \<and> length toks' = length toks \<and>
    (r = JSMN_SUCCESS \<longrightarrow> toknext p \<le> num \<and>
      (\<forall>i < toknext p. 0 \<le> tok_start (toks' ! i) \<and> tok_start (toks' ! i) \<le> tok_end (toks' ! i) \<and>
        tok_end (toks' ! i) \<le> int (slen js)))"
proof -
  have "ps_ok js num jsmn_init toks" using assms(2) by (simp add: ps_ok_def jsmn_init_def)
  then obtain r p toks' where loop: "jsmn_parse_loop js num jsmn_init toks = Some (r, p, toks')"
    and len: "length toks' = length toks" and ok: "r = JSMN_SUCCESS \<longrightarrow> ps_ok js num p toks'"
    using jsmn_parse_loop_ok [OF assms(1)] by (fastforce simp: jsmn_init_def)
  show ?thesis
  proof (cases "r = JSMN_SUCCESS")
    case True
    then have ps: "ps_ok js num p toks'" using ok by simp
    then obtain u where u: "find_open toks' (toknext p) = Some u"
      and u': "case u of None \<Rightarrow> \<forall>i < toknext p. \<not> tok_open (toks' ! i)
        | Some i \<Rightarrow> i < toknext p \<and> tok_open (toks' ! i)"
      using find_open_ok [of "toknext p" toks'] by (auto simp: ps_ok_def)
    have "tok_wf js t \<Longrightarrow> \<not> tok_open t \<Longrightarrow>
        0 \<le> tok_start t \<and> tok_start t \<le> tok_end t \<and> tok_end t \<le> int (slen js)" for t
      by (auto simp: tok_wf_def tok_open_def)
    then show ?thesis using loop True len u u' ps
      by (cases u) (auto simp: jsmn_parse_def ps_ok_def)
  qed (use loop len in \<open>simp add: jsmn_parse_def\<close>)
qed

section \<open>Properties\<close>

text \<open>C9. On every buffer of at most \<open>2 ^ 31\<close> characters that holds a NUL and every token array of at least \<open>num\<close> elements,
  \<open>jsmn_parse\<close> returns, having read only the buffer and written only the array; when it
  reports success, it used at most \<open>num\<close> tokens and each of them delimits a range of the
  string before the NUL, with bounds that an \<open>int\<close> holds. After an error nothing is said of the tokens: open ones still have the end -1.
  The bound on the buffer is the one under which the \<open>unsigned int\<close> positions of the code and the mathematical ones of the model agree; the
  program's buffers have 512 bytes.\<close>

theorem jsmn_parse_safe:
  assumes "NUL \<in> set js" and "length js \<le> 2 ^ 31" and "num \<le> length toks"
  shows "\<exists>r p toks'. jsmn_parse jsmn_init js toks num = Some (r, p, toks') \<and> length toks' = length toks \<and>
    (r = JSMN_SUCCESS \<longrightarrow> toknext p \<le> num \<and>
      (\<forall>i < toknext p. 0 \<le> tok_start (toks' ! i) \<and> tok_start (toks' ! i) \<le> tok_end (toks' ! i) \<and>
        tok_end (toks' ! i) \<le> int (slen js) \<and> tok_end (toks' ! i) < 2 ^ 31))"
proof -
  have "slen js < 2 ^ 31" using slen_less [OF assms(1)] assms(2) by simp
  then have "int (slen js) < 2 ^ 31" by simp
  then have "e < 2 ^ 31" if "e \<le> int (slen js)" for e using that by linarith
  then show ?thesis using jsmn_parse_defined [OF assms(1,3)] by blast
qed

lemma jsmn_parse_safe_witness:
  "\<exists>r p toks'. jsmn_parse jsmn_init (''[1]'' @ [NUL])
      (replicate 3 (jsmn_fill_token JSMN_STRING 7 7 undefined)) 3 = Some (r, p, toks') \<and>
      length toks' = length (replicate 3 (jsmn_fill_token JSMN_STRING 7 7 undefined)) \<and>
    (r = JSMN_SUCCESS \<longrightarrow> toknext p \<le> 3 \<and>
      (\<forall>i < toknext p. 0 \<le> tok_start (toks' ! i) \<and> tok_start (toks' ! i) \<le> tok_end (toks' ! i) \<and>
        tok_end (toks' ! i) \<le> int (slen (''[1]'' @ [NUL])) \<and> tok_end (toks' ! i) < 2 ^ 31))"
  by (rule jsmn_parse_safe) simp_all

end
