(* ===== verification/Jsmn_Forest.thy ===== *)
theory Jsmn_Forest
  imports Jsmn_Safety
begin

text \<open>
  The shape of what the tokenizer reports, for every input. The tokens of a successful parse are
  a forest in pre-order: the size of a token is the number of its children. So the lookup of
  \<open>jsmn_get_value\<close>, which counts sizes to skip a value, stays inside the tokens of the object for
  whatever message was parsed, well formed as JSON or not.
\<close>

section \<open>Forests in pre-order\<close>

text \<open>A list of sizes is the pre-order of exactly \<open>k\<close> trees.\<close>

fun nested :: "nat \<Rightarrow> nat list \<Rightarrow> bool" where
  "nested k [] \<longleftrightarrow> k = 0"
| "nested 0 (s # ss) \<longleftrightarrow> False"
| "nested (Suc k) (s # ss) \<longleftrightarrow> nested (k + s) ss"

lemma nested_unique: "nested a ss \<Longrightarrow> nested b ss \<Longrightarrow> a = b"
proof (induction ss arbitrary: a b)
  case (Cons s ss)
  then show ?case by (cases a; cases b) fastforce+
qed simp

lemma nested_leaf: "nested k ss \<Longrightarrow> nested (k + 1) (ss @ [0])"
proof (induction ss arbitrary: k)
  case (Cons s ss)
  then show ?case by (cases k) fastforce+
qed simp

text \<open>A new last child of a token on the rightmost path.\<close>

lemma nested_child:
  "nested k ss \<Longrightarrow> i < length ss \<Longrightarrow> nested 1 (drop i ss) \<Longrightarrow> nested k (ss[i := ss ! i + 1] @ [0])"
proof (induction ss arbitrary: i k)
  case (Cons s ss)
  show ?case
  proof (cases i)
    case 0
    have "k = 1" using nested_unique [OF Cons.prems(1)] Cons.prems(3) 0 by simp
    then show ?thesis using nested_leaf [of s ss] Cons.prems(1) 0 by simp
  next
    case (Suc j)
    then show ?thesis using Cons.IH [of "k - 1 + s" j] Cons.prems by (cases k) simp_all
  qed
qed simp

section \<open>The parser state\<close>

definition sizes :: "nat \<Rightarrow> jsmntok_t list \<Rightarrow> nat list" where
  "sizes n toks = map (\<lambda>t. nat (tok_size t)) (take n toks)"

definition leaf :: "jsmntok_t \<Rightarrow> bool" where
  "leaf t \<longleftrightarrow> tok_type t = JSMN_STRING \<or> tok_type t = JSMN_PRIMITIVE"

text \<open>The open tokens lie on the rightmost path, and \<open>toksuper\<close> is the last of them.\<close>

definition fo_ok :: "jsmn_parser \<Rightarrow> jsmntok_t list \<Rightarrow> bool" where
  "fo_ok p toks \<longleftrightarrow> (\<exists>k. nested k (sizes (toknext p) toks)) \<and>
     (\<forall>i < toknext p. tok_open (toks ! i) \<longrightarrow> nested 1 (drop i (sizes (toknext p) toks)) \<and> int i \<le> toksuper p) \<and>
     (\<forall>i < toknext p. leaf (toks ! i) \<longrightarrow> tok_size (toks ! i) = 0 \<and> \<not> tok_open (toks ! i)) \<and>
     (toksuper p \<noteq> -1 \<longrightarrow> 0 \<le> toksuper p \<and> toksuper p < int (toknext p) \<and> tok_open (toks ! nat (toksuper p)))"

lemma length_sizes [simp]: "n \<le> length toks \<Longrightarrow> length (sizes n toks) = n"
  by (simp add: sizes_def)

lemma nth_sizes: "i < n \<Longrightarrow> n \<le> length toks \<Longrightarrow> sizes n toks ! i = nat (tok_size (toks ! i))"
  by (simp add: sizes_def)

definition bumped :: "int \<Rightarrow> jsmntok_t list \<Rightarrow> jsmntok_t list" where
  "bumped s toks = (if s = -1 then toks
     else toks[nat s := (toks ! nat s)\<lparr>tok_size := tok_size (toks ! nat s) + 1\<rparr>])"

lemma sizes_push:
  assumes "n < length toks" "tok_size t = 0"
  shows "sizes (n + 1) (toks[n := t]) = sizes n toks @ [0]"
  using assms by (simp add: sizes_def take_Suc_conv_app_nth)

lemma sizes_bumped:
  assumes "0 \<le> s" "s < int n" "n \<le> length toks" "0 \<le> tok_size (toks ! nat s)"
  shows "sizes n (bumped s toks) = (sizes n toks)[nat s := sizes n toks ! nat s + 1]"
proof -
  have "nat s < n" using assms by simp
  then show ?thesis using assms by (simp add: sizes_def bumped_def take_update_swap map_update nat_add_distrib)
qed

lemma bumped_nth:
  "i < length toks \<Longrightarrow> bumped s toks ! i =
    (if s \<noteq> -1 \<and> nat s = i then (toks ! i)\<lparr>tok_size := tok_size (toks ! i) + 1\<rparr> else toks ! i)"
  by (auto simp: bumped_def nth_list_update)

lemma length_bumped [simp]: "length (bumped s toks) = length toks"
  by (simp add: bumped_def)

lemma tok_open_size [simp]: "tok_open (t\<lparr>tok_size := n\<rparr>) = tok_open t"
  by (simp add: tok_open_def)

lemma leaf_size [simp]: "leaf (t\<lparr>tok_size := n\<rparr>) = leaf t"
  by (simp add: leaf_def)

text \<open>A new token becomes the last child of the superior token.\<close>

lemma fo_push:
  assumes ps: "ps_ok js num p toks" and fo: "fo_ok p toks" and n: "toknext p < length toks"
    and t: "tok_size t = 0" "leaf t \<longrightarrow> \<not> tok_open t"
    and p': "toknext p' = toknext p + 1" "toksuper p' = (if tok_open t then int (toknext p) else toksuper p)"
  shows "fo_ok p' ((bumped (toksuper p) toks)[toknext p := t])"
proof -
  let ?n = "toknext p" and ?s = "toksuper p" and ?toks = "(bumped (toksuper p) toks)[toknext p := t]"
  let ?ss = "sizes ?n toks"
  have sz: "sizes (toknext p') ?toks = sizes ?n (bumped ?s toks) @ [0]"
    using sizes_push [of ?n "bumped ?s toks" t] n t p' by simp
  have old: "?toks ! i = bumped ?s toks ! i" if "i < ?n" for i using that by simp
  have sup: "?s = -1 \<or> 0 \<le> ?s \<and> nat ?s < ?n \<and> tok_open (toks ! nat ?s)" using fo by (auto simp: fo_ok_def)
  have sz0: "0 \<le> tok_size (toks ! nat ?s)" if "?s \<noteq> -1" using sup that ps by (auto simp: ps_ok_def tok_wf_def)
  have grow: "nested 1 (drop i (sizes (toknext p') ?toks))" if i: "i < ?n" "tok_open (toks ! i)" for i
  proof -
    have d: "nested 1 (drop i ?ss)" "int i \<le> ?s" using fo i by (auto simp: fo_ok_def)
    then have s: "?s \<noteq> -1" "0 \<le> ?s" "nat ?s < ?n" "tok_open (toks ! nat ?s)" "i \<le> nat ?s" using sup by auto
    have "nested 1 (drop (nat ?s) ?ss)" using fo s by (auto simp: fo_ok_def)
    then have "nested 1 ((drop i ?ss)[nat ?s - i := drop i ?ss ! (nat ?s - i) + 1] @ [0])"
      using nested_child [OF d(1), of "nat ?s - i"] s n by simp
    then show ?thesis using sz sizes_bumped [of ?s ?n toks] sz0 s n i(1) by (simp add: drop_update_swap)
  qed
  have "\<exists>k. nested k (sizes (toknext p') ?toks)"
  proof (cases "?s = -1")
    case True
    then show ?thesis using fo sz nested_leaf by (auto simp: fo_ok_def bumped_def)
  next
    case False
    then have s: "0 \<le> ?s" "nat ?s < ?n" "tok_open (toks ! nat ?s)" using sup by auto
    obtain k where "nested k ?ss" "nested 1 (drop (nat ?s) ?ss)" using fo s by (auto simp: fo_ok_def)
    then have "nested k (?ss[nat ?s := ?ss ! nat ?s + 1] @ [0])" using nested_child [of k ?ss "nat ?s"] s n by simp
    then show ?thesis using sz sizes_bumped [of ?s ?n toks] sz0 False s n by auto
  qed
  moreover have "nested 1 (drop i (sizes (toknext p') ?toks)) \<and> int i \<le> toksuper p'"
    if i: "i < toknext p'" "tok_open (?toks ! i)" for i
  proof (cases "i = ?n")
    case True
    then show ?thesis using i n p' sz by simp
  next
    case False
    then have i': "i < ?n" "tok_open (toks ! i)" using i p' n by (auto simp: bumped_nth split: if_splits)
    then have "int i \<le> ?s" using fo by (auto simp: fo_ok_def)
    then show ?thesis using grow [OF i'] p' i' by auto
  qed
  moreover have "tok_size (?toks ! i) = 0 \<and> \<not> tok_open (?toks ! i)" if i: "i < toknext p'" "leaf (?toks ! i)" for i
  proof (cases "i = ?n")
    case True
    then show ?thesis using i n t by simp
  next
    case False
    then have i': "i < ?n" "leaf (toks ! i)" using i p' n by (auto simp: bumped_nth split: if_splits)
    then have "tok_size (toks ! i) = 0" "\<not> tok_open (toks ! i)" using fo by (auto simp: fo_ok_def)
    then show ?thesis using i' n sup by (auto simp: bumped_nth)
  qed
  moreover have "toksuper p' \<noteq> -1 \<longrightarrow>
      0 \<le> toksuper p' \<and> toksuper p' < int (toknext p') \<and> tok_open (?toks ! nat (toksuper p'))"
    using sup p' n t by (auto simp: bumped_nth)
  ultimately show ?thesis unfolding fo_ok_def by blast
qed

section \<open>Every step keeps the shape\<close>

lemma string_result:
  assumes "jsmn_parse_string p js toks num = Some (JSMN_SUCCESS, p1, toks1)"
  shows "\<exists>e t. toknext p < length toks \<and> p1 = p\<lparr>pos := e, toknext := toknext p + 1\<rparr> \<and> toks1 = toks[toknext p := t] \<and>
    leaf t \<and> tok_size t = 0 \<and> \<not> tok_open t"
proof -
  obtain r where r: "str_scan (drop (pos p + 1) js) (pos p + 1) = Some r"
    using assms by (cases "str_scan (drop (pos p + 1) js) (pos p + 1)") (simp_all add: jsmn_parse_string_def Let_def)
  obtain e where e: "r = StrEnd e" using assms r by (cases r) (simp_all add: jsmn_parse_string_def Let_def)
  have n: "toknext p < num" "toknext p < length toks" using assms r e
    by (auto simp: jsmn_parse_string_def Let_def jsmn_alloc_token_def upd_tok_def split: if_splits)
  show ?thesis using assms r e n
    by (auto simp: jsmn_parse_string_def Let_def jsmn_alloc_token_def upd_tok_def jsmn_fill_token_def leaf_def tok_open_def)
qed

lemma primitive_result:
  assumes "jsmn_parse_primitive p js toks num = Some (JSMN_SUCCESS, p1, toks1)"
  shows "\<exists>e t. toknext p < length toks \<and> p1 = p\<lparr>pos := e, toknext := toknext p + 1\<rparr> \<and> toks1 = toks[toknext p := t] \<and>
    leaf t \<and> tok_size t = 0 \<and> \<not> tok_open t"
proof -
  obtain r where r: "prim_scan (drop (pos p) js) (pos p) = Some r"
    using assms by (cases "prim_scan (drop (pos p) js) (pos p)") (simp_all add: jsmn_parse_primitive_def Let_def)
  obtain e where e: "r = Some e" using assms r by (cases r) (simp_all add: jsmn_parse_primitive_def Let_def)
  have n: "toknext p < num" "toknext p < length toks" using assms r e
    by (auto simp: jsmn_parse_primitive_def Let_def jsmn_alloc_token_def upd_tok_def split: if_splits)
  have swap: "p\<lparr>toknext := k, pos := m\<rparr> = p\<lparr>pos := m, toknext := k\<rparr>" for k m by simp
  show ?thesis using assms r e n swap
    by (auto simp: jsmn_parse_primitive_def Let_def jsmn_alloc_token_def upd_tok_def jsmn_fill_token_def leaf_def tok_open_def)
qed

lemma bump_super_result:
  assumes "bump_super p toks = Some toks'"
  shows "toks' = bumped (toksuper p) toks"
  using assms by (auto simp: bump_super_def bumped_def upd_tok_def split: if_splits)

lemma bumped_swap:
  assumes "s = -1 \<or> 0 \<le> s \<and> nat s < n"
  shows "bumped s (toks[n := t]) = (bumped s toks)[n := t]"
  using assms by (auto simp: bumped_def list_update_swap)

lemma fo_super: "fo_ok p toks \<Longrightarrow> toksuper p = -1 \<or> 0 \<le> toksuper p \<and> nat (toksuper p) < toknext p"
  by (auto simp: fo_ok_def)

lemma leaf_fo:
  assumes ps: "ps_ok js num p toks" and fo: "fo_ok p toks"
    and t: "toknext p < length toks" "leaf t" "tok_size t = 0" "\<not> tok_open t"
    and b: "bump_super (p\<lparr>pos := e, toknext := toknext p + 1\<rparr>) (toks[toknext p := t]) = Some toks'"
  shows "fo_ok (p\<lparr>pos := e, toknext := toknext p + 1\<rparr>) toks'"
proof -
  have "toks' = (bumped (toksuper p) toks)[toknext p := t]"
    using bump_super_result [OF b] bumped_swap [OF fo_super [OF fo]] by simp
  then show ?thesis using fo_push [OF ps fo t(1,3), of "p\<lparr>pos := e, toknext := toknext p + 1\<rparr>"] t(4) by simp
qed

lemma open_fo:
  assumes ps: "ps_ok js num p toks" and fo: "fo_ok p toks" and o: "jsmn_open c num p toks = Some (JSMN_SUCCESS, p', toks')"
  shows "fo_ok p' toks'"
proof -
  let ?n = "toknext p"
  let ?f = "(toks ! ?n)\<lparr>tok_start := -1, tok_end := -1, tok_size := 0\<rparr>"
  let ?g = "\<lambda>t. t\<lparr>tok_type := (if c = CHR ''{'' then JSMN_OBJECT else JSMN_ARRAY), tok_start := int (pos p)\<rparr>"
  have n: "?n < num" using o by (auto simp: jsmn_open_def jsmn_alloc_token_def split: if_splits)
  have l: "?n < length toks" using n ps by (simp add: ps_ok_def)
  obtain toks1 where b: "bump_super (p\<lparr>toknext := ?n + 1\<rparr>) (toks[?n := ?f]) = Some toks1"
    and r: "upd_tok ?n ?g toks1 = Some toks'" "p' = p\<lparr>toknext := ?n + 1, toksuper := int ?n\<rparr>"
    using o jsmn_alloc_ok [OF ps n] by (auto simp: jsmn_open_def bind_eq_Some_iff)
  have "toks1 = (bumped (toksuper p) toks)[?n := ?f]"
    using bump_super_result [OF b] bumped_swap [OF fo_super [OF fo]] by simp
  then have "toks' = (bumped (toksuper p) toks)[?n := ?g ?f]" using r(1) l by (simp add: upd_tok_def)
  moreover have "tok_open (?g ?f)" "tok_size (?g ?f) = 0" "\<not> leaf (?g ?f)" by (simp_all add: tok_open_def leaf_def)
  ultimately show ?thesis using fo_push [OF ps fo l, of "?g ?f" p'] r(2) by simp
qed

lemma find_open_last:
  assumes "find_open toks k = Some r" "k \<le> length toks"
  shows "case r of None \<Rightarrow> \<forall>i < k. \<not> tok_open (toks ! i)
    | Some i \<Rightarrow> i < k \<and> tok_open (toks ! i) \<and> (\<forall>j. i < j \<and> j < k \<longrightarrow> \<not> tok_open (toks ! j))"
  using assms by (induction k) (auto simp: rd_tok_def less_Suc_eq split: option.splits if_splits)

lemma close_fo:
  assumes ps: "ps_ok js num p toks" and fo: "fo_ok p toks" and c: "jsmn_close c p toks = Some (JSMN_SUCCESS, p', toks')"
  shows "fo_ok p' toks'"
proof -
  let ?n = "toknext p"
  have len: "?n \<le> length toks" using ps by (simp add: ps_ok_def)
  obtain r where r: "find_open toks ?n = Some r" using find_open_ok [OF len] by blast
  obtain i where f: "find_open toks ?n = Some (Some i)" using c r by (cases r) (simp_all add: jsmn_close_def Let_def)
  have i: "i < length toks" using find_open_last [OF f len] len by simp
  define toks1 where "toks1 = toks[i := (toks ! i)\<lparr>tok_end := int (pos p) + 1\<rparr>]"
  obtain s where s1: "find_open toks1 (i + 1) = Some s" using find_open_ok [of "i + 1" toks1] i by (auto simp: toks1_def)
  have res: "toks' = toks1 \<and> p' = (case s of None \<Rightarrow> p\<lparr>toksuper := -1\<rparr> | Some j \<Rightarrow> p\<lparr>toksuper := int j\<rparr>)"
    using c f i s1 by (cases s) (auto simp: jsmn_close_def Let_def upd_tok_def rd_tok_def toks1_def split: if_splits)
  note p' = res [THEN conjunct2]
  have toks': "toks' = toks[i := (toks ! i)\<lparr>tok_end := int (pos p) + 1\<rparr>]" and s: "find_open toks' (i + 1) = Some s"
    using res s1 by (simp_all add: toks1_def)
  have il: "i < ?n" "\<forall>j. i < j \<and> j < ?n \<longrightarrow> \<not> tok_open (toks ! j)" using find_open_last [OF f len] by auto
  have n': "toknext p' = ?n" using p' by (simp split: option.splits)
  have sz: "sizes ?n toks' = sizes ?n toks"
    by (rule nth_equalityI) (use i len in \<open>auto simp: toks' sizes_def nth_list_update\<close>)
  have op: "tok_open (toks' ! j) \<longleftrightarrow> j \<noteq> i \<and> tok_open (toks ! j)" if "j < ?n" for j
    using that len i by (auto simp: toks' nth_list_update tok_open_def)
  have lf: "leaf (toks' ! j) \<longleftrightarrow> leaf (toks ! j)" "tok_size (toks' ! j) = tok_size (toks ! j)" if "j < ?n" for j
    using that len i by (auto simp: toks' nth_list_update leaf_def)
  have sp: "case s of None \<Rightarrow> \<forall>j < i + 1. \<not> tok_open (toks' ! j)
      | Some j \<Rightarrow> j < i + 1 \<and> tok_open (toks' ! j) \<and> (\<forall>k. j < k \<and> k < i + 1 \<longrightarrow> \<not> tok_open (toks' ! k))"
    using find_open_last [OF s] i by (simp add: toks')
  have last: "int j \<le> toksuper p'" if j: "j < ?n" "tok_open (toks' ! j)" for j
  proof -
    have "j < i" using op [OF j(1)] j il(2) by (meson linorder_neqE_nat)
    then have "\<exists>k. s = Some k \<and> j \<le> k" using sp j(2) by (cases s) (auto simp: not_less [symmetric])
    then show ?thesis using p' by auto
  qed
  have "toksuper p' \<noteq> -1 \<longrightarrow> 0 \<le> toksuper p' \<and> toksuper p' < int ?n \<and> tok_open (toks' ! nat (toksuper p'))"
    using sp il(1) p' by (auto split: option.splits)
  then show ?thesis using fo last unfolding fo_ok_def n' sz by (auto simp: op lf)
qed

lemma jsmn_char_fo:
  assumes ps: "ps_ok js num p toks" and fo: "fo_ok p toks"
    and c: "jsmn_char js num c p toks = Some (JSMN_SUCCESS, p', toks')"
  shows "fo_ok p' toks'"
proof -
  have leafs: "fo_ok p' toks'"
    if "res = Some (JSMN_SUCCESS, p1, toks1)" "bump_super p1 toks1 = Some toks'" "p1 = p'"
      "\<exists>e t. toknext p < length toks \<and> p1 = p\<lparr>pos := e, toknext := toknext p + 1\<rparr> \<and> toks1 = toks[toknext p := t] \<and>
        leaf t \<and> tok_size t = 0 \<and> \<not> tok_open t" for res p1 toks1
    using that leaf_fo [OF ps fo] by auto
  show ?thesis using c fo open_fo [OF ps fo] close_fo [OF ps fo] leafs string_result [of p js toks num]
      primitive_result [of p js toks num]
    by (auto simp: jsmn_char_def bind_eq_Some_iff split: if_splits)
qed

lemma parse_loop_fo:
  assumes nul: "NUL \<in> set js"
  shows "ps_ok js num p toks \<Longrightarrow> fo_ok p toks \<Longrightarrow> pos p \<le> slen js \<Longrightarrow>
    jsmn_parse_loop js num p toks = Some (JSMN_SUCCESS, p', toks') \<Longrightarrow> fo_ok p' toks' \<and> ps_ok js num p' toks'"
proof (induction "slen js - pos p" arbitrary: p toks rule: less_induct)
  case less
  note sl = slen_less [OF nul]
  show ?case
  proof (cases "pos p = slen js")
    case True
    then have "rd js (pos p) = Some NUL" using sl nth_slen [OF nul] by (simp add: rd_def)
    then show ?thesis using less(2,3,5) by (subst (asm) jsmn_parse_loop.simps) simp
  next
    case False
    then have lt: "pos p < slen js" using less(4) by simp
    have c: "rd js (pos p) = Some (js ! pos p)" "js ! pos p \<noteq> NUL"
      using lt sl nth_before_slen [OF lt] by (simp_all add: rd_def)
    obtain r p1 toks1 where st: "jsmn_char js num (js ! pos p) p toks = Some (r, p1, toks1)"
      and ok: "r = JSMN_SUCCESS \<longrightarrow> ps_ok js num p1 toks1 \<and> pos p \<le> pos p1 \<and> pos p1 < slen js"
      using jsmn_char_ok [OF nul less(2) lt] unfolding step_ok_def by blast
    have r: "r = JSMN_SUCCESS"
      and rest: "jsmn_parse_loop js num (p1\<lparr>pos := pos p1 + 1\<rparr>) toks1 = Some (JSMN_SUCCESS, p', toks')"
      using less(5) c st by (subst (asm) jsmn_parse_loop.simps, simp split: if_splits)+
    have "fo_ok p1 toks1" using jsmn_char_fo [OF less(2,3)] st r by simp
    then have "fo_ok (p1\<lparr>pos := pos p1 + 1\<rparr>) toks1" by (simp add: fo_ok_def)
    moreover have "ps_ok js num (p1\<lparr>pos := pos p1 + 1\<rparr>) toks1" using ok r by (force simp: ps_ok_def)
    moreover have "slen js - pos (p1\<lparr>pos := pos p1 + 1\<rparr>) < slen js - pos p" using ok r lt by auto
    ultimately show ?thesis using less(1) [of "p1\<lparr>pos := pos p1 + 1\<rparr>" toks1] ok r rest by simp
  qed
qed

section \<open>What a successful parse gives\<close>

text \<open>The first \<open>n\<close> tokens are a forest whose leaves have no children, and delimit ranges that end
  at or before \<open>e\<close>.\<close>

definition shaped :: "nat \<Rightarrow> nat \<Rightarrow> jsmntok_t list \<Rightarrow> bool" where
  "shaped e n toks \<longleftrightarrow> n \<le> length toks \<and> (\<exists>k. nested k (sizes n toks)) \<and>
     (\<forall>i < n. 0 \<le> tok_start (toks ! i) \<and> tok_start (toks ! i) \<le> tok_end (toks ! i) \<and> tok_end (toks ! i) \<le> int e \<and>
       0 \<le> tok_size (toks ! i) \<and> (leaf (toks ! i) \<longrightarrow> tok_size (toks ! i) = 0))"

lemma jsmn_parse_shaped:
  assumes nul: "NUL \<in> set js" and num: "num \<le> length toks"
    and p: "jsmn_parse jsmn_init js toks num = Some (JSMN_SUCCESS, p, toks')"
  shows "shaped (slen js) (toknext p) toks'"
proof -
  have i: "ps_ok js num jsmn_init toks" "fo_ok jsmn_init toks" "pos jsmn_init \<le> slen js"
    using num by (simp_all add: ps_ok_def fo_ok_def jsmn_init_def sizes_def)
  obtain r p1 toks1 where l: "jsmn_parse_loop js num jsmn_init toks = Some (r, p1, toks1)"
    using jsmn_parse_loop_ok [OF nul i(1,3)] by blast
  have r: "r = JSMN_SUCCESS" using p l by (cases r) (auto simp: jsmn_parse_def bind_eq_Some_iff split: if_splits)
  then have fo: "fo_ok p1 toks1" "ps_ok js num p1 toks1" using parse_loop_fo [OF nul i] l by auto
  have len: "toknext p1 \<le> length toks1" using fo(2) by (simp add: ps_ok_def)
  obtain u where u: "find_open toks1 (toknext p1) = Some u" using find_open_ok [OF len] by blast
  then have none: "u = None" and pt: "p = p1" "toks' = toks1"
    using p l r by (auto simp: jsmn_parse_def split: option.splits)
  then have "\<forall>i < toknext p1. \<not> tok_open (toks1 ! i)" using find_open_last [OF u len] by simp
  then show ?thesis using fo len pt unfolding shaped_def fo_ok_def ps_ok_def tok_wf_def tok_open_def by force
qed

section \<open>Lookup is total\<close>

lemma drop_sizes:
  assumes "i < n" "n \<le> length toks"
  shows "drop i (sizes n toks) = nat (tok_size (toks ! i)) # drop (Suc i) (sizes n toks)"
  using assms by (metis Cons_nth_drop_Suc length_sizes nth_sizes)

lemma skip_value_total:
  assumes sh: "shaped e n toks"
  shows "nested (k + c) (drop i (sizes n toks)) \<Longrightarrow> i \<le> n \<Longrightarrow>
    \<exists>j. skip_value toks i (int k) nt = Some (j, nt + int (j - i) - int k) \<and> i + k \<le> j \<and> j \<le> n \<and>
      nested c (drop j (sizes n toks))"
proof (induction "n - i" arbitrary: i k nt rule: less_induct)
  case less
  have len: "n \<le> length toks" using sh by (simp add: shaped_def)
  show ?case
  proof (cases k)
    case 0
    then show ?thesis using less(2,3) by (subst skip_value.simps) simp
  next
    case (Suc k')
    have "drop i (sizes n toks) \<noteq> []" using less(2) Suc by (metis add_Suc nat.distinct(1) nested.simps(1))
    then have i: "i < n" using len by simp
    let ?s = "nat (tok_size (toks ! i))"
    have s: "int ?s = tok_size (toks ! i)" using sh i by (simp add: shaped_def)
    have "nested (k' + ?s + c) (drop (Suc i) (sizes n toks))"
      using less(2) Suc drop_sizes [OF i len] by (simp add: ac_simps)
    moreover have "n - Suc i < n - i" "Suc i \<le> n" using i by simp_all
    ultimately obtain j where
      j: "skip_value toks (Suc i) (int (k' + ?s)) (nt + int ?s) = Some (j, nt + int ?s + int (j - Suc i) - int (k' + ?s))"
      "Suc i + (k' + ?s) \<le> j" "j \<le> n" "nested c (drop j (sizes n toks))"
      using less(1) [of "Suc i" "k' + ?s" "nt + int ?s"] by blast
    have "rd_tok toks i = Some (toks ! i)" using i len by (simp add: rd_tok_def)
    moreover have "int k + tok_size (toks ! i) - 1 = int (k' + ?s)" using s Suc by simp
    moreover have "nt + int ?s + int (j - Suc i) - int (k' + ?s) = nt + int (j - i) - int k" using j(2) Suc by simp
    ultimately show ?thesis using j s Suc by (subst skip_value.simps) auto
  qed
qed

lemma strncmp_total: "NUL \<in> set p \<Longrightarrow> NUL \<notin> set key \<Longrightarrow> \<exists>b. strncmp_eq p key = Some b"
  by (induction p key rule: strncmp_eq.induct) auto

text \<open>One member: its key can be compared, and the loop gets past its value.\<close>

lemma key_compared:
  assumes sh: "shaped e n toks" and e: "e < length msg" "msg ! e = NUL" and key: "NUL \<notin> set key"
    and i: "i < n" "tok_type (toks ! i) = JSMN_STRING"
  obtains p b where "ptr_at msg (tok_start (toks ! i)) = Some p" "strncmp_eq p key = Some b" "tok_size (toks ! i) = 0"
proof -
  have t: "0 \<le> tok_start (toks ! i)" "tok_start (toks ! i) \<le> int e" "tok_size (toks ! i) = 0"
    using sh i by (auto simp: shaped_def leaf_def)
  let ?p = "drop (nat (tok_start (toks ! i))) msg"
  have "?p ! (e - nat (tok_start (toks ! i))) = NUL" "e - nat (tok_start (toks ! i)) < length ?p" using t e by simp_all
  then have "NUL \<in> set ?p" by (metis nth_mem)
  then obtain b where "strncmp_eq ?p key = Some b" using strncmp_total key by blast
  then show ?thesis using t e by (intro that [of ?p b]) (simp_all add: ptr_at_def)
qed

lemma value_passed:
  assumes sh: "shaped e n toks" and i: "Suc i < n" and nest: "nested (Suc k + c) (drop (Suc i) (sizes n toks))"
  obtains j where "i < j" "j \<le> n" "nested (k + c) (drop j (sizes n toks))"
    "(if tok_type (toks ! Suc i) = JSMN_OBJECT \<or> tok_type (toks ! Suc i) = JSMN_ARRAY
      then do { (j, nt) \<leftarrow> skip_value toks (Suc i) 1 (int (i + Suc (Suc k))); get_value_loop msg toks key (j - 1 + 1) nt }
      else get_value_loop msg toks key (Suc (Suc i)) (int (i + Suc (Suc k)))) = get_value_loop msg toks key j (int (j + k))"
proof (cases "leaf (toks ! Suc i)")
  case True
  have "n \<le> length toks" using sh by (simp add: shaped_def)
  moreover have "tok_size (toks ! Suc i) = 0" using True sh i by (auto simp: shaped_def)
  ultimately have "nested (k + c) (drop (Suc (Suc i)) (sizes n toks))" using nest drop_sizes [OF i] by simp
  moreover have "\<not> (tok_type (toks ! Suc i) = JSMN_OBJECT \<or> tok_type (toks ! Suc i) = JSMN_ARRAY)"
    using True by (auto simp: leaf_def)
  ultimately show ?thesis using i by (intro that [of "Suc (Suc i)"]) (simp_all add: ac_simps)
next
  case False
  then have ty: "tok_type (toks ! Suc i) = JSMN_OBJECT \<or> tok_type (toks ! Suc i) = JSMN_ARRAY"
    by (cases "tok_type (toks ! Suc i)") (auto simp: leaf_def)
  have "nested (1 + (k + c)) (drop (Suc i) (sizes n toks))" using nest by simp
  from skip_value_total [OF sh this, of "int (i + Suc (Suc k))"] i obtain j where
    j: "skip_value toks (Suc i) 1 (int (i + Suc (Suc k))) = Some (j, int (i + Suc (Suc k)) + int (j - Suc i) - 1)"
    "Suc i + 1 \<le> j" "j \<le> n" "nested (k + c) (drop j (sizes n toks))" by auto
  moreover have "int (i + Suc (Suc k)) + int (j - Suc i) - 1 = int (j + k)" "j - 1 + 1 = j" using j(2) by simp_all
  ultimately show ?thesis using ty by (intro that [of j]) (simp_all add: add.commute)
qed

lemma get_value_total:
  assumes sh: "shaped e n toks" and e: "e < length msg" "msg ! e = NUL" and key: "NUL \<notin> set key"
  shows "nested (k + c) (drop i (sizes n toks)) \<Longrightarrow> i \<le> n \<Longrightarrow>
    \<exists>v. get_value_loop msg toks key i (int (i + k)) = Some v \<and> (v = -1 \<or> 0 < v \<and> v < int n)"
proof (induction "n - i" arbitrary: i k rule: less_induct)
  case less
  have len: "n \<le> length toks" using sh by (simp add: shaped_def)
  have inside: "j < n" if "nested (Suc m) (drop j (sizes n toks))" for j m
  proof -
    have "drop j (sizes n toks) \<noteq> []" using that by (metis nat.distinct(1) nested.simps(1))
    then show ?thesis using len by simp
  qed
  show ?case
  proof (cases "k < 2")
    case True
    then show ?thesis by (subst get_value_loop.simps) simp
  next
    case False
    then obtain k' where k: "k = Suc (Suc k')" by (metis Suc_le_D add_2_eq_Suc le_add_diff_inverse not_less)
    have i: "i < n" using inside [of "Suc (k' + c)" i] less(2) k by simp
    have go: "rd_tok toks i = Some (toks ! i)" "int i + 1 < int (i + k)" using i len k by (simp_all add: rd_tok_def)
    show ?thesis
    proof (cases "tok_type (toks ! i) = JSMN_STRING")
      case False
      then show ?thesis using go by (subst get_value_loop.simps) simp
    next
      case True
      obtain p b where p: "ptr_at msg (tok_start (toks ! i)) = Some p" "strncmp_eq p key = Some b" "tok_size (toks ! i) = 0"
        using key_compared [OF sh e key i True] .
      have n1: "nested (Suc k' + c) (drop (Suc i) (sizes n toks))" using less(2) k drop_sizes [OF i len] p(3) by simp
      then have i1: "Suc i < n" by (intro inside [of "k' + c"]) simp
      then have rv: "rd_tok toks (Suc i) = Some (toks ! Suc i)" using len by (simp add: rd_tok_def)
      obtain j where j: "i < j" "j \<le> n" "nested (k' + c) (drop j (sizes n toks))"
        "(if tok_type (toks ! Suc i) = JSMN_OBJECT \<or> tok_type (toks ! Suc i) = JSMN_ARRAY
          then do { (j, nt) \<leftarrow> skip_value toks (Suc i) 1 (int (i + Suc (Suc k'))); get_value_loop msg toks key (j - 1 + 1) nt }
          else get_value_loop msg toks key (Suc (Suc i)) (int (i + Suc (Suc k')))) = get_value_loop msg toks key j (int (j + k'))"
        using value_passed [OF sh i1 n1] .
      have "n - j < n - i" using j(1,2) by simp
      from less(1) [OF this j(3,2)] obtain v where
        v: "get_value_loop msg toks key j (int (j + k')) = Some v" "v = -1 \<or> 0 < v \<and> v < int n" by blast
      have "get_value_loop msg toks key i (int (i + k)) = (if b then Some (int i + 1) else get_value_loop msg toks key j (int (j + k')))"
        using go True p(1,2) rv unfolding j(4) [symmetric] k
        by (subst get_value_loop.simps) simp
      then show ?thesis using v i1 by (cases b) simp_all
    qed
  qed
qed

lemma jsmn_get_value_total:
  assumes sh: "shaped e n toks" and n: "0 < n" and e: "e < length msg" "msg ! e = NUL" and key: "NUL \<notin> set key"
  shows "\<exists>v. jsmn_get_value msg toks key = Some v \<and> (v = -1 \<or> 0 < v \<and> v < int n)"
proof -
  have len: "n \<le> length toks" using sh by (simp add: shaped_def)
  obtain k where k: "nested k (sizes n toks)" using sh by (auto simp: shaped_def)
  let ?s = "nat (tok_size (toks ! 0))"
  have s: "int ?s = tok_size (toks ! 0)" using sh n by (simp add: shaped_def)
  have d: "drop 0 (sizes n toks) = ?s # drop 1 (sizes n toks)" using drop_sizes [OF n len] by simp
  then obtain c where "k = Suc c" using k by (metis drop0 nested.simps(2) not0_implies_Suc)
  then have "nested (?s + c) (drop 1 (sizes n toks))" using k d by (metis add.commute drop0 nested.simps(3))
  from get_value_total [OF sh e key this] n
  obtain v where v: "get_value_loop msg toks key 1 (int (1 + ?s)) = Some v" "v = -1 \<or> 0 < v \<and> v < int n" by auto
  have "rd_tok toks 0 = Some (toks ! 0)" using n len by (auto simp: rd_tok_def)
  moreover have "tok_size (toks ! 0) + 1 = int (1 + ?s)" using s by simp
  ultimately show ?thesis using v unfolding jsmn_get_value_def by (simp only: Option.bind.simps) blast
qed


section \<open>Texts without a token\<close>

text \<open>A text that is accepted without a token consists of separators.\<close>

lemma jsmn_char_next:
  assumes "jsmn_char js num c p toks = Some (JSMN_SUCCESS, p', toks')"
  shows "if sep_char c then p' = p else toknext p \<le> toknext p' \<and> 0 < toknext p'"
proof -
  consider "c = CHR ''{'' \<or> c = CHR ''[''" | "c = CHR ''}'' \<or> c = CHR '']''" | "c = QUOTE"
    | "\<not> (c = CHR ''{'' \<or> c = CHR ''['')" "\<not> (c = CHR ''}'' \<or> c = CHR '']'')" "c \<noteq> QUOTE" by blast
  then show ?thesis
  proof cases
    case 1
    then have "jsmn_open c num p toks = Some (JSMN_SUCCESS, p', toks')" "\<not> sep_char c"
      using assms by (auto simp: jsmn_char_def sep_char_def)
    then show ?thesis by (auto simp: jsmn_open_def jsmn_alloc_token_def Let_def bind_eq_Some_iff split: if_splits)
  next
    case 2
    then have c: "jsmn_close c p toks = Some (JSMN_SUCCESS, p', toks')" "\<not> sep_char c"
      using assms by (auto simp: jsmn_char_def sep_char_def)
    have "0 < toknext p" using c(1) by (cases "toknext p") (auto simp: jsmn_close_def)
    moreover have "toknext p' = toknext p"
    proof -
      obtain r where r: "find_open toks (toknext p) = Some r"
        using c(1) by (cases "find_open toks (toknext p)") (simp_all add: jsmn_close_def)
      then obtain i where "r = Some i" using c(1) by (cases r) (simp_all add: jsmn_close_def)
      then show ?thesis using c(1) r
        by (cases "rd_tok toks i") (auto simp: jsmn_close_def Let_def bind_eq_Some_iff split: if_splits option.splits)
    qed
    ultimately show ?thesis using c(2) by simp
  next
    case 3
    then show ?thesis using assms string_result [of p js toks num]
      by (fastforce simp: jsmn_char_def sep_char_def bind_eq_Some_iff split: if_splits)
  next
    case 4
    then show ?thesis using assms primitive_result [of p js toks num]
      by (fastforce simp: jsmn_char_def bind_eq_Some_iff split: if_splits)
  qed
qed

lemma parse_loop_tokens:
  assumes nul: "NUL \<in> set js"
  shows "ps_ok js num p toks \<Longrightarrow> pos p \<le> slen js \<Longrightarrow>
    jsmn_parse_loop js num p toks = Some (JSMN_SUCCESS, p', toks') \<Longrightarrow>
    toknext p \<le> toknext p' \<and> (toknext p' = 0 \<longrightarrow> (\<forall>i. pos p \<le> i \<and> i < slen js \<longrightarrow> sep_char (js ! i)))"
proof (induction "slen js - pos p" arbitrary: p toks rule: less_induct)
  case less
  note sl = slen_less [OF nul]
  show ?case
  proof (cases "pos p = slen js")
    case True
    then have "rd js (pos p) = Some NUL" using sl nth_slen [OF nul] by (simp add: rd_def)
    then show ?thesis using less(4) True by (subst (asm) jsmn_parse_loop.simps) auto
  next
    case False
    then have lt: "pos p < slen js" using less(3) by simp
    have c: "rd js (pos p) = Some (js ! pos p)" "js ! pos p \<noteq> NUL"
      using lt sl nth_before_slen [OF lt] by (simp_all add: rd_def)
    obtain r p1 toks1 where st: "jsmn_char js num (js ! pos p) p toks = Some (r, p1, toks1)"
      and ok: "r = JSMN_SUCCESS \<longrightarrow> ps_ok js num p1 toks1 \<and> pos p \<le> pos p1 \<and> pos p1 < slen js"
      using jsmn_char_ok [OF nul less(2) lt] unfolding step_ok_def by blast
    have r: "r = JSMN_SUCCESS"
      and rest: "jsmn_parse_loop js num (p1\<lparr>pos := pos p1 + 1\<rparr>) toks1 = Some (JSMN_SUCCESS, p', toks')"
      using less(4) c st by (subst (asm) jsmn_parse_loop.simps, simp split: if_splits)+
    have "ps_ok js num (p1\<lparr>pos := pos p1 + 1\<rparr>) toks1" using ok r by (force simp: ps_ok_def)
    moreover have "slen js - pos (p1\<lparr>pos := pos p1 + 1\<rparr>) < slen js - pos p" using ok r lt by auto
    ultimately have ih: "toknext p1 \<le> toknext p'"
      "toknext p' = 0 \<longrightarrow> (\<forall>i. Suc (pos p1) \<le> i \<and> i < slen js \<longrightarrow> sep_char (js ! i))"
      using less(1) [of "p1\<lparr>pos := pos p1 + 1\<rparr>" toks1] ok r rest by simp_all
    have nx: "if sep_char (js ! pos p) then p1 = p else toknext p \<le> toknext p1 \<and> 0 < toknext p1"
      using jsmn_char_next st r by blast
    show ?thesis
    proof (cases "sep_char (js ! pos p)")
      case True
      then show ?thesis using nx ih by (metis Suc_leI le_neq_implies_less)
    qed (use nx ih in auto)
  qed
qed

lemma jsmn_parse_tokens:
  assumes nul: "NUL \<in> set js" and num: "num \<le> length toks"
    and p: "jsmn_parse jsmn_init js toks num = Some (JSMN_SUCCESS, p, toks')"
    and c: "c \<in> set (cstr js)" "\<not> sep_char c"
  shows "0 < toknext p"
proof -
  have i: "ps_ok js num jsmn_init toks" "pos jsmn_init \<le> slen js"
    using num by (simp_all add: ps_ok_def jsmn_init_def)
  obtain r p1 toks1 where l: "jsmn_parse_loop js num jsmn_init toks = Some (r, p1, toks1)"
    using jsmn_parse_loop_ok [OF nul i] by blast
  have r: "r = JSMN_SUCCESS" "p = p1"
    using p l by (cases r; auto simp: jsmn_parse_def bind_eq_Some_iff split: if_splits)+
  obtain k where k: "k < slen js" "cstr js ! k = c" using c(1) by (auto simp: in_set_conv_nth slen_def)
  then have "js ! k = c" by (metis cstr_def slen_def takeWhile_nth)
  then show ?thesis using parse_loop_tokens [OF nul i] l r c(2) k(1) by (auto simp: jsmn_init_def)
qed

section \<open>Properties\<close>

text \<open>C5. Type of the tokens: after a successful parse of any string, well formed as JSON or not, the
  tokens are a forest in pre-order, in which the size of a token is the number of its children and
  strings and primitives have none, and delimit ranges of the string. On tokens of this type
  the lookup never gets stuck: unless there is no token at all, \<open>jsmn_get_value\<close> returns, and its result is
  the index of a token or -1.\<close>

theorem jsmn_parse_type:
  assumes "NUL \<in> set js" and "num \<le> length toks"
    and "jsmn_parse jsmn_init js toks num = Some (JSMN_SUCCESS, p, toks')"
  shows "shaped (slen js) (toknext p) toks' \<and>
    (\<forall>key. 0 < toknext p \<and> NUL \<notin> set key \<longrightarrow>
      (\<exists>v. jsmn_get_value js toks' key = Some v \<and> (v = -1 \<or> 0 < v \<and> v < int (toknext p))))"
proof -
  have "shaped (slen js) (toknext p) toks'" by (rule jsmn_parse_shaped [OF assms])
  then show ?thesis
    using jsmn_get_value_total [OF _ _ slen_less [OF assms(1)] nth_slen [OF assms(1)]] by blast
qed

lemma jsmn_parse_type_witness:
  "\<exists>p toks' v. jsmn_parse jsmn_init (''a,[b c:]'' @ [NUL])
      (replicate 4 \<lparr>tok_type = JSMN_STRING, tok_start = 0, tok_end = 0, tok_size = 0\<rparr>) 4 = Some (JSMN_SUCCESS, p, toks') \<and>
     toknext p = 4 \<and> shaped 8 4 toks' \<and> jsmn_get_value (''a,[b c:]'' @ [NUL]) toks' ''a'' = Some v"
proof -
  let ?js = "''a,[b c:]'' @ [NUL]"
  let ?toks = "replicate 4 \<lparr>tok_type = JSMN_STRING, tok_start = 0, tok_end = 0, tok_size = 0\<rparr>"
  note defs = rd_def jsmn_char_def jsmn_open_def jsmn_close_def jsmn_parse_primitive_def jsmn_alloc_token_def
    upd_tok_def rd_tok_def sep_char_def prim_stop_def schar_def numeral_eq_Suc jsmn_fill_token_def bump_super_def tok_open_def
  have "\<exists>p toks'. jsmn_parse jsmn_init ?js ?toks 4 = Some (JSMN_SUCCESS, p, toks') \<and> toknext p = 4"
    unfolding jsmn_parse_def jsmn_init_def by (subst jsmn_parse_loop.simps, simp add: defs)+
  then obtain p toks' where p: "jsmn_parse jsmn_init ?js ?toks 4 = Some (JSMN_SUCCESS, p, toks')" "toknext p = 4" by blast
  have s: "slen ?js = 8" by (simp add: slen_def cstr_def)
  have n: "NUL \<in> set ?js" by simp
  have k: "NUL \<notin> set ''a''" by simp
  have l: "(4::nat) \<le> length ?toks" by simp
  have "shaped 8 4 toks'" "\<exists>v. jsmn_get_value ?js toks' ''a'' = Some v"
    using jsmn_parse_type [OF n l p(1)] k unfolding p(2) s by (blast intro: zero_less_numeral)+
  then show ?thesis using p by blast
qed

end
