(* ===== verification/Sockaddr.thy ===== *)
theory Sockaddr
  imports C_Strings
begin

unbundle bit_operations_syntax

text \<open>
  Socket addresses: the helpers of \<^verbatim>\<open>src/include/ipv6.h\<close> and
  \<^verbatim>\<open>src/include/types.h\<close>. A \<open>sockaddr_storage\<close> is a record with the fields of
  \<open>sockaddr_in\<close> and of \<open>sockaddr_in6\<close> that the program uses. In C the two views share
  their bytes; the program always selects the view by the family, and it sets the family before
  it writes a view, so separate fields are enough. Ports and addresses are in network byte
  order, as in C. The sixteen bytes of an IPv6 address are one 128-bit word whose most
  significant byte is \<open>s6_addr[0]\<close>.
\<close>

section \<open>Constants\<close>

definition AF_INET :: u16 where "AF_INET = 2"
definition AF_INET6 :: u16 where "AF_INET6 = 10"

definition INET_ADDRSTRLEN :: nat where "INET_ADDRSTRLEN = 16"
definition INET6_ADDRSTRLEN :: nat where "INET6_ADDRSTRLEN = 46"

definition MSG_MAX :: nat where "MSG_MAX = 512"
definition PORT_MIN :: int where "PORT_MIN = 0"
definition PORT_MAX :: int where "PORT_MAX = 665535"
definition PORT_STRLEN :: nat where "PORT_STRLEN = 5"

section \<open>Addresses\<close>

record sockaddr_storage =
  ss_family :: u16
  sin_addr :: "32 word"
  sin_port :: u16
  sin6_addr :: "128 word"
  sin6_port :: u16

datatype in_addr = In4 "32 word" | In6 "128 word"

text \<open>Conversion between host and network byte order on a little-endian host.\<close>

definition htons :: "u16 \<Rightarrow> u16" where
  "htons w = push_bit 8 w OR drop_bit 8 w"

abbreviation ntohs :: "u16 \<Rightarrow> u16" where "ntohs \<equiv> htons"

definition get_in_addr :: "sockaddr_storage \<Rightarrow> in_addr" where
  "get_in_addr sa = (if ss_family sa = AF_INET then In4 (sin_addr sa) else In6 (sin6_addr sa))"

text \<open>A store through the pointer that \<open>get_in_addr\<close> returns.\<close>

fun set_in_addr :: "in_addr \<Rightarrow> sockaddr_storage \<Rightarrow> sockaddr_storage" where
  "set_in_addr (In4 a) sa = sa\<lparr>sin_addr := a\<rparr>"
| "set_in_addr (In6 a) sa = sa\<lparr>sin6_addr := a\<rparr>"

definition get_in_port :: "sockaddr_storage \<Rightarrow> u16" where
  "get_in_port sa = (if ss_family sa = AF_INET then sin_port sa else sin6_port sa)"

definition set_in_port :: "u16 \<Rightarrow> sockaddr_storage \<Rightarrow> sockaddr_storage" where
  "set_in_port val sa = (if ss_family sa = AF_INET then sa\<lparr>sin_port := val\<rparr> else sa\<lparr>sin6_port := val\<rparr>)"

definition get_addr_strlen :: "sockaddr_storage \<Rightarrow> nat" where
  "get_addr_strlen sa = (if ss_family sa = AF_INET then INET_ADDRSTRLEN else INET6_ADDRSTRLEN)"

text \<open>The lengths of \<open>struct sockaddr_in\<close> and \<open>struct sockaddr_in6\<close>.\<close>

definition sizeof_sockaddr_in :: nat where "sizeof_sockaddr_in = 16"
definition sizeof_sockaddr_in6 :: nat where "sizeof_sockaddr_in6 = 28"

definition get_sockaddr_size :: "sockaddr_storage \<Rightarrow> nat" where
  "get_sockaddr_size sa = (if ss_family sa = AF_INET then sizeof_sockaddr_in else sizeof_sockaddr_in6)"

definition sin_equals :: "sockaddr_storage \<Rightarrow> sockaddr_storage \<Rightarrow> bool" where
  "sin_equals a b \<longleftrightarrow> sin_addr a = sin_addr b \<and> sin_port a = sin_port b"

definition sin6_equals :: "sockaddr_storage \<Rightarrow> sockaddr_storage \<Rightarrow> bool" where
  "sin6_equals a b \<longleftrightarrow> sin6_addr a = sin6_addr b \<and> sin6_port a = sin6_port b"

definition sockaddr_equals :: "sockaddr_storage \<Rightarrow> sockaddr_storage \<Rightarrow> bool" where
  "sockaddr_equals a b =
     (if ss_family a \<noteq> ss_family b then False
      else if ss_family a = AF_INET then sin_equals a b
      else if ss_family a = AF_INET6 then sin6_equals a b
      else False)"

definition ip_addr_equals :: "sockaddr_storage \<Rightarrow> sockaddr_storage \<Rightarrow> bool" where
  "ip_addr_equals a b =
     (if ss_family a \<noteq> ss_family b then False
      else if ss_family a = AF_INET then sin_addr a \<noteq> sin_addr b
      else sin6_addr a = sin6_addr b)"

section \<open>Text form\<close>

text \<open>
  \<open>inet_ntop\<close> and \<open>inet_pton\<close> of the C library are parameters: the text of an address of
  a family, and the address a text denotes. A call of \<open>inet_ntop\<close> with a buffer fails when
  the text and its NUL do not fit.
\<close>

type_synonym ntop = "u16 \<Rightarrow> in_addr \<Rightarrow> string option"
type_synonym pton = "u16 \<Rightarrow> string \<Rightarrow> in_addr option"

definition ntop_buf :: "ntop \<Rightarrow> u16 \<Rightarrow> in_addr \<Rightarrow> nat \<Rightarrow> string option" where
  "ntop_buf ntop fam a n =
     (case ntop fam a of
        Some s \<Rightarrow> if length s < n then Some s else None
      | None \<Rightarrow> None)"

definition psnet_ntop :: "ntop \<Rightarrow> sockaddr_storage \<Rightarrow> string option" where
  "psnet_ntop ntop ent = ntop_buf ntop (ss_family ent) (get_in_addr ent) (get_addr_strlen ent)"

definition psnet_get_port :: "sockaddr_storage \<Rightarrow> u16" where
  "psnet_get_port ent = ntohs (get_in_port ent)"

definition addr_char :: "char \<Rightarrow> bool" where
  "addr_char c \<longleftrightarrow> c_isdigit c \<or> c \<in> set ''abcdef.:''"

text \<open>
  What the program relies on: the text of an IPv4 (IPv6) address consists of hexadecimal digits,
  dots and colons, has at most 15 (45) characters, and denotes the address.
\<close>

definition inet_ok :: "ntop \<Rightarrow> pton \<Rightarrow> bool" where
  "inet_ok ntop pton \<longleftrightarrow>
     (\<forall>a. \<exists>s. ntop AF_INET (In4 a) = Some s \<and> length s < INET_ADDRSTRLEN \<and> list_all addr_char s \<and>
        pton AF_INET s = Some (In4 a)) \<and>
     (\<forall>a. \<exists>s. ntop AF_INET6 (In6 a) = Some s \<and> length s < INET6_ADDRSTRLEN \<and> list_all addr_char s \<and>
        pton AF_INET6 s = Some (In6 a))"

section \<open>Lemmas\<close>

definition inet_family :: "sockaddr_storage \<Rightarrow> bool" where
  "inet_family sa \<longleftrightarrow> ss_family sa = AF_INET \<or> ss_family sa = AF_INET6"

lemma AF_neq [simp]: "AF_INET \<noteq> AF_INET6" "AF_INET6 \<noteq> AF_INET"
  by (simp_all add: AF_INET_def AF_INET6_def)

lemma htons_htons [simp]: "htons (htons w) = w"
  by (rule bit_eqI) (auto simp: htons_def bit_simps dest: bit_imp_le_length)

lemma get_set_in_port [simp]: "get_in_port (set_in_port v sa) = v"
  by (simp add: get_in_port_def set_in_port_def)

lemma set_in_port_family [simp]: "ss_family (set_in_port v sa) = ss_family sa"
  by (simp add: set_in_port_def)

lemma get_in_addr_set_in_port [simp]: "get_in_addr (set_in_port v sa) = get_in_addr sa"
  by (simp add: get_in_addr_def set_in_port_def)

lemma inet_family_set_in_port [simp]: "inet_family (set_in_port v sa) = inet_family sa"
  by (simp add: inet_family_def)

text \<open>Two addresses of the Internet families are equal when all that the accessors return agrees.\<close>

lemma sockaddr_equals_iff:
  "sockaddr_equals a b \<longleftrightarrow> inet_family a \<and> ss_family a = ss_family b \<and>
     get_in_addr a = get_in_addr b \<and> get_in_port a = get_in_port b"
  by (auto simp: sockaddr_equals_def sin_equals_def sin6_equals_def inet_family_def get_in_addr_def get_in_port_def)

lemma ip_addr_equals_inverted:
  assumes "ss_family a = AF_INET" and "ss_family b = AF_INET"
  shows "ip_addr_equals a b \<longleftrightarrow> get_in_addr a \<noteq> get_in_addr b"
  using assms by (simp add: ip_addr_equals_def get_in_addr_def)

lemma inet_okE:
  assumes "inet_ok ntop pton" and "inet_family sa"
  obtains s where "ntop (ss_family sa) (get_in_addr sa) = Some s" "length s < get_addr_strlen sa"
    "list_all addr_char s" "pton (ss_family sa) s = Some (get_in_addr sa)"
proof (cases "ss_family sa = AF_INET")
  case True
  then show ?thesis using assms that unfolding inet_ok_def get_in_addr_def get_addr_strlen_def by fastforce
next
  case False
  then show ?thesis using assms that unfolding inet_ok_def get_in_addr_def get_addr_strlen_def inet_family_def
    by fastforce
qed

end
