(* ===== verification/Network.thy ===== *)
theory Network
  imports Sockaddr
begin

text \<open>
  The socket helpers of \<^verbatim>\<open>src/common/network.c\<close>. The operating system is an explicit
  script of the results its calls return: how many bytes the next \<open>send\<close> accepts, what the
  next \<open>recv\<close> delivers, whether the next datagram is sent. A call that finds its script
  empty blocks for ever (\<open>None\<close>). The bytes written to the connection and the datagrams are
  recorded in order. A buffer filled by \<open>snprintf\<close> is the bytes it wrote, with their NUL;
  reading further is undefined.
\<close>

section \<open>The operating system\<close>

datatype send_event = SendN nat | SendErr nat

datatype recv_event = RecvData "char list" | RecvEOF | RecvErr nat

datatype udp_event = UdpSent | UdpSockErr nat | UdpSendErr nat

record net =
  send_script :: "send_event list"
  recv_script :: "recv_event list"
  udp_script :: "udp_event list"
  tcp_out :: "char list"
  dgrams :: "(sockaddr_storage \<times> char list) list"

text \<open>A UDP or TCP message from a client; its connection is the one of the \<open>net\<close>.\<close>

datatype socktype = SOCK_STREAM | SOCK_DGRAM

record msg_info =
  mi_socktype :: socktype
  mi_len :: nat
  mi_addr :: sockaddr_storage
  mi_msg :: "char list"

text \<open>\<open>recv\<close> of at most \<open>n\<close> bytes; the rest of a segment stays in the queue.\<close>

fun c_recv :: "nat \<Rightarrow> recv_event list \<Rightarrow> ((nat + char list) \<times> recv_event list) option" where
  "c_recv n [] = None"
| "c_recv n (RecvErr e # evs) = Some (Inl e, evs)"
| "c_recv n (RecvEOF # evs) = Some (Inr [], evs)"
| "c_recv n (RecvData cs # evs) =
     Some (Inr (take n cs), if length cs \<le> n then evs else RecvData (drop n cs) # evs)"

text \<open>\<open>snprintf\<close> of a text into a buffer of \<open>n\<close> bytes: the length of the whole text, and
  the bytes that are in the buffer. \<open>sprintf\<close> is undefined when they do not fit.\<close>

definition c_snprintf :: "nat \<Rightarrow> string \<Rightarrow> nat \<times> char list" where
  "c_snprintf n s = (length s, if n = 0 then [] else take (n - 1) s @ [NUL])"

definition c_sprintf :: "nat \<Rightarrow> string \<Rightarrow> (nat \<times> char list) option" where
  "c_sprintf n s = (if length s < n then Some (length s, s @ [NUL]) else None)"

section \<open>Operations\<close>

fun tcp_send_loop ::
  "send_event list \<Rightarrow> char list \<Rightarrow> nat \<Rightarrow> nat \<Rightarrow> char list \<Rightarrow> (int \<times> send_event list \<times> char list) option" where
  "tcp_send_loop evs buf len bsent out =
     (if \<not> bsent < len then Some (int bsent, evs, out)
      else if length buf < len then None
      else (case evs of
         [] \<Rightarrow> None
       | SendErr e # evs \<Rightarrow> Some (- int e, evs, out)
       | SendN k # evs \<Rightarrow>
           let rv = min k (len - bsent) in
           tcp_send_loop evs buf len (bsent + rv) (out @ take rv (drop bsent buf))))"

declare tcp_send_loop.simps [simp del]

definition tcp_send_bytes :: "char list \<Rightarrow> nat \<Rightarrow> net \<Rightarrow> (int \<times> net) option" where
  "tcp_send_bytes buf len w = do {
     (rv, evs, out) \<leftarrow> tcp_send_loop (send_script w) buf len 0 (tcp_out w);
     Some (rv, w\<lparr>send_script := evs, tcp_out := out\<rparr>)
   }"

definition tcp_sendf :: "nat \<Rightarrow> string \<Rightarrow> net \<Rightarrow> (int \<times> net) option" where
  "tcp_sendf n text w = (let (len, buf) = c_snprintf n text in tcp_send_bytes buf len w)"

text \<open>Stores \<open>data\<close> at \<open>buf + i\<close>.\<close>

definition wr_bytes :: "char list \<Rightarrow> nat \<Rightarrow> char list \<Rightarrow> char list option" where
  "wr_bytes buf i data =
     (if i + length data \<le> length buf
      then Some (take i buf @ data @ drop (i + length data) buf) else None)"

definition recv_size :: "recv_event list \<Rightarrow> nat" where
  "recv_size evs = sum_list (map (\<lambda>ev. case ev of RecvData cs \<Rightarrow> Suc (length cs) | _ \<Rightarrow> 1) evs)"

lemma recv_size_less:
  assumes "c_recv n evs = Some (Inr data, evs')" and "data \<noteq> []"
  shows "recv_size evs' < recv_size evs"
  using assms by (cases "(n, evs)" rule: c_recv.cases) (auto simp: recv_size_def split: if_splits)

function read_bytes_loop ::
  "recv_event list \<Rightarrow> char list \<Rightarrow> nat \<Rightarrow> nat \<Rightarrow> (int \<times> char list \<times> recv_event list) option" where
  "read_bytes_loop evs buf bytes bread =
     (if \<not> bread < bytes then Some (int bread, buf, evs)
      else (case c_recv (bytes - bread) evs of
         None \<Rightarrow> None
       | Some (Inl e, evs') \<Rightarrow> Some (- int e, buf, evs')
       | Some (Inr data, evs') \<Rightarrow>
           if data = [] then Some (int bread, buf, evs')
           else (case wr_bytes buf bread data of
              None \<Rightarrow> None
            | Some buf' \<Rightarrow> read_bytes_loop evs' buf' bytes (bread + length data))))"
  by pat_completeness auto
termination
  by (relation "measure (\<lambda>(evs, _, _, _). recv_size evs)") (auto dest: recv_size_less)

declare read_bytes_loop.simps [simp del]

definition tcp_read_bytes :: "char list \<Rightarrow> nat \<Rightarrow> net \<Rightarrow> (int \<times> char list \<times> net) option" where
  "tcp_read_bytes buf bytes w = do {
     (rv, buf, evs) \<leftarrow> read_bytes_loop (recv_script w) buf bytes 0;
     Some (rv, buf, w\<lparr>recv_script := evs\<rparr>)
   }"

definition DELIM :: string where
  "DELIM = [CR, LF, CR, LF]"

text \<open>The loop of \<open>tcp_read_msg\<close>; \<open>dpos\<close> is the state of the delimiter matcher. The
  first component of the result is the value of an early \<open>return\<close>.\<close>

function read_msg_loop ::
  "recv_event list \<Rightarrow> char list \<Rightarrow> nat \<Rightarrow> nat \<Rightarrow> nat \<Rightarrow> (int option \<times> nat \<times> char list \<times> recv_event list) option" where
  "read_msg_loop evs buf len i dpos =
     (if \<not> (i < len \<and> dpos < length DELIM) then Some (None, i, buf, evs)
      else (case c_recv 1 evs of
         None \<Rightarrow> None
       | Some (Inl e, evs') \<Rightarrow> Some (Some (- int e), i, buf, evs')
       | Some (Inr [], evs') \<Rightarrow> Some (Some 0, i, buf, evs')
       | Some (Inr (c # _), evs') \<Rightarrow>
           let dpos' = (if c = DELIM ! dpos then dpos + 1 else 0) in
           (case wr buf i c of
              None \<Rightarrow> None
            | Some buf' \<Rightarrow> read_msg_loop evs' buf' len (i + 1) dpos')))"
  by pat_completeness auto
termination
  by (relation "measure (\<lambda>(_, _, len, i, _). len - i)") auto

declare read_msg_loop.simps [simp del]

definition tcp_read_msg :: "char list \<Rightarrow> nat \<Rightarrow> net \<Rightarrow> (int \<times> char list \<times> net) option" where
  "tcp_read_msg buf len w = do {
     (ret, i, buf, evs) \<leftarrow> read_msg_loop (recv_script w) buf len 0 0;
     let w = w\<lparr>recv_script := evs\<rparr>;
     (case ret of
        Some rv \<Rightarrow> Some (rv, buf, w)
      | None \<Rightarrow> do {
          buf \<leftarrow> (if i < len then wr buf i NUL else Some buf);
          Some (int i, buf, w)
        })
   }"

definition udp_send :: "sockaddr_storage \<Rightarrow> nat \<Rightarrow> char list \<Rightarrow> net \<Rightarrow> (int \<times> net) option" where
  "udp_send addr len msg w =
     (case udp_script w of
        [] \<Rightarrow> None
      | UdpSockErr e # evs \<Rightarrow> Some (- int e, w\<lparr>udp_script := evs\<rparr>)
      | UdpSendErr e # evs \<Rightarrow> Some (- int e, w\<lparr>udp_script := evs\<rparr>)
      | UdpSent # evs \<Rightarrow>
          if length msg < len then None
          else Some (int len, w\<lparr>udp_script := evs, dgrams := dgrams w @ [(addr, take len msg)]\<rparr>))"

definition udp_sendf :: "sockaddr_storage \<Rightarrow> nat \<Rightarrow> string \<Rightarrow> net \<Rightarrow> (int \<times> net) option" where
  "udp_sendf addr n text w = (let (len, buf) = c_snprintf n text in udp_send addr len buf w)"

section \<open>Lemmas\<close>

lemma length_DELIM [simp]: "length DELIM = 4"
  by (simp add: DELIM_def)

fun send_capacity :: "send_event list \<Rightarrow> nat" where
  "send_capacity (SendN k # evs) = k + send_capacity evs"
| "send_capacity _ = 0"

text \<open>The bytes a script delivers before the first end of file or error.\<close>

fun stream :: "recv_event list \<Rightarrow> char list" where
  "stream (RecvData cs # evs) = cs @ stream evs"
| "stream _ = []"

definition segments_ok :: "recv_event list \<Rightarrow> bool" where
  "segments_ok evs \<longleftrightarrow> RecvData [] \<notin> set evs"

lemma tcp_send_loop_sound:
  assumes "tcp_send_loop evs buf len bsent out = Some (rv, evs', out')" and "bsent \<le> len" and "len \<le> length buf"
  shows "rv = int len \<and> out' = out @ take (len - bsent) (drop bsent buf) \<or>
    rv \<le> 0 \<and> (\<exists>n \<le> len - bsent. out' = out @ take n (drop bsent buf))"
  using assms
proof (induction evs arbitrary: bsent out)
  case Nil
  then show ?case by (auto simp: tcp_send_loop.simps [of "[]"] split: if_splits)
next
  case (Cons ev evs)
  show ?case
  proof (cases "bsent < len")
    case False
    then show ?thesis using Cons.prems by (simp add: tcp_send_loop.simps [of "ev # evs"])
  next
    case lt: True
    show ?thesis
    proof (cases ev)
      case (SendN k)
      let ?r = "min k (len - bsent)"
      have *: "take ?r (drop bsent buf) @ take n (drop (bsent + ?r) buf) = take (?r + n) (drop bsent buf)" for n
        unfolding take_add drop_drop by (simp add: add.commute)
      have "tcp_send_loop evs buf len (bsent + ?r) (out @ take ?r (drop bsent buf)) = Some (rv, evs', out')"
        using Cons.prems lt SendN by (simp add: tcp_send_loop.simps [of "SendN k # evs"] Let_def)
      from Cons.IH [OF this] lt Cons.prems(3) consider
          "rv = int len" "out' = out @ take ?r (drop bsent buf) @ take (len - (bsent + ?r)) (drop (bsent + ?r) buf)"
        | n where "rv \<le> 0" "n \<le> len - (bsent + ?r)" "out' = out @ take ?r (drop bsent buf) @ take n (drop (bsent + ?r) buf)"
        by fastforce
      then show ?thesis
      proof cases
        case 1
        then show ?thesis unfolding * using lt by simp
      next
        case (2 n)
        then show ?thesis unfolding * using lt by (intro disjI2 conjI exI [of _ "?r + n"]) auto
      qed
    next
      case (SendErr e)
      then show ?thesis using Cons.prems lt
        by (auto simp: tcp_send_loop.simps [of "SendErr e # evs"] intro: exI [of _ 0])
    qed
  qed
qed

lemma tcp_send_loop_complete:
  assumes "len - bsent \<le> send_capacity evs" and "bsent \<le> len" and "len \<le> length buf"
  shows "\<exists>evs'. tcp_send_loop evs buf len bsent out = Some (int len, evs', out @ take (len - bsent) (drop bsent buf))"
  using assms
proof (induction evs arbitrary: bsent out)
  case Nil
  then show ?case by (simp add: tcp_send_loop.simps)
next
  case (Cons ev evs)
  show ?case
  proof (cases "bsent < len")
    case False
    then show ?thesis using Cons.prems by (simp add: tcp_send_loop.simps)
  next
    case lt: True
    then obtain k where ev: "ev = SendN k" using Cons.prems by (cases ev) auto
    let ?r = "min k (len - bsent)"
    have "take ?r (drop bsent buf) @ take (len - (bsent + ?r)) (drop (bsent + ?r) buf) = take (len - bsent) (drop bsent buf)"
      using take_add [of ?r "len - (bsent + ?r)" "drop bsent buf"] lt by (simp add: add.commute)
    then show ?thesis
      using Cons.IH [of "bsent + ?r" "out @ take ?r (drop bsent buf)"] Cons.prems ev lt
      by (subst tcp_send_loop.simps) (simp add: Let_def)
  qed
qed

text \<open>A connection that accepts at least \<open>n\<close> more bytes, in pieces of any positive size.\<close>

definition good_link :: "nat \<Rightarrow> net \<Rightarrow> bool" where
  "good_link n w \<longleftrightarrow> list_all (\<lambda>ev. case ev of SendN k \<Rightarrow> 0 < k | SendErr _ \<Rightarrow> False) (send_script w) \<and>
     n \<le> length (send_script w)"

lemma tcp_send_loop_accepting:
  assumes "list_all (\<lambda>ev. case ev of SendN k \<Rightarrow> 0 < k | SendErr _ \<Rightarrow> False) evs" and "len - bsent \<le> length evs"
    and "bsent \<le> len" and "len \<le> length buf"
  shows "\<exists>m \<le> len - bsent. tcp_send_loop evs buf len bsent out =
    Some (int len, drop m evs, out @ take (len - bsent) (drop bsent buf))"
  using assms
proof (induction evs arbitrary: bsent out)
  case Nil
  then show ?case by (simp add: tcp_send_loop.simps)
next
  case (Cons ev evs)
  show ?case
  proof (cases "bsent < len")
    case False
    then show ?thesis using Cons.prems by (simp add: tcp_send_loop.simps)
  next
    case lt: True
    obtain k where ev: "ev = SendN k" "0 < k" using Cons.prems(1) by (cases ev) auto
    let ?r = "min k (len - bsent)"
    have r: "0 < ?r" "?r \<le> len - bsent" using ev lt by auto
    have split: "take ?r (drop bsent buf) @ take (len - (bsent + ?r)) (drop (bsent + ?r) buf) = take (len - bsent) (drop bsent buf)"
      using take_add [of ?r "len - (bsent + ?r)" "drop bsent buf"] lt by (simp add: add.commute)
    have "len - (bsent + ?r) \<le> length evs" "bsent + ?r \<le> len" using Cons.prems(2) r by auto
    then obtain m where m: "m \<le> len - (bsent + ?r)"
      "tcp_send_loop evs buf len (bsent + ?r) (out @ take ?r (drop bsent buf)) =
        Some (int len, drop m evs, (out @ take ?r (drop bsent buf)) @ take (len - (bsent + ?r)) (drop (bsent + ?r) buf))"
      using Cons.IH [of "bsent + ?r" "out @ take ?r (drop bsent buf)"] Cons.prems by auto
    have "tcp_send_loop (ev # evs) buf len bsent out =
        Some (int len, drop (Suc m) (ev # evs), out @ take (len - bsent) (drop bsent buf))"
      using m(2) ev lt Cons.prems(4) split by (subst tcp_send_loop.simps) (simp add: Let_def)
    moreover have "Suc m \<le> len - bsent" using m(1) r lt by auto
    ultimately show ?thesis by blast
  qed
qed

lemma tcp_send_bytes_good:
  assumes "good_link (len + n) w" and "len \<le> length buf"
  obtains evs where "tcp_send_bytes buf len w = Some (int len, w\<lparr>send_script := evs, tcp_out := tcp_out w @ take len buf\<rparr>)"
    "good_link n (w\<lparr>send_script := evs, tcp_out := tcp_out w @ take len buf\<rparr>)"
proof -
  obtain m where m: "m \<le> len" "tcp_send_loop (send_script w) buf len 0 (tcp_out w) =
      Some (int len, drop m (send_script w), tcp_out w @ take len buf)"
    using tcp_send_loop_accepting [of "send_script w" len 0 buf "tcp_out w"] assms by (auto simp: good_link_def)
  have "set (drop m (send_script w)) \<subseteq> set (send_script w)" by (rule set_drop_subset)
  then show ?thesis using m assms(1)
    by (intro that [of "drop m (send_script w)"]) (auto simp: tcp_send_bytes_def good_link_def list_all_iff)
qed

lemma c_recv_one:
  assumes "segments_ok evs" and "stream evs = c # cs"
  obtains evs' where "c_recv 1 evs = Some (Inr [c], evs')" "stream evs' = cs" "segments_ok evs'"
proof -
  obtain ds evs1 where evs: "evs = RecvData (c # ds) # evs1" and cs: "cs = ds @ stream evs1"
    using assms by (cases evs rule: stream.cases) (auto simp: segments_ok_def append_eq_Cons_conv)
  show ?thesis
    by (rule that [of "if ds = [] then evs1 else RecvData ds # evs1"])
      (use evs cs assms(1) in \<open>auto simp: segments_ok_def\<close>)
qed

text \<open>The matcher as an automaton on bytes.\<close>

definition dstep :: "nat \<Rightarrow> char \<Rightarrow> nat" where
  "dstep dpos c = (if c = DELIM ! dpos then dpos + 1 else 0)"

text \<open>\<open>r\<close> is what the reader takes: it stops as soon as the matcher accepts.\<close>

fun takes :: "nat \<Rightarrow> nat \<Rightarrow> char list \<Rightarrow> bool" where
  "takes dpos n [] \<longleftrightarrow> n = 0 \<or> dpos = length DELIM"
| "takes dpos n (c # r) \<longleftrightarrow> 0 < n \<and> dpos < length DELIM \<and> takes (dstep dpos c) (n - 1) r"

lemma read_msg_loop_takes:
  assumes "takes dpos (len - i) r" and "segments_ok evs" and "stream evs = r @ rest"
    and "i + length r \<le> length buf" and "dpos \<le> length DELIM"
  shows "\<exists>evs'. read_msg_loop evs buf len i dpos =
      Some (None, i + length r, take i buf @ r @ drop (i + length r) buf, evs') \<and>
    stream evs' = rest \<and> segments_ok evs'"
  using assms
proof (induction r arbitrary: dpos i evs buf)
  case Nil
  then show ?case by (subst read_msg_loop.simps) auto
next
  case (Cons c r)
  obtain evs' where rc: "c_recv 1 evs = Some (Inr [c], evs')" and st: "stream evs' = r @ rest" "segments_ok evs'"
    using c_recv_one [OF Cons.prems(2)] Cons.prems(3) by (metis append_Cons)
  have lt: "i < len" "dpos < length DELIM" "i < length buf" using Cons.prems by auto
  have "read_msg_loop evs buf len i dpos = read_msg_loop evs' (buf[i := c]) len (i + 1) (dstep dpos c)"
    using rc lt by (subst read_msg_loop.simps) (simp add: wr_def dstep_def Let_def)
  moreover have "takes (dstep dpos c) (len - (i + 1)) r" "dstep dpos c \<le> length DELIM"
    using Cons.prems(1) lt by (simp_all add: dstep_def)
  then obtain evs'' where "read_msg_loop evs' (buf[i := c]) len (i + 1) (dstep dpos c) =
      Some (None, i + 1 + length r, take (i + 1) (buf[i := c]) @ r @ drop (i + 1 + length r) (buf[i := c]), evs'')"
    "stream evs'' = rest" "segments_ok evs''"
    using Cons.IH [of "dstep dpos c" "i + 1" evs' "buf[i := c]"] st Cons.prems(4) by auto
  ultimately show ?case using lt by (auto simp: take_Suc_conv_app_nth)
qed

lemma takes_clean:
  "CR \<notin> set m \<Longrightarrow> length m + 4 \<le> n \<Longrightarrow> takes 0 n (m @ DELIM)"
proof (induction m arbitrary: n)
  case Nil
  then show ?case by (simp add: DELIM_def dstep_def numeral_eq_Suc)
next
  case (Cons c m)
  then have "dstep 0 c = 0" by (auto simp: dstep_def DELIM_def)
  then show ?case using Cons by (simp add: DELIM_def)
qed

lemma tcp_read_msg_frame:
  assumes "CR \<notin> set m" and "length m + 4 < len" and "len \<le> length buf"
    and "segments_ok (recv_script w)" and "stream (recv_script w) = m @ DELIM @ rest"
  shows "\<exists>evs. tcp_read_msg buf len w =
      Some (int (length m + 4), m @ DELIM @ NUL # drop (length m + 5) buf, w\<lparr>recv_script := evs\<rparr>) \<and>
    stream evs = rest \<and> segments_ok evs"
proof -
  have "takes 0 (len - 0) (m @ DELIM)" using takes_clean assms(1,2) by simp
  then obtain evs' where "read_msg_loop (recv_script w) buf len 0 0 =
      Some (None, length m + 4, m @ DELIM @ drop (length m + 4) buf, evs')" "stream evs' = rest" "segments_ok evs'"
    using read_msg_loop_takes [of 0 len 0 "m @ DELIM" "recv_script w" rest buf] assms by auto
  moreover have "(m @ DELIM @ drop (length m + 4) buf)[length m + 4 := NUL] = m @ DELIM @ NUL # drop (length m + 5) buf"
    using assms(2,3) Cons_nth_drop_Suc [of "length m + 4" buf]
    by (simp add: list_update_append Cons_nth_drop_Suc [symmetric] add.commute)
  ultimately show ?thesis using assms(2,3)
    by (intro exI [of _ evs']) (simp add: tcp_read_msg_def Let_def wr_def)
qed

lemma tcp_read_msg_full:
  assumes "CR \<notin> set r" and "NUL \<notin> set r" and "0 < length r" and "length buf = length r"
    and "segments_ok (recv_script w)" and "stream (recv_script w) = r @ rest"
  shows "\<exists>buf' w'. tcp_read_msg buf (length r) w = Some (int (length r), buf', w') \<and> NUL \<notin> set buf'"
proof -
  have "CR \<notin> set s \<Longrightarrow> takes 0 (length s) s" for s
    by (induction s) (auto simp: dstep_def DELIM_def)
  then show ?thesis
    using read_msg_loop_takes [of 0 "length r" 0 r "recv_script w" rest buf] assms
    by (auto simp: tcp_read_msg_def Let_def)
qed

section \<open>Properties\<close>

text \<open>C12. \<open>tcp_send_bytes\<close> sends all of the buffer or reports an error: whatever the sizes of
  the partial sends, a return is either the length, with exactly the first \<open>len\<close> bytes of the
  buffer put on the connection in order, or not positive, with a prefix of them; and when
  the connection accepts enough bytes, it does return the length.\<close>

theorem tcp_send_bytes_all:
  assumes "len \<le> length buf"
  shows "(\<forall>rv w'. tcp_send_bytes buf len w = Some (rv, w') \<longrightarrow>
      rv = int len \<and> tcp_out w' = tcp_out w @ take len buf \<or>
      rv \<le> 0 \<and> (\<exists>n \<le> len. tcp_out w' = tcp_out w @ take n buf)) \<and>
    (len \<le> send_capacity (send_script w) \<longrightarrow>
      (\<exists>w'. tcp_send_bytes buf len w = Some (int len, w') \<and> tcp_out w' = tcp_out w @ take len buf))"
proof (intro conjI allI impI)
  fix rv w' assume "tcp_send_bytes buf len w = Some (rv, w')"
  then obtain evs out where "tcp_send_loop (send_script w) buf len 0 (tcp_out w) = Some (rv, evs, out)"
    and "tcp_out w' = out" by (auto simp: tcp_send_bytes_def bind_eq_Some_iff)
  then show "rv = int len \<and> tcp_out w' = tcp_out w @ take len buf \<or>
      rv \<le> 0 \<and> (\<exists>n \<le> len. tcp_out w' = tcp_out w @ take n buf)"
    using tcp_send_loop_sound assms by fastforce
next
  assume "len \<le> send_capacity (send_script w)"
  then show "\<exists>w'. tcp_send_bytes buf len w = Some (int len, w') \<and> tcp_out w' = tcp_out w @ take len buf"
    using tcp_send_loop_complete [of len 0 "send_script w" buf "tcp_out w"] assms
    by (auto simp: tcp_send_bytes_def)
qed

definition net_of :: "send_event list \<Rightarrow> recv_event list \<Rightarrow> net" where
  "net_of ss rs = \<lparr>send_script = ss, recv_script = rs, udp_script = [], tcp_out = [], dgrams = []\<rparr>"

lemma tcp_send_bytes_all_witness:
  "\<exists>w'. tcp_send_bytes ''hello'' 5 (net_of [SendN 2, SendN 7] []) = Some (5, w') \<and> tcp_out w' = ''hello''"
  using tcp_send_bytes_all [of 5 "''hello''" "net_of [SendN 2, SendN 7] []"] by (simp add: net_of_def)

text \<open>C13. Framing: a message without carriage returns that is followed by the delimiter and fits
  the buffer is read exactly, however the connection cuts it into segments; the buffer is a C
  string when there is room for its NUL, and what follows the message stays unread. But a message that fills the buffer is accepted
  without a terminator: when the first \<open>len\<close> bytes of the connection hold no carriage return and no NUL, \<open>tcp_read_msg\<close> returns \<open>len\<close>
  (the value of success) and a buffer that holds no NUL at all.\<close>

theorem tcp_read_msg_framing:
  assumes "segments_ok (recv_script w)"
  shows "(CR \<notin> set m \<and> length m + 4 < len \<and> len \<le> length buf \<and> stream (recv_script w) = m @ DELIM @ rest \<longrightarrow>
      (\<exists>w'. tcp_read_msg buf len w = Some (int (length m + 4), m @ DELIM @ NUL # drop (length m + 5) buf, w') \<and>
        stream (recv_script w') = rest \<and> segments_ok (recv_script w'))) \<and>
    (CR \<notin> set m \<and> NUL \<notin> set m \<and> 0 < length m \<and> length buf = length m \<and> stream (recv_script w) = m @ rest \<longrightarrow>
      (\<exists>buf' w'. tcp_read_msg buf (length m) w = Some (int (length m), buf', w') \<and> NUL \<notin> set buf'))"
proof (intro conjI impI; elim conjE)
  assume "CR \<notin> set m" "length m + 4 < len" "len \<le> length buf" "stream (recv_script w) = m @ DELIM @ rest"
  then show "\<exists>w'. tcp_read_msg buf len w = Some (int (length m + 4), m @ DELIM @ NUL # drop (length m + 5) buf, w') \<and>
      stream (recv_script w') = rest \<and> segments_ok (recv_script w')"
    using tcp_read_msg_frame [of m len buf w rest] assms by auto
qed (rule tcp_read_msg_full [OF _ _ _ _ assms])

lemma tcp_read_msg_framing_witness:
  "(\<exists>w'. tcp_read_msg (replicate 9 NUL) 9 (net_of [] [RecvData ''hi'', RecvData [CR, LF, CR], RecvData (LF # ''next'')]) =
     Some (6, ''hi'' @ DELIM @ replicate 3 NUL, w') \<and> stream (recv_script w') = ''next'') \<and>
   (\<exists>buf' w'. tcp_read_msg (replicate 3 NUL) 3 (net_of [] [RecvData ''long message'']) = Some (3, buf', w') \<and>
     NUL \<notin> set buf')"
proof
  let ?w = "net_of [] [RecvData ''hi'', RecvData [CR, LF, CR], RecvData (LF # ''next'')]" and ?b = "replicate 9 NUL"
  have ok: "segments_ok (recv_script ?w)" "stream (recv_script ?w) = ''hi'' @ DELIM @ ''next''"
    by (simp_all add: net_of_def segments_ok_def DELIM_def)
  have fits: "CR \<notin> set ''hi'' \<and> length ''hi'' + 4 < 9 \<and> 9 \<le> length ?b" by simp
  have len: "int (length ''hi'' + 4) = 6" "NUL # drop (length ''hi'' + 5) ?b = replicate 3 NUL" by (simp_all add: numeral_eq_Suc)
  show "\<exists>w'. tcp_read_msg ?b 9 ?w = Some (6, ''hi'' @ DELIM @ replicate 3 NUL, w') \<and> stream (recv_script w') = ''next''"
    using tcp_read_msg_framing [OF ok(1), of "''hi''" 9 ?b "''next''", unfolded len] fits ok(2) by blast
next
  let ?w = "net_of [] [RecvData ''long message'']" and ?b = "replicate 3 NUL"
  have ok: "segments_ok (recv_script ?w)" "stream (recv_script ?w) = ''lon'' @ ''g message''"
    by (simp_all add: net_of_def segments_ok_def)
  have len: "length ''lon'' = 3" "int 3 = 3" "length ?b = 3" by simp_all
  have fits: "CR \<notin> set ''lon'' \<and> NUL \<notin> set ''lon'' \<and> (0::nat) < 3" by simp
  show "\<exists>buf' w'. tcp_read_msg ?b 3 ?w = Some (3, buf', w') \<and> NUL \<notin> set buf'"
    using tcp_read_msg_framing [OF ok(1), of "''lon''" 3 ?b "''g message''", unfolded len] fits ok(2) by blast
qed

end
