(* ===== verification/Jsmn_Doc.thy ===== *)
theory Jsmn_Doc
  imports Jsmn
begin

text \<open>
  What the tokenizer computes. A document is a tree of primitives, strings, arrays and objects
  with the separators between them; \<open>render\<close> is its text and \<open>toks_of\<close> the token list
  it stands for. The tokenizer maps the text of every well-formed document to its tokens, and
  the lookup functions of psnet find in them the member that \<open>obj_lookup\<close> finds in the tree.
\<close>

section \<open>Documents\<close>

text \<open>
  The dialect of the tokenizer: colons and commas are separators like white space. The elements
  of a container each follow a separator, and the container may end with one.
\<close>

datatype jval = JPrim string | JStr string | JCont bool kids
     and kids = KNil string | KCons string jval kids

abbreviation open_char :: "bool \<Rightarrow> char" where
  "open_char ob \<equiv> (if ob then CHR ''{'' else CHR ''['')"

abbreviation close_char :: "bool \<Rightarrow> char" where
  "close_char ob \<equiv> (if ob then CHR ''}'' else CHR '']'')"

primrec render :: "jval \<Rightarrow> string" and render_kids :: "kids \<Rightarrow> string" where
  "render (JPrim s) = s"
| "render (JStr s) = QUOTE # s @ [QUOTE]"
| "render (JCont ob ks) = open_char ob # render_kids ks @ [close_char ob]"
| "render_kids (KNil sep) = sep"
| "render_kids (KCons sep v ks) = sep @ render v @ render_kids ks"

primrec nkids :: "kids \<Rightarrow> nat" where
  "nkids (KNil sep) = 0"
| "nkids (KCons sep v ks) = Suc (nkids ks)"

definition mk_tok :: "jsmntype_t \<Rightarrow> nat \<Rightarrow> nat \<Rightarrow> nat \<Rightarrow> jsmntok_t" where
  "mk_tok ty a b n = \<lparr>tok_type = ty, tok_start = int a, tok_end = int b, tok_size = int n\<rparr>"

abbreviation cont_type :: "bool \<Rightarrow> jsmntype_t" where
  "cont_type ob \<equiv> (if ob then JSMN_OBJECT else JSMN_ARRAY)"

primrec toks_of :: "nat \<Rightarrow> jval \<Rightarrow> jsmntok_t list" and kids_toks :: "nat \<Rightarrow> kids \<Rightarrow> jsmntok_t list" where
  "toks_of a (JPrim s) = [mk_tok JSMN_PRIMITIVE a (a + length s) 0]"
| "toks_of a (JStr s) = [mk_tok JSMN_STRING (a + 1) (a + 1 + length s) 0]"
| "toks_of a (JCont ob ks) =
     mk_tok (cont_type ob) a (a + length (render_kids ks) + 2) (nkids ks) # kids_toks (a + 1) ks"
| "kids_toks a (KNil sep) = []"
| "kids_toks a (KCons sep v ks) =
     toks_of (a + length sep) v @ kids_toks (a + length sep + length (render v)) ks"

definition prim_char :: "char \<Rightarrow> bool" where
  "prim_char c \<longleftrightarrow> c \<noteq> NUL \<and> \<not> prim_stop c \<and> 32 \<le> schar c \<and> schar c < 127"

definition prim_ok :: "string \<Rightarrow> bool" where
  "prim_ok s \<longleftrightarrow> s \<noteq> [] \<and> list_all prim_char s \<and> hd s \<notin> {CHR ''{'', CHR ''['', QUOTE}"

fun str_ok :: "string \<Rightarrow> bool" where
  "str_ok [] = True"
| "str_ok (c # cs) =
     (c \<noteq> NUL \<and> c \<noteq> QUOTE \<and>
      (if c = BACKSLASH then (case cs of [] \<Rightarrow> False | e # cs' \<Rightarrow> escape_ok e \<and> str_ok cs') else str_ok cs))"

text \<open>A primitive is followed by a separator unless it is the last element.\<close>

primrec jval_ok :: "jval \<Rightarrow> bool" and kids_ok :: "kids \<Rightarrow> bool" where
  "jval_ok (JPrim s) = prim_ok s"
| "jval_ok (JStr s) = str_ok s"
| "jval_ok (JCont ob ks) = kids_ok ks"
| "kids_ok (KNil sep) = list_all sep_char sep"
| "kids_ok (KCons sep v ks) =
     (list_all sep_char sep \<and> jval_ok v \<and> kids_ok ks \<and>
      (case v of JPrim s \<Rightarrow> (case ks of KNil _ \<Rightarrow> True | KCons sep' _ _ \<Rightarrow> sep' \<noteq> []) | _ \<Rightarrow> True))"

text \<open>The index of the value of the first member whose name starts with \<open>key\<close>; \<open>i\<close> is the
  index of the first name. The search ends at a name that is not a string.\<close>

fun obj_lookup :: "string \<Rightarrow> nat \<Rightarrow> kids \<Rightarrow> int" where
  "obj_lookup key i (KCons sep (JStr s) (KCons sep' v ks)) =
     (if take (length key) s = key then int i + 1
      else obj_lookup key (i + 1 + length (toks_of 0 v)) ks)"
| "obj_lookup key i _ = -1"

section \<open>Scanning\<close>

definition stops :: "char list \<Rightarrow> bool" where
  "stops post \<longleftrightarrow> (\<exists>c cs. post = c # cs \<and> (c = NUL \<or> prim_stop c))"

lemma prim_scan_prim:
  assumes "list_all prim_char s" and "stops post"
  shows "prim_scan (s @ post) i = Some (Some (i + length s))"
  using assms(1)
proof (induction s arbitrary: i)
  case Nil
  then show ?case using assms(2) by (auto simp: stops_def)
next
  case (Cons c s)
  then show ?case by (simp add: prim_char_def)
qed

lemma str_scan_str: "str_ok s \<Longrightarrow> str_scan (s @ QUOTE # post) i = Some (StrEnd (i + length s))"
  by (induction s arbitrary: i rule: str_ok.induct) (auto split: list.splits if_splits)

section \<open>Open tokens\<close>

text \<open>\<open>sup_of ts\<close> is the innermost open token of \<open>ts\<close> (-1 if there is none).\<close>

fun sup_of :: "jsmntok_t list \<Rightarrow> int" where
  "sup_of ts = (case find_open ts (length ts) of Some (Some i) \<Rightarrow> int i | _ \<Rightarrow> -1)"

declare sup_of.simps [simp del]

definition bump :: "int \<Rightarrow> nat \<Rightarrow> jsmntok_t list \<Rightarrow> jsmntok_t list" where
  "bump s n ts = (if s = -1 then ts else ts[nat s := (ts ! nat s)\<lparr>tok_size := tok_size (ts ! nat s) + int n\<rparr>])"

lemma length_bump [simp]: "length (bump s n ts) = length ts"
  by (simp add: bump_def)

lemma find_open_append: "k \<le> length ts \<Longrightarrow> find_open (ts @ us) k = find_open ts k"
  by (induction k) (simp_all add: rd_tok_def nth_append)

lemma find_open_closed:
  assumes "\<forall>u \<in> set us. \<not> tok_open u"
  shows "find_open (ts @ us) (length ts + length us) = find_open ts (length ts)"
  using assms
proof (induction us rule: rev_induct)
  case Nil
  then show ?case by simp
next
  case (snoc u us)
  have "find_open (ts @ us @ [u]) (length ts + length us) = find_open (ts @ us) (length ts + length us)"
    using find_open_append [of "length ts + length us" "ts @ us" "[u]"] by simp
  then show ?case using snoc by (simp add: rd_tok_def nth_append)
qed

lemma find_open_cases:
  "find_open ts (length ts) = Some (if sup_of ts = -1 then None else Some (nat (sup_of ts)))"
proof -
  have "\<exists>r. find_open ts k = Some r" if "k \<le> length ts" for k
    using that by (induction k) (auto simp: rd_tok_def)
  then obtain r where "find_open ts (length ts) = Some r" by blast
  then show ?thesis by (cases r) (simp_all add: sup_of.simps)
qed

lemma sup_of_bound: "sup_of ts \<noteq> -1 \<Longrightarrow> 0 \<le> sup_of ts \<and> nat (sup_of ts) < length ts"
proof -
  have "find_open ts k = Some (Some i) \<Longrightarrow> i < k" for k i
    by (induction k) (auto simp: bind_eq_Some_iff less_Suc_eq split: if_splits)
  then show "sup_of ts \<noteq> -1 \<Longrightarrow> ?thesis"
    by (auto simp: sup_of.simps split: option.splits)
qed

lemma sup_of_closed: "\<forall>u \<in> set us. \<not> tok_open u \<Longrightarrow> sup_of (ts @ us) = sup_of ts"
  using find_open_closed [of us ts] by (simp add: sup_of.simps)

lemma sup_of_open: "tok_open t \<Longrightarrow> sup_of (ts @ [t]) = int (length ts)"
  by (simp add: sup_of.simps rd_tok_def nth_append)

lemma find_open_cong:
  assumes "length ts = length us" and "\<And>i. i < length ts \<Longrightarrow> tok_open (ts ! i) = tok_open (us ! i)"
  shows "k \<le> length ts \<Longrightarrow> find_open ts k = find_open us k"
  using assms by (induction k) (simp_all add: rd_tok_def)

lemma sup_of_bump [simp]: "sup_of (bump s n ts) = sup_of ts"
proof -
  have "find_open (bump s n ts) (length ts) = find_open ts (length ts)"
  proof (rule find_open_cong)
    fix i assume "i < length (bump s n ts)"
    then have "i < length ts" by simp
    then show "tok_open (bump s n ts ! i) = tok_open (ts ! i)"
      by (cases "nat s = i") (simp_all add: bump_def tok_open_def)
  qed simp_all
  then show ?thesis by (simp add: sup_of.simps)
qed

lemma bump_bump: "bump s n (bump s m ts) = bump s (m + n) ts" if "s = -1 \<or> nat s < length ts"
  using that by (auto simp: bump_def add.assoc)

lemma bump_append: "s = -1 \<or> nat s < length ts \<Longrightarrow> bump s n (ts @ us) = bump s n ts @ us"
  by (auto simp: bump_def list_update_append nth_append)

lemma bump_super_bump:
  "toksuper p = -1 \<or> nat (toksuper p) < length ts \<Longrightarrow> bump_super p ts = Some (bump (toksuper p) 1 ts)"
  by (auto simp: bump_super_def bump_def upd_tok_def)

lemma bump_0 [simp]: "bump s 0 ts = ts"
  by (simp add: bump_def)

lemma toks_closed:
  "\<forall>u \<in> set (toks_of a v). \<not> tok_open u" "\<forall>u \<in> set (kids_toks a ks). \<not> tok_open u"
  by (induction v and ks arbitrary: a and a) (auto simp: tok_open_def mk_tok_def)

lemma toks_length:
  "length (toks_of a v) = length (toks_of 0 v)" "length (kids_toks a ks) = length (kids_toks 0 ks)"
proof (induction v and ks arbitrary: a and a)
  case (KCons sep v ks)
  show ?case using KCons(1) [of "a + length sep"] KCons(2) [of "a + length sep + length (render v)"]
    KCons(1) [of "length sep"] KCons(2) [of "length sep + length (render v)"] by simp
next
  case (JCont ob ks)
  show ?case using JCont [of "a + 1"] JCont [of 1] by simp
qed simp_all

section \<open>The loop on documents\<close>

lemma rd_at: "rd (pre @ c # post) (length pre) = Some c"
  by (simp add: rd_def)

abbreviation pst :: "nat \<Rightarrow> nat \<Rightarrow> int \<Rightarrow> jsmn_parser" where
  "pst i k s \<equiv> \<lparr>pos = i, toknext = k, toksuper = s\<rparr>"

lemma loop_step:
  assumes "js = pre @ c # post" and "c \<noteq> NUL"
    and "jsmn_char js num c (pst (length pre) k s) toks = Some (JSMN_SUCCESS, pst i' k' s', toks')"
  shows "jsmn_parse_loop js num (pst (length pre) k s) toks = jsmn_parse_loop js num (pst (i' + 1) k' s') toks'"
  using assms by (subst jsmn_parse_loop.simps) (simp add: rd_at)

lemma loop_seps:
  assumes "list_all sep_char sep"
  shows "js = pre @ sep @ post \<Longrightarrow> jsmn_parse_loop js num (pst (length pre) k s) toks =
    jsmn_parse_loop js num (pst (length pre + length sep) k s) toks"
  using assms
proof (induction sep arbitrary: pre)
  case (Cons c sep)
  then have "jsmn_char js num c (pst (length pre) k s) toks = Some (JSMN_SUCCESS, pst (length pre) k s, toks)"
    and "c \<noteq> NUL" by (auto simp: jsmn_char_def sep_char_def)
  then show ?case using loop_step [of js pre c "sep @ post"] Cons(1) [of "pre @ [c]"] Cons(2,3) by simp
qed simp

lemma alloc_at:
  assumes "length ts < num" and "k = length ts"
  shows "jsmn_alloc_token (pst i k s) (ts @ t # rest) num =
    Some (Some k, pst i (k + 1) s, ts @ t\<lparr>tok_start := -1, tok_end := -1, tok_size := 0\<rparr> # rest)"
  using assms by (simp add: jsmn_alloc_token_def upd_tok_def Let_def)

lemma upd_at: "upd_tok (length ts) f (ts @ t # rest) = Some (ts @ f t # rest)"
  by (simp add: upd_tok_def)

lemma fill_mk_tok: "jsmn_fill_token ty (int a) (int b) t = mk_tok ty a b 0"
  by (simp add: jsmn_fill_token_def mk_tok_def)

lemma sup_of_cases: "sup_of ts = -1 \<or> nat (sup_of ts) < length ts"
  using sup_of_bound by blast

lemma bump_super_at:
  "bump_super \<lparr>pos = i, toknext = k, toksuper = sup_of ts\<rparr> (ts @ us) = Some (bump (sup_of ts) 1 ts @ us)"
proof -
  have "sup_of ts = -1 \<or> nat (sup_of ts) < length (ts @ us)" using sup_of_cases [of ts] by auto
  then show ?thesis using sup_of_cases [of ts] by (subst bump_super_bump) (simp_all add: bump_append)
qed

lemma char_prim:
  assumes "js = pre @ s @ post" and "prim_ok s" and "stops post" and "length ts < num"
  shows "jsmn_char js num (hd s) (pst (length pre) (length ts) (sup_of ts)) (ts @ t # rest) =
    Some (JSMN_SUCCESS, pst (length pre + length s - 1) (length ts + 1) (sup_of ts),
      bump (sup_of ts) 1 ts @ toks_of (length pre) (JPrim s) @ rest)"
proof -
  let ?c = "hd s"
  obtain s' where s: "s = ?c # s'" using assms(2) by (cases s) (auto simp: prim_ok_def)
  have c: "?c \<noteq> CHR ''{''" "?c \<noteq> CHR ''[''" "?c \<noteq> CHR ''}''" "?c \<noteq> CHR '']''" "?c \<noteq> QUOTE" "\<not> sep_char ?c"
    using assms(2) s by (auto simp: prim_ok_def prim_char_def prim_stop_def sep_char_def list_all_iff)
  have scan: "prim_scan (drop (length pre) js) (length pre) = Some (Some (length pre + length s))"
    using assms(1-3) prim_scan_prim [of s post] by (simp add: prim_ok_def)
  have "jsmn_parse_primitive (pst (length pre) (length ts) (sup_of ts)) js (ts @ t # rest) num =
    Some (JSMN_SUCCESS, pst (length pre + length s - 1) (length ts + 1) (sup_of ts),
      ts @ mk_tok JSMN_PRIMITIVE (length pre) (length pre + length s) 0 # rest)"
    using scan assms(4) by (simp add: jsmn_parse_primitive_def Let_def alloc_at upd_at fill_mk_tok flip: of_nat_add)
  then show ?thesis using c by (simp add: jsmn_char_def bump_super_at)
qed

lemma char_str:
  assumes "js = pre @ QUOTE # s @ QUOTE # post" and "str_ok s" and "length ts < num"
  shows "jsmn_char js num QUOTE (pst (length pre) (length ts) (sup_of ts)) (ts @ t # rest) =
    Some (JSMN_SUCCESS, pst (length pre + length s + 1) (length ts + 1) (sup_of ts),
      bump (sup_of ts) 1 ts @ toks_of (length pre) (JStr s) @ rest)"
proof -
  have scan: "str_scan (drop (length pre + 1) js) (length pre + 1) = Some (StrEnd (length pre + 1 + length s))"
    using str_scan_str [OF assms(2), of post "length pre + 1"] assms(1) by simp
  have "jsmn_parse_string (pst (length pre) (length ts) (sup_of ts)) js (ts @ t # rest) num =
    Some (JSMN_SUCCESS, pst (length pre + length s + 1) (length ts + 1) (sup_of ts),
      ts @ mk_tok JSMN_STRING (length pre + 1) (length pre + 1 + length s) 0 # rest)"
    using scan assms(3)
    by (simp add: jsmn_parse_string_def Let_def alloc_at upd_at jsmn_fill_token_def mk_tok_def)
  then show ?thesis by (simp add: jsmn_char_def bump_super_at)
qed

definition open_tok :: "bool \<Rightarrow> nat \<Rightarrow> nat \<Rightarrow> jsmntok_t" where
  "open_tok ob a n = \<lparr>tok_type = cont_type ob, tok_start = int a, tok_end = -1, tok_size = int n\<rparr>"

lemma open_tok_open [simp]: "tok_open (open_tok ob a n)"
  by (simp add: tok_open_def open_tok_def)

lemma bump_last: "bump (int (length us)) n (us @ [t]) = us @ [t\<lparr>tok_size := tok_size t + int n\<rparr>]"
  by (simp add: bump_def nth_append)

lemma char_open:
  assumes "length ts < num"
  shows "jsmn_char js num (open_char ob) (pst i (length ts) (sup_of ts)) (ts @ t # rest) =
    Some (JSMN_SUCCESS, pst i (length ts + 1) (int (length ts)), bump (sup_of ts) 1 ts @ open_tok ob i 0 # rest)"
proof -
  let ?fresh = "t\<lparr>tok_start := -1, tok_end := -1, tok_size := 0\<rparr>"
  have "upd_tok (length ts) f (bump (sup_of ts) 1 ts @ u # rest) = Some (bump (sup_of ts) 1 ts @ f u # rest)" for f u
    using upd_at [of "bump (sup_of ts) 1 ts"] by simp
  then show ?thesis using assms
    by (simp add: jsmn_char_def jsmn_open_def alloc_at bump_super_at open_tok_def)
qed

lemma char_close:
  assumes "\<forall>u \<in> set us. \<not> tok_open u"
  shows "jsmn_char js num (close_char ob) (pst i (length ts + 1 + length us) s) (ts @ open_tok ob a n # us @ rest) =
    Some (JSMN_SUCCESS, pst i (length ts + 1 + length us) (sup_of ts), ts @ mk_tok (cont_type ob) a (i + 1) n # us @ rest)"
proof -
  let ?t = "open_tok ob a n" and ?t' = "mk_tok (cont_type ob) a (i + 1) n"
  have "find_open ((ts @ [?t]) @ us) (length (ts @ [?t]) + length us) = Some (Some (length ts))"
    using find_open_closed [OF assms, of "ts @ [?t]"] find_open_cases [of "ts @ [?t]"]
    by (simp add: sup_of_open)
  then have f1: "find_open (ts @ ?t # us @ rest) (length ts + 1 + length us) = Some (Some (length ts))"
    using find_open_append [of "length ts + 1 + length us" "ts @ ?t # us" rest] by simp
  have "\<not> tok_open ?t'" by (simp add: tok_open_def mk_tok_def)
  then have f2: "find_open (ts @ ?t' # us @ rest) (length ts + 1) =
      Some (if sup_of ts = -1 then None else Some (nat (sup_of ts)))"
    using find_open_append [of "length ts" ts "?t' # us @ rest"] find_open_cases [of ts]
    by (simp add: rd_tok_def nth_append)
  have t': "?t\<lparr>tok_end := int i + 1\<rparr> = ?t'" by (simp add: open_tok_def mk_tok_def)
  have "rd_tok (ts @ ?t # us @ rest) (length ts) = Some ?t" by (simp add: rd_tok_def)
  moreover have "tok_type ?t = cont_type ob" by (simp add: open_tok_def)
  ultimately have "jsmn_close (close_char ob) (pst i (length ts + 1 + length us) s) (ts @ ?t # us @ rest) =
    Some (JSMN_SUCCESS, pst i (length ts + 1 + length us) (sup_of ts), ts @ ?t' # us @ rest)"
    using f1 f2 t' sup_of_bound [of ts]
    by (cases ob) (simp_all add: jsmn_close_def Let_def upd_at del: find_open.simps)
  then show ?thesis by (cases ob) (simp_all add: jsmn_char_def)
qed

lemma stops_close [simp]: "stops (close_char ob # post)"
  by (simp add: stops_def prim_stop_def)

lemma stops_kids:
  assumes "kids_ok ks" and "stops post" and "case ks of KNil _ \<Rightarrow> True | KCons sep _ _ \<Rightarrow> sep \<noteq> []"
  shows "stops (render_kids ks @ post)"
proof -
  have "sep_char c \<Longrightarrow> prim_stop c" for c by (auto simp: sep_char_def prim_stop_def)
  then have "stops (sep @ us)" if "sep \<noteq> []" "list_all sep_char sep" for sep us
    using that by (cases sep) (auto simp: stops_def)
  then show ?thesis using assms by (cases ks) (cases "render_kids ks = []", auto)
qed

text \<open>One value, or the elements of a container, from a state in which \<open>ts\<close> are the tokens
  so far and the super token is the innermost open one.\<close>

lemma loop_doc:
  shows loop_val: "js = pre @ render v @ post \<Longrightarrow> jval_ok v \<Longrightarrow> stops post \<or> \<not> (\<exists>s. v = JPrim s) \<Longrightarrow>
      length old = length (toks_of 0 v) \<Longrightarrow> length ts + length old \<le> num \<Longrightarrow>
      jsmn_parse_loop js num (pst (length pre) (length ts) (sup_of ts)) (ts @ old @ rest) =
      jsmn_parse_loop js num (pst (length pre + length (render v)) (length ts + length old) (sup_of ts))
        (bump (sup_of ts) 1 ts @ toks_of (length pre) v @ rest)"
    and loop_kids: "js = pre @ render_kids ks @ post \<Longrightarrow> kids_ok ks \<Longrightarrow> stops post \<Longrightarrow>
      length old = length (kids_toks 0 ks) \<Longrightarrow> length ts + length old \<le> num \<Longrightarrow>
      jsmn_parse_loop js num (pst (length pre) (length ts) (sup_of ts)) (ts @ old @ rest) =
      jsmn_parse_loop js num (pst (length pre + length (render_kids ks)) (length ts + length old) (sup_of ts))
        (bump (sup_of ts) (nkids ks) ts @ kids_toks (length pre) ks @ rest)"
proof (induction v and ks arbitrary: pre post ts old rest and pre post ts old rest)
  case (JPrim s)
  obtain t where old: "old = [t]" using JPrim(4) by (auto simp: length_Suc_conv)
  obtain c s' where s: "s = c # s'" using JPrim(2) by (cases s) (auto simp: prim_ok_def)
  have "c \<noteq> NUL" using JPrim(2) s by (auto simp: prim_ok_def prim_char_def)
  then show ?case using loop_step [of js pre c "s' @ post"] s old JPrim
      char_prim [of js pre s post ts num t rest] by simp
next
  case (JStr s)
  obtain t where old: "old = [t]" using JStr(4) by (auto simp: length_Suc_conv)
  then show ?case using loop_step [of js pre QUOTE "s @ QUOTE # post"] JStr
      char_str [of js pre s post ts num t rest] by simp
next
  case (JCont ob ks)
  obtain t old' where old: "old = t # old'" and old': "length old' = length (kids_toks 0 ks)"
    using JCont(5) toks_length(2) [of 1 ks] by (auto simp: length_Suc_conv)
  let ?ts = "bump (sup_of ts) 1 ts" and ?n = "length (render_kids ks)"
  let ?o = "open_tok ob (length pre) 0" and ?o' = "open_tok ob (length pre) (nkids ks)"
  have so: "sup_of (?ts @ [?o]) = int (length ts)" using sup_of_open [of ?o ?ts] by simp
  have bo: "bump (int (length ts)) (nkids ks) (?ts @ [?o]) = ?ts @ [?o']"
    using bump_last [of ?ts "nkids ks" ?o] by (simp add: open_tok_def)
  have js: "js = (pre @ [open_char ob]) @ render_kids ks @ close_char ob # post" using JCont(2) by simp
  have 1: "jsmn_parse_loop js num (pst (length pre) (length ts) (sup_of ts)) (ts @ old @ rest) =
      jsmn_parse_loop js num (pst (length pre + 1) (length ts + 1) (int (length ts))) (?ts @ ?o # old' @ rest)"
    using loop_step [OF _ _ char_open [of ts num js ob "length pre" t "old' @ rest"]] JCont(2,6) old by simp
  have 2: "\<dots> = jsmn_parse_loop js num (pst (length pre + 1 + ?n) (length ts + 1 + length old') (int (length ts)))
      (?ts @ ?o' # kids_toks (length pre + 1) ks @ rest)"
    using JCont(1) [OF js _ stops_close old', of "?ts @ [?o]" rest] JCont(3,6) old so bo by simp
  have 3: "\<dots> = jsmn_parse_loop js num (pst (length pre + 1 + ?n + 1) (length ts + 1 + length old') (sup_of ts))
      (?ts @ mk_tok (cont_type ob) (length pre) (length pre + ?n + 2) (nkids ks) # kids_toks (length pre + 1) ks @ rest)"
    using loop_step [of js "pre @ open_char ob # render_kids ks" "close_char ob" post] JCont(2) old'
      char_close [OF toks_closed(2) [of "length pre + 1" ks], of js num ob "length pre + 1 + ?n" ?ts _ _ _ rest]
      toks_length(2) [of "length pre + 1" ks] by simp
  show ?case using 1 2 3 old by simp
next
  case (KNil sep)
  then show ?case using loop_seps [of sep js pre post] by simp
next
  case (KCons sep v ks)
  obtain old1 old2 where old: "old = old1 @ old2" and o1: "length old1 = length (toks_of 0 v)"
    and o2: "length old2 = length (kids_toks 0 ks)"
  proof (rule that [of "take (length (toks_of 0 v)) old" "drop (length (toks_of 0 v)) old"])
    show "length (take (length (toks_of 0 v)) old) = length (toks_of 0 v)"
      "length (drop (length (toks_of 0 v)) old) = length (kids_toks 0 ks)"
      using KCons(6) toks_length(1) [of "length sep" v]
        toks_length(2) [of "length sep + length (render v)" ks] by simp_all
  qed simp
  let ?s = "sup_of ts" and ?i = "length pre + length sep"
  have ok: "list_all sep_char sep" "jval_ok v" "kids_ok ks" using KCons(4) by simp_all
  have post: "stops (render_kids ks @ post) \<or> \<not> (\<exists>s. v = JPrim s)"
    using stops_kids [OF ok(3) KCons(5)] KCons(4) by auto
  have js: "js = pre @ sep @ render v @ render_kids ks @ post" using KCons(3) by simp
  let ?ts = "bump ?s 1 ts @ toks_of ?i v"
  have st: "sup_of ?ts = ?s" using sup_of_closed [OF toks_closed(1)] by simp
  have lt: "length ?ts = length ts + length old1" using o1 toks_length(1) [of ?i v] by simp
  have bt: "bump ?s (nkids ks) ?ts = bump ?s (Suc (nkids ks)) ts @ toks_of ?i v"
    using sup_of_cases [of ts] by (simp add: bump_append bump_bump)
  have 1: "jsmn_parse_loop js num (pst (length pre) (length ts) ?s) (ts @ old @ rest) =
      jsmn_parse_loop js num (pst ?i (length ts) ?s) (ts @ old1 @ old2 @ rest)"
    using loop_seps [OF ok(1) js] old by simp
  have 2: "\<dots> = jsmn_parse_loop js num (pst (?i + length (render v)) (length ts + length old1) ?s)
      (bump ?s 1 ts @ toks_of ?i v @ old2 @ rest)"
    using KCons(1) [of "pre @ sep" "render_kids ks @ post" old1 ts "old2 @ rest"] js ok(2) post o1 KCons(7) old
    by simp
  have 3: "\<dots> = jsmn_parse_loop js num
      (pst (?i + length (render v) + length (render_kids ks)) (length ts + length old1 + length old2) ?s)
      (bump ?s (Suc (nkids ks)) ts @ toks_of ?i v @ kids_toks (?i + length (render v)) ks @ rest)"
    using KCons(2) [of "pre @ sep @ render v" post old2 ?ts rest] js ok(3) KCons(5,7) o2 old st lt bt
    by (simp add: add.assoc)
  show ?case using 1 2 3 old by (simp add: add.assoc)
qed

section \<open>The tokenizer on documents\<close>

lemma jsmn_parse_kids:
  assumes "kids_ok ks" and "length (kids_toks 0 ks) \<le> num" and "num \<le> length toks"
  shows "jsmn_parse jsmn_init (render_kids ks @ NUL # junk) toks num =
    Some (JSMN_SUCCESS, pst (length (render_kids ks)) (length (kids_toks 0 ks)) (-1),
      kids_toks 0 ks @ drop (length (kids_toks 0 ks)) toks)"
proof -
  let ?n = "length (kids_toks 0 ks)" and ?js = "render_kids ks @ NUL # junk"
  have s: "sup_of [] = -1" by (simp add: sup_of.simps)
  have "stops (NUL # junk)" by (simp add: stops_def)
  then have "jsmn_parse_loop ?js num jsmn_init toks =
      jsmn_parse_loop ?js num (pst (length (render_kids ks)) ?n (-1)) (kids_toks 0 ks @ drop ?n toks)"
    using loop_kids [of ?js "[]" ks "NUL # junk" "take ?n toks" "[]" num "drop ?n toks"] assms s
    by (simp add: jsmn_init_def bump_def)
  also have "\<dots> = Some (JSMN_SUCCESS, pst (length (render_kids ks)) ?n (-1), kids_toks 0 ks @ drop ?n toks)"
    by (subst jsmn_parse_loop.simps) (simp add: rd_at)
  moreover have "find_open (kids_toks 0 ks @ drop ?n toks) ?n = Some None"
    using find_open_closed [OF toks_closed(2), of "[]" 0 ks] find_open_append [of ?n "kids_toks 0 ks"] by simp
  ultimately show ?thesis by (simp add: jsmn_parse_def)
qed

lemma jsmn_parse_val:
  assumes "jval_ok v" and "list_all sep_char sep" and "list_all sep_char sep'"
    and "length (toks_of 0 v) \<le> num" and "num \<le> length toks"
  shows "jsmn_parse jsmn_init (sep @ render v @ sep' @ NUL # junk) toks num =
    Some (JSMN_SUCCESS,
      \<lparr>pos = length sep + length (render v) + length sep', toknext = length (toks_of 0 v), toksuper = -1\<rparr>,
      toks_of (length sep) v @ drop (length (toks_of 0 v)) toks)"
  using jsmn_parse_kids [of "KCons sep v (KNil sep')" num toks junk] assms toks_length(1) [of "length sep" v]
  by (cases v) simp_all

section \<open>Too few tokens\<close>

definition nomem :: "(jsmnerr_t \<times> jsmn_parser \<times> jsmntok_t list) option \<Rightarrow> bool" where
  "nomem res \<longleftrightarrow> (\<exists>p toks. res = Some (JSMN_ERROR_NOMEM, p, toks))"

lemma loop_fail:
  assumes "js = pre @ c # post" and "c \<noteq> NUL" and "nomem (jsmn_char js num c (pst (length pre) k s) toks)"
  shows "nomem (jsmn_parse_loop js num (pst (length pre) k s) toks)"
  using assms by (subst jsmn_parse_loop.simps) (auto simp: rd_at nomem_def)

lemma alloc_full: "num \<le> k \<Longrightarrow> jsmn_alloc_token (pst i k s) toks num = Some (None, pst i k s, toks)"
  by (simp add: jsmn_alloc_token_def)

lemma full_doc:
  assumes "js = pre @ render v @ post" and "jval_ok v" and "stops post \<or> \<not> (\<exists>s. v = JPrim s)" and "num \<le> k"
  shows "nomem (jsmn_parse_loop js num (pst (length pre) k s) toks)"
proof (cases v)
  case (JPrim s')
  obtain c cs where c: "s' = c # cs" using assms(2) JPrim by (cases s') (auto simp: prim_ok_def)
  have scan: "prim_scan (drop (length pre) js) (length pre) = Some (Some (length pre + length s'))"
    using assms(1-3) JPrim prim_scan_prim [of s' post] by (simp add: prim_ok_def)
  have "c \<noteq> NUL \<and> c \<noteq> CHR ''{'' \<and> c \<noteq> CHR ''['' \<and> c \<noteq> CHR ''}'' \<and> c \<noteq> CHR '']'' \<and> c \<noteq> QUOTE \<and> \<not> sep_char c"
    using assms(2) JPrim c by (auto simp: prim_ok_def prim_char_def prim_stop_def sep_char_def)
  then show ?thesis using assms(1) JPrim c scan alloc_full [OF assms(4)]
    by (intro loop_fail [of js pre c "cs @ post"]) (simp_all add: jsmn_char_def jsmn_parse_primitive_def nomem_def Let_def)
next
  case (JStr s')
  have "str_scan (drop (length pre + 1) js) (length pre + 1) = Some (StrEnd (length pre + 1 + length s'))"
    using str_scan_str [of s' post "length pre + 1"] assms(1,2) JStr by simp
  then show ?thesis using assms(1) JStr alloc_full [OF assms(4)]
    by (intro loop_fail [of js pre QUOTE "s' @ QUOTE # post"])
      (simp_all add: jsmn_char_def jsmn_parse_string_def nomem_def Let_def)
next
  case (JCont ob ks)
  then show ?thesis using assms(1) alloc_full [OF assms(4)]
    by (intro loop_fail [of js pre "open_char ob" "render_kids ks @ close_char ob # post"])
      (simp_all add: jsmn_char_def jsmn_open_def nomem_def)
qed

lemma short_doc:
  shows short_val: "js = pre @ render v @ post \<Longrightarrow> jval_ok v \<Longrightarrow> stops post \<or> \<not> (\<exists>s. v = JPrim s) \<Longrightarrow>
      num < length ts + length (toks_of 0 v) \<Longrightarrow> num \<le> length (ts @ rest) \<Longrightarrow>
      nomem (jsmn_parse_loop js num (pst (length pre) (length ts) (sup_of ts)) (ts @ rest))"
    and short_kids: "js = pre @ render_kids ks @ post \<Longrightarrow> kids_ok ks \<Longrightarrow> stops post \<Longrightarrow>
      num < length ts + length (kids_toks 0 ks) \<Longrightarrow> length ts \<le> num \<Longrightarrow> num \<le> length (ts @ rest) \<Longrightarrow>
      nomem (jsmn_parse_loop js num (pst (length pre) (length ts) (sup_of ts)) (ts @ rest))"
proof (induction v and ks arbitrary: pre post ts rest and pre post ts rest)
  case (JPrim s)
  then show ?case by (intro full_doc [of js pre "JPrim s" post]) simp_all
next
  case (JStr s)
  then show ?case by (intro full_doc [of js pre "JStr s" post]) simp_all
next
  case (JCont ob ks)
  show ?case
  proof (cases "num \<le> length ts")
    case True
    then show ?thesis using JCont.prems by (intro full_doc [of js pre "JCont ob ks" post]) simp_all
  next
    case False
    then obtain t rest' where rest: "rest = t # rest'" using JCont.prems(5) by (cases rest) auto
    let ?ts = "bump (sup_of ts) 1 ts" and ?o = "open_tok ob (length pre) 0"
    have so: "sup_of (?ts @ [?o]) = int (length ts)" using sup_of_open [of ?o ?ts] by simp
    have js: "js = (pre @ [open_char ob]) @ render_kids ks @ close_char ob # post" using JCont.prems(1) by simp
    have "jsmn_parse_loop js num (pst (length pre) (length ts) (sup_of ts)) (ts @ rest) =
      jsmn_parse_loop js num (pst (length pre + 1) (length ts + 1) (int (length ts))) (?ts @ ?o # rest')"
      using loop_step [OF _ _ char_open [of ts num js ob "length pre" t "rest'"]] JCont.prems(1) False rest by simp
    then show ?thesis
      using JCont.IH [OF js _ stops_close, of "?ts @ [?o]" rest'] JCont.prems False rest so toks_length(2) [of 1 ks] by simp
  qed
next
  case (KNil sep)
  then show ?case by simp
next
  case (KCons sep v ks)
  let ?s = "sup_of ts" and ?i = "length pre + length sep"
  have ok: "list_all sep_char sep" "jval_ok v" "kids_ok ks" using KCons.prems(2) by simp_all
  have post: "stops (render_kids ks @ post) \<or> \<not> (\<exists>s. v = JPrim s)"
    using stops_kids [OF ok(3) KCons.prems(3)] KCons.prems(2) by auto
  have js: "js = pre @ sep @ render v @ render_kids ks @ post" using KCons.prems(1) by simp
  have len: "length (kids_toks 0 (KCons sep v ks)) = length (toks_of 0 v) + length (kids_toks 0 ks)"
    using toks_length(1) [of "length sep" v] toks_length(2) [of "length sep + length (render v)" ks] by simp
  have seps: "jsmn_parse_loop js num (pst (length pre) (length ts) ?s) (ts @ rest) =
      jsmn_parse_loop js num (pst ?i (length ts) ?s) (ts @ rest)"
    using loop_seps [OF ok(1) js] by simp
  show ?case
  proof (cases "num < length ts + length (toks_of 0 v)")
    case True
    then show ?thesis using KCons.IH(1) [of "pre @ sep" "render_kids ks @ post" ts rest] js ok(2) post KCons.prems seps by simp
  next
    case False
    let ?n = "length (toks_of 0 v)" let ?ts = "bump ?s 1 ts @ toks_of ?i v"
    have st: "sup_of ?ts = ?s" using sup_of_closed [OF toks_closed(1)] by simp
    have lt: "length ?ts = length ts + ?n" using toks_length(1) [of ?i v] by simp
    have "jsmn_parse_loop js num (pst ?i (length ts) ?s) (ts @ rest) =
        jsmn_parse_loop js num (pst (?i + length (render v)) (length ts + ?n) ?s) (?ts @ drop ?n rest)"
      using loop_val [of js "pre @ sep" v "render_kids ks @ post" "take ?n rest" ts num "drop ?n rest"] js ok(2) post False
        KCons.prems(6) by simp
    then show ?thesis
      using KCons.IH(2) [of "pre @ sep @ render v" post ?ts "drop ?n rest"] js ok(3) KCons.prems False seps st lt len
      by (simp add: add.assoc)
  qed
qed

lemma jsmn_parse_short:
  assumes "jval_ok v" and "num < length (toks_of 0 v)" and "num \<le> length toks" and "\<exists>ob ks. v = JCont ob ks"
  shows "\<exists>p toks'. jsmn_parse jsmn_init (render v @ post) toks num = Some (JSMN_ERROR_NOMEM, p, toks')"
  using short_val [of "render v @ post" "[]" v post num "[]" toks] assms
  by (auto simp: nomem_def jsmn_parse_def jsmn_init_def sup_of.simps)

section \<open>Lookup\<close>

lemma skip_doc:
  shows skip_val: "0 \<le> n \<Longrightarrow> skip_value (us @ toks_of a v @ rest) (length us) (n + 1) nt =
      skip_value (us @ toks_of a v @ rest) (length us + length (toks_of 0 v)) n (nt + int (length (toks_of 0 v)) - 1)"
    and skip_kids: "0 \<le> n \<Longrightarrow> skip_value (us @ kids_toks a ks @ rest) (length us) (n + int (nkids ks)) nt =
      skip_value (us @ kids_toks a ks @ rest) (length us + length (kids_toks 0 ks)) n
        (nt + int (length (kids_toks 0 ks)) - int (nkids ks))"
proof (induction v and ks arbitrary: a us n nt rest and a us n nt rest)
  case (JPrim s)
  then show ?case by (subst skip_value.simps) (simp add: rd_tok_def mk_tok_def)
next
  case (JStr s)
  then show ?case by (subst skip_value.simps) (simp add: rd_tok_def mk_tok_def)
next
  case (JCont ob ks)
  let ?t = "mk_tok (cont_type ob) a (a + length (render_kids ks) + 2) (nkids ks)"
  have "skip_value (us @ toks_of a (JCont ob ks) @ rest) (length us) (n + 1) nt =
      skip_value ((us @ [?t]) @ kids_toks (a + 1) ks @ rest) (length (us @ [?t])) (n + int (nkids ks)) (nt + int (nkids ks))"
    using JCont(2) by (subst skip_value.simps) (simp add: rd_tok_def mk_tok_def)
  then show ?case using JCont(1) [OF JCont(2), of "us @ [?t]" "a + 1"] toks_length(2) [of 1 ks] by simp
next
  case (KNil sep)
  then show ?case by simp
next
  case (KCons sep v ks)
  let ?a = "a + length sep" let ?b = "?a + length (render v)"
  have "skip_value (us @ toks_of ?a v @ kids_toks ?b ks @ rest) (length us) (n + int (nkids ks) + 1) nt =
      skip_value ((us @ toks_of ?a v) @ kids_toks ?b ks @ rest) (length (us @ toks_of ?a v)) (n + int (nkids ks))
        (nt + int (length (toks_of 0 v)) - 1)"
    using KCons(1) [of "n + int (nkids ks)" us ?a "kids_toks ?b ks @ rest"] KCons(3) toks_length(1) [of ?a v] by simp
  also have "\<dots> = skip_value ((us @ toks_of ?a v) @ kids_toks ?b ks @ rest)
      (length (us @ toks_of ?a v) + length (kids_toks 0 ks)) n
      (nt + int (length (toks_of 0 v)) - 1 + int (length (kids_toks 0 ks)) - int (nkids ks))"
    using KCons(2) [OF KCons(3), of "us @ toks_of ?a v" ?b] .
  finally show ?case
    using toks_length(1) [of ?a v] toks_length(1) [of "length sep" v]
      toks_length(2) [of "length sep + length (render v)" ks] by (simp add: algebra_simps)
qed

lemma strncmp_eq_name:
  "QUOTE \<notin> set key \<Longrightarrow> strncmp_eq (s @ QUOTE # r) key = Some (take (length key) s = key)"
proof (induction s arbitrary: key)
  case Nil
  then show ?case by (cases key) auto
next
  case (Cons c s)
  then show ?case by (cases key) auto
qed

lemma toks_hd: "toks_of a v = toks_of a v ! 0 # tl (toks_of a v)"
  by (cases v) simp_all

lemma tok_type_hd:
  "tok_type (toks_of a v ! 0) = (case v of JPrim _ \<Rightarrow> JSMN_PRIMITIVE | JStr _ \<Rightarrow> JSMN_STRING | JCont ob _ \<Rightarrow> cont_type ob)"
  by (cases v) (simp_all add: mk_tok_def)

lemma rd_tok_toks: "rd_tok (us @ toks_of a v @ rest) (length us) = Some (toks_of a v ! 0)"
  by (subst toks_hd) (simp add: rd_tok_def)

lemma get_value_member:
  fixes s :: string
  assumes "msg = pre @ sep @ QUOTE # s @ QUOTE # post" and key: "QUOTE \<notin> set key"
    and "a = length pre + length sep" and "ntok = int (length us) + 2 + n" and "0 \<le> n"
    and "obj = us @ toks_of a (JStr s) @ toks_of b v @ rest"
  shows "get_value_loop msg obj key (length us) ntok =
    (if take (length key) s = key then Some (int (length us) + 1)
     else get_value_loop msg obj key (length us + 1 + length (toks_of 0 v))
       (int (length us + 1 + length (toks_of 0 v)) + n))"
proof -
  let ?t = "mk_tok JSMN_STRING (a + 1) (a + 1 + length s) 0"
  have k: "rd_tok obj (length us) = Some ?t" using assms(6) by (simp add: rd_tok_def)
  have v: "rd_tok obj (length us + 1) = Some (toks_of b v ! 0)"
    using rd_tok_toks [of "us @ [?t]" b v rest] assms(6) by simp
  have p: "ptr_at msg (tok_start ?t) = Some (s @ QUOTE # post)"
    using assms(1,3) by (simp add: ptr_at_def mk_tok_def nat_add_distrib)
  have skip: "skip_value obj (length us + 1) 1 ntok =
      Some (length us + 1 + length (toks_of 0 v), ntok + int (length (toks_of 0 v)) - 1)"
    using skip_val [of 0 "us @ [?t]" b v rest ntok] assms(6) skip_value.simps [of _ _ 0] by simp
  have ne: "0 < length (toks_of 0 v)" by (cases v) simp_all
  show ?thesis
    using k v p skip assms(4,5) ne
    by (subst get_value_loop.simps, cases v)
      (auto simp: strncmp_eq_name [OF key] tok_type_hd mk_tok_def ac_simps)
qed

lemma get_value_kids:
  assumes key: "QUOTE \<notin> set key"
  shows "msg = pre @ render_kids ks @ post \<Longrightarrow> obj = us @ kids_toks (length pre) ks @ rest \<Longrightarrow> i = length us \<Longrightarrow>
    get_value_loop msg obj key i (int (length us) + int (nkids ks)) = Some (obj_lookup key i ks)"
proof (induction "nkids ks" arbitrary: ks pre us i rule: less_induct)
  case less
  consider (few) "nkids ks < 2" | (mem) sep k sep' v ks' where "ks = KCons sep k (KCons sep' v ks')"
    by (cases ks rule: kids.exhaust) (fastforce, metis One_nat_def kids.exhaust less_2_cases_iff nkids.simps)
  then show ?case
  proof cases
    case few
    then have "obj_lookup key i ks = -1" by (cases "(key, i, ks)" rule: obj_lookup.cases) auto
    then show ?thesis using few less(4) by (subst get_value_loop.simps) auto
  next
    case mem
    let ?a = "length pre + length sep"
    let ?b = "?a + length (render k) + length sep'"
    let ?c = "?b + length (render v)"
    let ?us = "us @ toks_of ?a k @ toks_of ?b v"
    have obj: "obj = us @ toks_of ?a k @ toks_of ?b v @ kids_toks ?c ks' @ rest"
      using less(3) mem by (simp add: add.assoc)
    show ?thesis
    proof (cases "\<exists>s. k = JStr s")
      case True
      then obtain s where k: "k = JStr s" by blast
      have us: "length ?us = length us + 1 + length (toks_of 0 v)" using k toks_length(1) [of ?b v] by simp
      have "get_value_loop msg obj key (length ?us) (int (length ?us) + int (nkids ks')) =
          Some (obj_lookup key (length ?us) ks')"
        using less(1) [of ks' "pre @ sep @ render k @ sep' @ render v" ?us "length ?us"] less(2) mem obj
        by (simp add: add.assoc)
      then show ?thesis
        using get_value_member [of msg pre sep s "sep' @ render v @ render_kids ks' @ post" key ?a _ us
            "int (nkids ks')" obj ?b v "kids_toks ?c ks' @ rest"] less(2,4) mem k obj key us
        by (simp add: add.assoc)
    next
      case False
      then have "obj_lookup key i ks = -1" using mem by (cases k) simp_all
      moreover have "tok_type (toks_of ?a k ! 0) \<noteq> JSMN_STRING" using False by (cases k) (simp_all add: mk_tok_def)
      moreover have "rd_tok obj (length us) = Some (toks_of ?a k ! 0)" using rd_tok_toks obj by simp
      ultimately show ?thesis using mem less(4) by (subst get_value_loop.simps) simp
    qed
  qed
qed

lemma jsmn_get_value_doc:
  assumes "msg = pre @ render (JCont ob ks) @ post" and "obj = toks_of (length pre) (JCont ob ks) @ rest"
    and "QUOTE \<notin> set key"
  shows "jsmn_get_value msg obj key = Some (obj_lookup key 1 ks)"
  using get_value_kids [OF assms(3), of msg "pre @ [open_char ob]" ks "close_char ob # post" obj
    "[mk_tok (cont_type ob) (length pre) (length pre + length (render_kids ks) + 2) (nkids ks)]" rest 1] assms
  by (simp add: jsmn_get_value_def rd_tok_def mk_tok_def add.commute)

section \<open>Tokens of a document as text\<close>

lemma take_drop_mid: "take (length s) (drop (length pre) (pre @ s @ post)) = s"
  by simp

lemma jsmn_tokdup_range:
  assumes "msg = pre @ s @ post" and "tok_start t = int (length pre)" and "tok_end t = int (length pre + length s)"
  shows "jsmn_tokdup msg t = Some (s @ [NUL])"
  using assms by (simp add: jsmn_tokdup_def ptr_at_def rd_bytes_def jsmn_toklen_def)

lemma jsmn_tokeq_range:
  assumes "msg = pre @ s @ post" and "tok_start t = int (length pre)" and "tok_end t = int (length pre + length s)"
  shows "jsmn_tokeq msg t str = Some (s = str)"
proof (cases "length s = length str")
  case True
  then have "strncmp_eq (s @ post) str = Some (s = str)" by (subst strncmp_eq_take) simp_all
  then show ?thesis using assms True by (simp add: jsmn_tokeq_def ptr_at_def jsmn_toklen_def)
qed (use assms in \<open>auto simp: jsmn_tokeq_def jsmn_toklen_def\<close>)

section \<open>Properties\<close>

text \<open>C10. The tokenizer is correct: on the text of a well-formed document followed by a NUL
  (and anything after it) and with room for its tokens, \<open>jsmn_parse\<close> succeeds, the tokens
  are exactly those of the document in document order, with the offsets of the text and the
  number of elements of every object and array, and the rest of the token array is untouched.\<close>

theorem jsmn_parse_document:
  assumes "jval_ok v" and "list_all sep_char sep" and "list_all sep_char sep'"
    and "length (toks_of 0 v) \<le> num" and "num \<le> length toks"
  shows "jsmn_parse jsmn_init (sep @ render v @ sep' @ NUL # junk) toks num =
    Some (JSMN_SUCCESS,
      \<lparr>pos = length sep + length (render v) + length sep', toknext = length (toks_of 0 v), toksuper = -1\<rparr>,
      toks_of (length sep) v @ drop (length (toks_of 0 v)) toks)"
  by (rule jsmn_parse_val [OF assms])

lemma jsmn_parse_document_witness:
  \<open>jsmn_parse jsmn_init (''{"a":[1,true]}'' @ CR # LF # NUL # ''zzz'')
     (replicate 8 (mk_tok JSMN_STRING 9 9 9)) 8 =
   Some (JSMN_SUCCESS, \<lparr>pos = 16, toknext = 5, toksuper = -1\<rparr>,
     [mk_tok JSMN_OBJECT 0 14 2, mk_tok JSMN_STRING 2 3 0, mk_tok JSMN_ARRAY 5 13 2,
      mk_tok JSMN_PRIMITIVE 6 7 0, mk_tok JSMN_PRIMITIVE 8 12 0] @ replicate 3 (mk_tok JSMN_STRING 9 9 9))\<close>
  using jsmn_parse_document [of
    "JCont True (KCons [] (JStr ''a'') (KCons '':'' (JCont False
       (KCons [] (JPrim ''1'') (KCons '','' (JPrim ''true'') (KNil [])))) (KNil [])))"
    "[]" "[CR, LF]" 8 "replicate 8 (mk_tok JSMN_STRING 9 9 9)" "''zzz''"]
  by (simp add: prim_ok_def prim_char_def prim_stop_def sep_char_def schar_def numeral_eq_Suc)

text \<open>C11. Lookup is correct: in the tokens of an object, \<open>jsmn_get_value\<close> returns the index of
  the value of the first member whose name has the key as a prefix, skipping nested objects
  and arrays whole, and -1 if there is none (or a name is not a string).\<close>

theorem jsmn_get_value_member:
  assumes "QUOTE \<notin> set key"
  shows "jsmn_get_value (pre @ render (JCont ob ks) @ post) (toks_of (length pre) (JCont ob ks) @ rest) key =
    Some (obj_lookup key 1 ks)"
  by (rule jsmn_get_value_doc [OF refl refl assms])

lemma jsmn_get_value_member_witness:
  \<open>jsmn_get_value ''{"portable":[1,2],"port":3}''
     [mk_tok JSMN_OBJECT 0 27 4, mk_tok JSMN_STRING 2 10 0, mk_tok JSMN_ARRAY 12 17 2,
      mk_tok JSMN_PRIMITIVE 13 14 0, mk_tok JSMN_PRIMITIVE 15 16 0, mk_tok JSMN_STRING 19 23 0,
      mk_tok JSMN_PRIMITIVE 25 26 0] ''port'' = Some 2\<close>
  using jsmn_get_value_member [of "''port''" "[]" True
    "KCons [] (JStr ''portable'') (KCons '':'' (JCont False
       (KCons [] (JPrim ''1'') (KCons '','' (JPrim ''2'') (KNil []))))
     (KCons '','' (JStr ''port'') (KCons '':'' (JPrim ''3'') (KNil []))))" "[]" "[]"]
  by (simp add: numeral_eq_Suc)

end
