(* ===== verification/Inet_Text.thy ===== *)
theory Inet_Text
  imports Sockaddr
begin

text \<open>
  Text forms that meet the contract \<open>inet_ok\<close> of \<open>inet_ntop\<close> and \<open>inet_pton\<close>: dotted
  decimal for IPv4, and the eight full groups of hexadecimal digits for IPv6. The theorems of
  the development hold for every pair of functions with that contract; the concrete pair serves
  to evaluate the model.
\<close>

section \<open>IPv4\<close>

definition dotted :: "32 word \<Rightarrow> string" where
  "dotted w = (let n = unat w in
     dec (n mod 256) @ CHR ''.'' # dec (n div 256 mod 256) @ CHR ''.'' #
     dec (n div 256 ^ 2 mod 256) @ CHR ''.'' # dec (n div 256 ^ 3 mod 256))"

definition read_num :: "string \<Rightarrow> nat \<times> string" where
  "read_num s = (foldl (\<lambda>a c. 10 * a + digit_val c) 0 (takeWhile c_isdigit s), drop 1 (dropWhile c_isdigit s))"

definition undotted :: "string \<Rightarrow> 32 word" where
  "undotted s =
     (let (a, s) = read_num s; (b, s) = read_num s; (c, s) = read_num s; (d, s) = read_num s
      in of_nat (a + 256 * (b + 256 * (c + 256 * d))))"

lemma read_num_dec: "read_num (dec n @ CHR ''.'' # s) = (n, s)" "read_num (dec n) = (n, [])"
proof -
  have d: "\<not> c_isdigit CHR ''.''" by (simp add: c_isdigit_def)
  have t: "takeWhile c_isdigit (dec n @ us) = dec n @ takeWhile c_isdigit us"
    "dropWhile c_isdigit (dec n @ us) = dropWhile c_isdigit us" for us
    using dec_digits [of n] by (auto intro: takeWhile_append2 dropWhile_append2)
  show "read_num (dec n @ CHR ''.'' # s) = (n, s)"
    using d t [of "CHR ''.'' # s"] by (simp add: read_num_def dec_value)
  have w: "takeWhile c_isdigit (dec n) = dec n" "dropWhile c_isdigit (dec n) = []"
    using dec_digits [of n] by (simp_all only: takeWhile_eq_all_conv dropWhile_eq_Nil_conv)
  show "read_num (dec n) = (n, [])" unfolding read_num_def w dec_value by simp
qed

lemma undotted_dotted: "undotted (dotted w) = w"
proof -
  let ?n = "unat w"
  have "?n < 256 ^ 4" using unsigned_less [of w, where 'a = nat] by simp
  then have "?n div 256 div 256 div 256 mod 256 = ?n div 256 div 256 div 256"
    by (simp add: div_mult2_eq [symmetric] less_mult_imp_div_less)
  then have "?n mod 256 + 256 * (?n div 256 mod 256 + 256 * (?n div 256 div 256 mod 256 + 256 * (?n div 256 div 256 div 256 mod 256))) = ?n"
    by simp
  then have "?n mod 256 + 256 * (?n div 256 mod 256 + 256 * (?n div 256 ^ 2 mod 256 + 256 * (?n div 256 ^ 3 mod 256))) = ?n"
    by (simp only: power2_eq_square power3_eq_cube div_mult2_eq)
  then show ?thesis
    by (simp only: undotted_def dotted_def Let_def read_num_dec prod.case of_nat_unat ucast_id)
qed

lemma dotted_text: "length (dotted w) < INET_ADDRSTRLEN" "list_all addr_char (dotted w)"
proof -
  have "length (dec (n mod 256)) \<le> 3" for n by (rule dec_length_le) (simp_all add: less_le_trans [of _ 256])
  from this [of "unat w"] this [of "unat w div 256"] this [of "unat w div 256 ^ 2"] this [of "unat w div 256 ^ 3"]
  show "length (dotted w) < INET_ADDRSTRLEN" by (simp add: dotted_def Let_def INET_ADDRSTRLEN_def)
  have "list_all addr_char (dec n)" for n
    using dec_digits [of n] by (simp add: list_all_iff addr_char_def)
  then show "list_all addr_char (dotted w)" by (simp add: dotted_def Let_def addr_char_def)
qed

section \<open>IPv6\<close>

definition hex_char :: "nat \<Rightarrow> char" where
  "hex_char d = ''0123456789abcdef'' ! d"

definition hex_val :: "char \<Rightarrow> nat" where
  "hex_val c = (if c_isdigit c then digit_val c else of_char c - 87)"

fun hex :: "nat \<Rightarrow> nat \<Rightarrow> string" where
  "hex 0 n = []"
| "hex (Suc k) n = hex k (n div 16) @ [hex_char (n mod 16)]"

fun colons :: "string \<Rightarrow> string" where
  "colons (a # b # c # d # e # cs) = a # b # c # d # CHR '':'' # colons (e # cs)"
| "colons cs = cs"

definition groups :: "128 word \<Rightarrow> string" where
  "groups w = colons (hex 32 (unat w))"

definition ungroups :: "string \<Rightarrow> 128 word" where
  "ungroups s = of_nat (foldl (\<lambda>a c. 16 * a + hex_val c) 0 (filter (\<lambda>c. c \<noteq> CHR '':'') s))"

lemma hex_char_ok: "d < 16 \<Longrightarrow> hex_val (hex_char d) = d \<and> hex_char d \<noteq> CHR '':'' \<and> addr_char (hex_char d)"
proof -
  assume "d < 16"
  then have "d \<in> {0,1,2,3,4,5,6,7,8,9,10,11,12,13,14,15}" by (simp, arith)
  then show ?thesis
    by (elim insertE emptyE)
      (simp_all add: hex_char_def hex_val_def c_isdigit_def digit_val_def addr_char_def)
qed

lemma hex_value: "foldl (\<lambda>a c. 16 * a + hex_val c) 0 (hex k n) = n mod 16 ^ k"
proof (induction k arbitrary: n)
  case (Suc k)
  have "16 * (n div 16 mod 16 ^ k) + n mod 16 = n mod 16 ^ Suc k"
    using mod_mult2_eq [of n 16 "16 ^ k"] by simp
  then show ?case using Suc hex_char_ok [of "n mod 16"] by simp
qed simp

lemma hex_chars: "c \<in> set (hex k n) \<Longrightarrow> c \<noteq> CHR '':'' \<and> addr_char c"
  using hex_char_ok by (induction k arbitrary: n) auto

lemma colons_filter: "CHR '':'' \<notin> set s \<Longrightarrow> filter (\<lambda>c. c \<noteq> CHR '':'') (colons s) = s"
  by (induction s rule: colons.induct) (auto intro: filter_True)

lemma colons_chars:
  assumes "addr_char CHR '':''"
  shows "\<forall>c \<in> set s. addr_char c \<Longrightarrow> \<forall>c \<in> set (colons s). addr_char c"
  using assms by (induction s rule: colons.induct) auto

lemma length_hex [simp]: "length (hex k n) = k"
  by (induction k arbitrary: n) auto

lemma length_colons: "length (colons s) = length s + (length s - 1) div 4"
proof (induction s rule: colons.induct)
  case (1 a b c d e cs)
  then show ?case by (simp del: colons.simps(1) add: colons.simps(1) [of a b c d e cs])
qed simp_all

lemma groups_text: "length (groups w) < INET6_ADDRSTRLEN" "list_all addr_char (groups w)"
proof -
  show "length (groups w) < INET6_ADDRSTRLEN"
    by (simp only: groups_def length_colons length_hex INET6_ADDRSTRLEN_def)
  have "\<forall>c \<in> set (hex 32 (unat w)). addr_char c" using hex_chars by blast
  moreover have "addr_char CHR '':''" by (simp add: addr_char_def)
  ultimately show "list_all addr_char (groups w)" using colons_chars unfolding groups_def list_all_iff by blast
qed

lemma ungroups_groups: "ungroups (groups w) = w"
proof -
  have "CHR '':'' \<notin> set (hex 32 (unat w))" using hex_chars by blast
  moreover have "unat w < 16 ^ 32" using unsigned_less [of w, where 'a = nat] by simp
  ultimately show ?thesis by (simp add: ungroups_def groups_def colons_filter hex_value del: hex.simps)
qed

section \<open>The pair\<close>

fun text_ntop :: ntop where
  "text_ntop fam (In4 a) = (if fam = AF_INET then Some (dotted a) else None)"
| "text_ntop fam (In6 a) = (if fam = AF_INET6 then Some (groups a) else None)"

definition text_pton :: pton where
  "text_pton fam s =
     (if fam = AF_INET then (if dotted (undotted s) = s then Some (In4 (undotted s)) else None)
      else if fam = AF_INET6 then (if groups (ungroups s) = s then Some (In6 (ungroups s)) else None)
      else None)"

lemma text_inet_ok: "inet_ok text_ntop text_pton"
  by (simp add: inet_ok_def text_pton_def dotted_text groups_text undotted_dotted ungroups_groups)

end
