(* ===== verification/Client.thy ===== *)
theory Client
  imports Deltalist_Props Network Jsmn_Doc Inet_Text
begin

text \<open>
  The table of clients, \<^verbatim>\<open>src/common/client.c\<close>: a delta list of socket addresses
  whose elements expire ten ticks after they were last refreshed. A response is a list of nodes,
  each a buffer and the number of its bytes to send; the model keeps the doubly linked list of
  \<open>response_node\<close>s as a list, in order, and \<open>list_add_tail\<close> appends to it.
\<close>

section \<open>The table\<close>

definition delta_hash :: "sockaddr_storage \<Rightarrow> ulong" where
  "delta_hash client =
     (if ss_family client = AF_INET then ucast (sin_addr client + ucast (sin_port client))
      else if ss_family client = AF_INET6
        then ucast (ucast (drop_bit 120 (sin6_addr client)) + ucast (sin6_port client) :: 32 word)
      else 0)"

definition delta_equals :: "sockaddr_storage \<Rightarrow> sockaddr_storage \<Rightarrow> bool" where
  "delta_equals a b = sockaddr_equals a b"

type_synonym client_tbl = "sockaddr_storage delta_list"

definition client_table :: client_tbl where
  "client_table = static_table 1 10 delta_hash delta_equals"

section \<open>Registration\<close>

text \<open>The return value and the address with its port set; \<open>port\<close> is a C string.\<close>

definition make_client :: "sockaddr_storage \<Rightarrow> char list \<Rightarrow> (int \<times> sockaddr_storage) option" where
  "make_client addr port = do {
     (lport, endptr) \<leftarrow> c_strtol port;
     e \<leftarrow> rd endptr 0;
     if lport < PORT_MIN \<or> lport > PORT_MAX \<or> e \<noteq> NUL then Some (-1, addr)
     else Some (0, set_in_port (htons (word_of_int lport)) addr)
   }"

definition add_client :: "sockaddr_storage \<Rightarrow> char list \<Rightarrow> client_tbl \<Rightarrow> (int \<times> client_tbl) option" where
  "add_client addr port T = do {
     (rc, client) \<leftarrow> make_client addr port;
     if rc \<noteq> 0 then Some (-1, T)
     else do {
       (_, T) \<leftarrow> delta_update client T;
       Some (0, T)
     }
   }"

definition remove_client :: "sockaddr_storage \<Rightarrow> char list \<Rightarrow> client_tbl \<Rightarrow> (int \<times> client_tbl) option" where
  "remove_client addr port T = do {
     (rc, client) \<leftarrow> make_client addr port;
     if rc \<noteq> 0 then Some (-1, T)
     else do {
       (rc, T) \<leftarrow> delta_remove client T;
       if rc \<noteq> 0 then Some (-1, T) else Some (0, T)
     }
   }"

section \<open>Listing\<close>

record response_node =
  rn_data :: "char list"
  rn_len :: nat

datatype client_rc = CL_OK | CL_BADIP | CL_BADPORT | CL_BADNUM | CL_NOTFOUND

record make_list_arg =
  ml_list :: "response_node list"
  ml_ignore :: "sockaddr_storage option"
  ml_i :: int
  ml_n :: int

text \<open>The text of one element of a node list, as the format string produces it.\<close>

definition node_fmt :: "string \<Rightarrow> u16 \<Rightarrow> u16 \<Rightarrow> string" where
  \<open>node_fmt addr port fam =
     ''{"ip":"'' @ addr @ ''","port":'' @ dec (unat port) @ '',"ipv":'' @
     dec (if fam = AF_INET then 4 else 6) @ ''},''\<close>

definition make_list :: "ntop \<Rightarrow> sockaddr_storage \<Rightarrow> make_list_arg option \<Rightarrow> bool \<times> make_list_arg option" where
  "make_list ntop client arg =
     (case arg of
        None \<Rightarrow> (True, None)
      | Some ml \<Rightarrow>
          if ml_i ml \<ge> ml_n ml then (True, Some ml)
          else if (case ml_ignore ml of None \<Rightarrow> False | Some ign \<Rightarrow> delta_equals client ign) then (False, Some ml)
          else (False, do {
            let ml = ml\<lparr>ml_i := ml_i ml + 1\<rparr>;
            addr \<leftarrow> ntop_buf ntop (ss_family client) (get_in_addr client) INET6_ADDRSTRLEN;
            (len, data) \<leftarrow> c_sprintf (25 + INET6_ADDRSTRLEN + PORT_STRLEN + 1)
               (node_fmt addr (ntohs (get_in_port client)) (ss_family client));
            Some (ml\<lparr>ml_list := ml_list ml @ [\<lparr>rn_data = data, rn_len = len\<rparr>]\<rparr>)
          }))"

text \<open>\<open>((struct response_node*)head->prev)->len--\<close> unless the list has fewer than two nodes.\<close>

definition drop_separator :: "response_node list \<Rightarrow> response_node list" where
  "drop_separator head =
     (if 2 \<le> length head
      then butlast head @ [(last head)\<lparr>rn_len := rn_len (last head) - 1\<rparr>] else head)"

definition node_of :: "string \<Rightarrow> response_node" where
  "node_of s = \<lparr>rn_data = s @ [NUL], rn_len = length s\<rparr>"

definition clients_to_json ::
  "ntop \<Rightarrow> response_node list \<Rightarrow> sockaddr_storage option \<Rightarrow> char list \<Rightarrow> client_tbl \<Rightarrow>
   (client_rc \<times> response_node list) option" where
  "clients_to_json ntop head ign n T = do {
     (lnum, endptr) \<leftarrow> c_strtol n;
     let num = int_of_long lnum;
     e \<leftarrow> rd endptr 0;
     if num < 0 \<or> e \<noteq> NUL then Some (CL_BADNUM, head)
     else do {
       let head = head @ [node_of ''[''];
       r \<leftarrow> delta_foreach T (make_list ntop) (Some \<lparr>ml_list = head, ml_ignore = ign, ml_i = 0, ml_n = num\<rparr>);
       arg \<leftarrow> r;
       let head = drop_separator (ml_list arg);
       Some (CL_OK, head @ [node_of ('']'' @ DELIM)])
     }
   }"

section \<open>Forwarding\<close>

definition fwd_to_client :: "msg_info \<Rightarrow> sockaddr_storage \<Rightarrow> net option \<Rightarrow> bool \<times> net option" where
  "fwd_to_client mi client w =
     (case w of
        None \<Rightarrow> (True, None)
      | Some w \<Rightarrow> (False, map_option snd (udp_send client (mi_len mi) (mi_msg mi) w)))"

definition flood_to_clients :: "msg_info \<Rightarrow> client_tbl \<Rightarrow> net \<Rightarrow> (client_rc \<times> net) option" where
  "flood_to_clients mi T w = do {
     r \<leftarrow> delta_foreach T (fwd_to_client mi) (Some w);
     w \<leftarrow> r;
     Some (CL_OK, w)
   }"

definition client_list_size :: "client_tbl \<Rightarrow> uint" where
  "client_list_size T = delta_size T"

section \<open>The contract of the table\<close>

interpretation client: delta_table delta_hash delta_equals inet_family 10
proof
  show "delta_equals d d" if "inet_family d" for d
    using that by (simp add: delta_equals_def sockaddr_equals_iff)
  show "delta_equals e d" if "delta_equals d e" for d e
    using that by (auto simp: delta_equals_def sockaddr_equals_iff inet_family_def)
  show "delta_equals c e" if "delta_equals c d" "delta_equals d e" for c d e
    using that by (auto simp: delta_equals_def sockaddr_equals_iff inet_family_def)
  show "delta_hash d = delta_hash e" if "delta_equals d e" for d e
    using that by (auto simp: delta_equals_def sockaddr_equals_def sin_equals_def sin6_equals_def delta_hash_def
        split: if_splits)
qed simp

abbreviation client_rep :: "client_tbl \<Rightarrow> (sockaddr_storage \<times> nat) list \<Rightarrow> bool" where
  "client_rep \<equiv> dl_rep delta_hash delta_equals inet_family 10"

lemma client_table_rep: "client_rep client_table []"
  unfolding client_table_def by (rule client.static_rep)

lemmas client_rep_inet = client.rep_valid

section \<open>Registration\<close>

lemma client_update:
  assumes "client_rep T es" and "inet_family d" and "\<not> hits_last delta_equals d es"
  obtains T' where "delta_update d T = Some (if list_ex (\<lambda>e. delta_equals (fst e) d) es then 1 else 0, T')"
    "client_rep T' (spec_update delta_equals 10 d es)"
  by (rule client.delta_update_total [OF assms]) (auto intro: that)

lemma make_client_number:
  assumes "int n \<le> PORT_MAX"
  shows "make_client addr (dec n @ NUL # junk) = Some (0, set_in_port (htons (of_nat n)) addr)"
proof -
  have "c_strtol (dec n @ NUL # junk) = Some (int n, NUL # junk)"
    using assms by (intro c_strtol_dec) (simp_all add: PORT_MAX_def LONG_MAX_def c_isdigit_def)
  then show ?thesis using assms by (simp add: make_client_def PORT_MIN_def)
qed

lemma make_client_refused:
  assumes "PORT_MAX < int n" and "int n \<le> LONG_MAX"
  shows "make_client addr (dec n @ NUL # junk) = Some (-1, addr)"
proof -
  have "c_strtol (dec n @ NUL # junk) = Some (int n, NUL # junk)"
    using assms by (intro c_strtol_dec) (simp_all add: c_isdigit_def)
  then show ?thesis using assms by (simp add: make_client_def)
qed

section \<open>Listing\<close>

text \<open>The document of one node, and of a list of values.\<close>

definition node_doc :: "string \<Rightarrow> u16 \<Rightarrow> u16 \<Rightarrow> jval" where
  "node_doc addr port fam = JCont True
     (KCons [] (JStr ''ip'') (KCons '':'' (JStr addr)
     (KCons '','' (JStr ''port'') (KCons '':'' (JPrim (dec (unat port)))
     (KCons '','' (JStr ''ipv'') (KCons '':'' (JPrim (dec (if fam = AF_INET then 4 else 6))) (KNil [])))))))"

fun list_kids :: "string \<Rightarrow> jval list \<Rightarrow> kids" where
  "list_kids sep [] = KNil []"
| "list_kids sep (v # vs) = KCons sep v (list_kids '','' vs)"

definition list_doc :: "jval list \<Rightarrow> jval" where
  "list_doc vs = JCont False (list_kids [] vs)"

definition sa_doc :: "ntop \<Rightarrow> sockaddr_storage \<Rightarrow> jval" where
  "sa_doc ntop sa = node_doc (the (ntop (ss_family sa) (get_in_addr sa))) (ntohs (get_in_port sa)) (ss_family sa)"

text \<open>The bytes that sending a response puts on the connection.\<close>

definition response_bytes :: "response_node list \<Rightarrow> char list" where
  "response_bytes head = concat (map (\<lambda>n. take (rn_len n) (rn_data n)) head)"

lemma response_bytes_append: "response_bytes (xs @ ys) = response_bytes xs @ response_bytes ys"
  by (simp add: response_bytes_def)

lemma response_bytes_node: "response_bytes [node_of s] = s"
  by (simp add: response_bytes_def node_of_def)

lemma node_fmt_doc: "node_fmt addr port fam = render (node_doc addr port fam) @ '',''"
  by (simp add: node_fmt_def node_doc_def)

lemma node_fmt_length: "length addr < INET6_ADDRSTRLEN \<Longrightarrow> length (node_fmt addr port fam) < 25 + INET6_ADDRSTRLEN + PORT_STRLEN + 1"
proof -
  have "unat port < 10 ^ 5" using unsigned_less [of port, where 'a = nat] by simp
  from dec_length_le [OF this] have "length (dec (unat port)) \<le> 5" by simp
  moreover have "length (dec 4) = 1" "length (dec 6) = 1" by (simp_all add: dec.simps)
  ultimately show "length addr < INET6_ADDRSTRLEN \<Longrightarrow> ?thesis"
    by (simp add: node_fmt_def INET6_ADDRSTRLEN_def PORT_STRLEN_def)
qed

lemma ntop_buf_ok:
  assumes "inet_ok ntop pton" and "inet_family sa"
  shows "ntop_buf ntop (ss_family sa) (get_in_addr sa) INET6_ADDRSTRLEN = Some (the (ntop (ss_family sa) (get_in_addr sa)))"
    and "length (the (ntop (ss_family sa) (get_in_addr sa))) < INET6_ADDRSTRLEN"
proof -
  obtain s where s: "ntop (ss_family sa) (get_in_addr sa) = Some s" "length s < get_addr_strlen sa"
    using inet_okE [OF assms] .
  have "get_addr_strlen sa \<le> INET6_ADDRSTRLEN"
    by (simp add: get_addr_strlen_def INET_ADDRSTRLEN_def INET6_ADDRSTRLEN_def)
  then show "ntop_buf ntop (ss_family sa) (get_in_addr sa) INET6_ADDRSTRLEN = Some (the (ntop (ss_family sa) (get_in_addr sa)))"
    and "length (the (ntop (ss_family sa) (get_in_addr sa))) < INET6_ADDRSTRLEN"
    using s by (simp_all add: ntop_buf_def)
qed

definition elem_node :: "ntop \<Rightarrow> sockaddr_storage \<Rightarrow> response_node" where
  "elem_node ntop sa = node_of (render (sa_doc ntop sa) @ '','')"

definition ignored :: "sockaddr_storage option \<Rightarrow> sockaddr_storage \<Rightarrow> bool" where
  "ignored ign sa = (case ign of None \<Rightarrow> False | Some a \<Rightarrow> delta_equals sa a)"

lemma make_list_foreach:
  assumes ok: "inet_ok ntop pton" and "\<forall>d \<in> set ds. inet_family d" and "i \<le> n"
  shows "\<exists>j. spec_foreach (make_list ntop) ds (Some \<lparr>ml_list = L, ml_ignore = ign, ml_i = i, ml_n = n\<rparr>) =
    Some \<lparr>ml_list = L @ map (elem_node ntop) (take (nat (n - i)) (filter (\<lambda>d. \<not> ignored ign d) ds)),
          ml_ignore = ign, ml_i = j, ml_n = n\<rparr>"
  using assms(2,3)
proof (induction ds arbitrary: i L)
  case (Cons d ds)
  show ?case
  proof (cases "i < n \<and> \<not> ignored ign d")
    case True
    have fam: "inet_family d" using Cons.prems by simp
    note nt = ntop_buf_ok [OF ok fam]
    have "make_list ntop d (Some \<lparr>ml_list = L, ml_ignore = ign, ml_i = i, ml_n = n\<rparr>) =
      (False, Some \<lparr>ml_list = L @ [elem_node ntop d], ml_ignore = ign, ml_i = i + 1, ml_n = n\<rparr>)"
      using True nt(1) node_fmt_length [OF nt(2), of "ntohs (get_in_port d)" "ss_family d"]
      by (simp add: make_list_def ignored_def c_sprintf_def elem_node_def node_of_def sa_doc_def node_fmt_doc
          split: option.splits)
    moreover have "nat (n - i) = Suc (nat (n - (i + 1)))" using True by arith
    ultimately show ?thesis using Cons.IH [of "i + 1" "L @ [elem_node ntop d]"] Cons.prems True by simp
  next
    case False
    show ?thesis
    proof (cases "i < n")
      case True
      then have "make_list ntop d (Some \<lparr>ml_list = L, ml_ignore = ign, ml_i = i, ml_n = n\<rparr>) =
        (False, Some \<lparr>ml_list = L, ml_ignore = ign, ml_i = i, ml_n = n\<rparr>)"
        using False by (simp add: make_list_def ignored_def split: option.splits)
      then show ?thesis using Cons.IH [of i L] Cons.prems False True by simp
    next
      case False
      then have "make_list ntop d (Some \<lparr>ml_list = L, ml_ignore = ign, ml_i = i, ml_n = n\<rparr>) =
        (True, Some \<lparr>ml_list = L, ml_ignore = ign, ml_i = i, ml_n = n\<rparr>)" by (simp add: make_list_def)
      then show ?thesis using False Cons.prems by simp
    qed
  qed
qed simp

lemma render_list_kids:
  "render_kids (list_kids sep (v # vs)) = sep @ butlast (concat (map (\<lambda>v. render v @ '','') (v # vs)))"
proof (induction vs arbitrary: sep v)
  case (Cons w vs)
  then show ?case using Cons.IH [of "'',''" w] by (simp add: butlast_append)
qed simp

lemma drop_separator_bytes:
  "response_bytes (drop_separator (node_of ''['' # map (elem_node ntop) ds)) =
   CHR ''['' # render_kids (list_kids [] (map (sa_doc ntop) ds))"
proof (cases ds rule: rev_cases)
  case Nil
  then show ?thesis by (simp add: drop_separator_def response_bytes_def node_of_def)
next
  case (snoc es e)
  have "response_bytes (map (elem_node ntop) es) = concat (map (\<lambda>v. render v @ '','') (map (sa_doc ntop) es))" for es
    by (induction es) (simp_all add: response_bytes_def elem_node_def node_of_def)
  moreover obtain v vs where vs: "map (sa_doc ntop) ds = v # vs" using snoc by (cases "map (sa_doc ntop) ds") auto
  ultimately show ?thesis unfolding vs render_list_kids
    unfolding vs [symmetric] using snoc
    by (simp add: drop_separator_def response_bytes_def node_of_def elem_node_def butlast_append)
qed

text \<open>Every node holds the bytes that are to be sent.\<close>

definition nodes_ok :: "response_node list \<Rightarrow> bool" where
  "nodes_ok head \<longleftrightarrow> (\<forall>n \<in> set head. rn_len n \<le> length (rn_data n))"

lemma nodes_ok_append: "nodes_ok (xs @ ys) \<longleftrightarrow> nodes_ok xs \<and> nodes_ok ys"
  by (auto simp: nodes_ok_def)

lemma elem_nodes_ok: "nodes_ok (drop_separator (node_of s # map (elem_node ntop) sas) @ [node_of t])"
proof -
  have "nodes_ok (drop_separator head)" if "nodes_ok head" for head
    using that by (auto simp: nodes_ok_def drop_separator_def dest: in_set_butlastD)
      (metis last_in_set less_imp_diff_less list.size(3) not_numeral_le_zero le_diff_conv trans_le_add1)
  moreover have "nodes_ok (node_of s # map (elem_node ntop) sas)" "nodes_ok [node_of t]"
    by (auto simp: nodes_ok_def elem_node_def node_of_def)
  ultimately show ?thesis by (simp add: nodes_ok_append)
qed

lemma clients_to_json_body:
  assumes rep: "client_rep T es" and ok: "inet_ok ntop pton" and n: "n < 2 ^ 31"
  shows "\<exists>body. clients_to_json ntop [] ign (dec n @ NUL # junk) T = Some (CL_OK, body) \<and> nodes_ok body \<and>
    response_bytes body =
      render (list_doc (map (sa_doc ntop) (take n (filter (\<lambda>d. \<not> ignored ign d) (map fst es))))) @ DELIM"
proof -
  have "c_strtol (dec n @ NUL # junk) = Some (int n, NUL # junk)"
    using n by (intro c_strtol_dec) (simp_all add: LONG_MAX_def c_isdigit_def)
  moreover have "int_of_long (int n) = int n" using n by (simp add: int_of_long_def)
  moreover have "\<forall>d \<in> set (map fst es). inet_family d" using client_rep_inet [OF rep] by auto
  then obtain j where "spec_foreach (make_list ntop) (map fst es)
      (Some \<lparr>ml_list = [node_of ''[''], ml_ignore = ign, ml_i = 0, ml_n = int n\<rparr>) =
    Some \<lparr>ml_list = [node_of ''[''] @ map (elem_node ntop) (take n (filter (\<lambda>d. \<not> ignored ign d) (map fst es))),
          ml_ignore = ign, ml_i = j, ml_n = int n\<rparr>"
    using make_list_foreach [OF ok, of "map fst es" 0 "int n" "[node_of ''['']" ign] by auto
  ultimately show ?thesis using
      drop_separator_bytes [of ntop "take n (filter (\<lambda>d. \<not> ignored ign d) (map fst es))"]
      elem_nodes_ok
    by (simp add: clients_to_json_def client.delta_foreach_rep [OF rep] Let_def list_doc_def response_bytes_append response_bytes_node)
qed

section \<open>Forwarding\<close>

text \<open>The datagrams that go out when the script of the system is followed.\<close>

definition delivered :: "sockaddr_storage list \<Rightarrow> udp_event list \<Rightarrow> char list \<Rightarrow> (sockaddr_storage \<times> char list) list" where
  "delivered ds evs m = map (\<lambda>(d, _). (d, m)) (filter (\<lambda>(_, ev). ev = UdpSent) (zip ds evs))"

lemma udp_send_step:
  assumes "udp_script w = ev # evs" and "len \<le> length msg"
  shows "map_option snd (udp_send d len msg w) =
    Some (w\<lparr>udp_script := evs, dgrams := dgrams w @ delivered [d] [ev] (take len msg)\<rparr>)"
  using assms by (cases ev) (simp_all add: udp_send_def delivered_def)

lemma fwd_foreach:
  assumes "mi_len mi \<le> length (mi_msg mi)" and "length ds \<le> length (udp_script w)"
  shows "spec_foreach (fwd_to_client mi) ds (Some w) =
    Some (w\<lparr>udp_script := drop (length ds) (udp_script w),
            dgrams := dgrams w @ delivered ds (udp_script w) (take (mi_len mi) (mi_msg mi))\<rparr>)"
  using assms(2)
proof (induction ds arbitrary: w)
  case Nil
  then show ?case by (simp add: delivered_def)
next
  case (Cons d ds)
  then obtain ev evs where ev: "udp_script w = ev # evs" by (cases "udp_script w") auto
  let ?m = "take (mi_len mi) (mi_msg mi)"
  let ?w = "w\<lparr>udp_script := evs, dgrams := dgrams w @ delivered [d] [ev] ?m\<rparr>"
  have "fwd_to_client mi d (Some w) = (False, Some ?w)"
    unfolding fwd_to_client_def using udp_send_step [OF ev assms(1), of d] by (simp only: option.case)
  moreover have "delivered (d # ds) (ev # evs) ?m = delivered [d] [ev] ?m @ delivered ds evs ?m"
    by (simp add: delivered_def)
  ultimately show ?case using Cons.IH [of ?w] Cons.prems ev by simp
qed

lemma flood_to_clients_rep:
  assumes "client_rep T es" and "mi_len mi \<le> length (mi_msg mi)" and "length es \<le> length (udp_script w)"
  shows "flood_to_clients mi T w =
    Some (CL_OK, w\<lparr>udp_script := drop (length es) (udp_script w),
      dgrams := dgrams w @ delivered (map fst es) (udp_script w) (take (mi_len mi) (mi_msg mi))\<rparr>)"
  using fwd_foreach [OF assms(2), of "map fst es" w] assms(3)
  by (simp add: flood_to_clients_def client.delta_foreach_rep [OF assms(1)])

section \<open>Properties\<close>

text \<open>C15. \<open>add_client\<close> on an intact table with the text of a number (that a \<open>long\<close> holds): up to 665535 it puts the address with that port
  in the table or refreshes it, unless that address is the last of several clients, and returns 0; a larger number is refused and the table is left as it is.
  \<open>PORT_MAX\<close> has a digit too many, so a number above 65535 passes the check and registers the port it is congruent to. (Refreshing the last of several clients drops it from the delta list, C6.)\<close>

theorem add_client_registers:
  assumes "client_rep T es" and "inet_family addr" and "int n \<le> LONG_MAX"
    and "\<not> hits_last delta_equals (set_in_port (htons (of_nat n)) addr) es"
  shows "if n \<le> 665535
    then \<exists>T'. add_client addr (dec n @ NUL # junk) T = Some (0, T') \<and>
      client_rep T' (spec_update delta_equals 10 (set_in_port (htons (of_nat n)) addr) es) \<and>
      unat (psnet_get_port (set_in_port (htons (of_nat n)) addr)) = n mod 65536
    else add_client addr (dec n @ NUL # junk) T = Some (-1, T)"
proof (cases "n \<le> 665535")
  case True
  let ?c = "set_in_port (htons (of_nat n)) addr"
  obtain T' rc where "delta_update ?c T = Some (rc, T')" "client_rep T' (spec_update delta_equals 10 ?c es)"
    using client_update [OF assms(1) _ assms(4)] assms(2) by (metis inet_family_set_in_port)
  then show ?thesis using True
    by (simp add: add_client_def make_client_number PORT_MAX_def psnet_get_port_def unat_of_nat)
next
  case False
  then show ?thesis using assms(3) by (simp add: add_client_def make_client_refused PORT_MAX_def)
qed

definition sa4 :: "32 word \<Rightarrow> u16 \<Rightarrow> sockaddr_storage" where
  "sa4 a port = \<lparr>ss_family = AF_INET, sin_addr = a, sin_port = htons port, sin6_addr = 0, sin6_port = 0\<rparr>"

lemma sa4_simps [simp]:
  "inet_family (sa4 a p)" "set_in_port (htons q) (sa4 a p) = sa4 a q"
  "delta_equals (sa4 a p) (sa4 b q) \<longleftrightarrow> a = b \<and> p = q"
proof -
  have "htons p = htons q \<longleftrightarrow> p = q" by (metis htons_htons)
  then show "delta_equals (sa4 a p) (sa4 b q) \<longleftrightarrow> a = b \<and> p = q"
    by (simp add: sa4_def delta_equals_def sockaddr_equals_def sin_equals_def)
qed (simp_all add: sa4_def inet_family_def set_in_port_def)

lemma add_client_registers_witness:
  "(\<exists>T'. add_client (sa4 1 999) (''8080'' @ [NUL]) client_table = Some (0, T') \<and> client_rep T' [(sa4 1 8080, 10)]) \<and>
   (\<exists>T'. add_client (sa4 1 999) (''65616'' @ [NUL]) client_table = Some (0, T') \<and> client_rep T' [(sa4 1 80, 10)]) \<and>
   add_client (sa4 1 999) (''665536'' @ [NUL]) client_table = Some (-1, client_table)"
proof -
  have l: "int n \<le> LONG_MAX" if "n < 1000000" for n :: nat using that by (simp add: LONG_MAX_def)
  note r = add_client_registers [OF client_table_rep _ l, of "sa4 1 999" _ "[]"]
  have "(65616 :: u16) = 80" by (simp add: word_uint_eq_iff)
  then have w: "sa4 1 65616 = sa4 1 80" by (rule arg_cong)
  show ?thesis
    using r [of 8080] r [of 65616] r [of 665536] by (auto simp: w hits_last_def spec_update_def dec.simps digit_chars)
qed

end
