(* ===== verification/Parse.thy ===== *)
theory Parse
  imports Client
begin

text \<open>
  The message parsers of \<^verbatim>\<open>src/common/parse.c\<close>. A token array on the stack starts with
  indeterminate contents, which are an argument. A list of \<open>psnet_list_entry\<close> is the list of
  its addresses. A copy into a fixed buffer that does not fit is undefined.
\<close>

section \<open>Buffers\<close>

fun c_strncpy :: "char list \<Rightarrow> nat \<Rightarrow> char list option" where
  "c_strncpy p 0 = Some []"
| "c_strncpy [] (Suc n) = None"
| "c_strncpy (c # cs) (Suc n) =
     (if c = NUL then Some (replicate (Suc n) NUL) else map_option (Cons c) (c_strncpy cs n))"

text \<open>\<open>strncpy (s, msg + t.start, jsmn_toklen (t)); s[jsmn_toklen (t)] = 0\<close> for a buffer \<open>s\<close>
  of \<open>n\<close> bytes.\<close>

definition copy_tok :: "nat \<Rightarrow> char list \<Rightarrow> jsmntok_t \<Rightarrow> char list option" where
  "copy_tok n msg t = do {
     p \<leftarrow> ptr_at msg (tok_start t);
     if jsmn_toklen t < 0 \<or> int n \<le> jsmn_toklen t then None
     else do {
       s \<leftarrow> c_strncpy p (nat (jsmn_toklen t));
       Some (s @ [NUL])
     }
   }"

text \<open>\<open>msg[t.start]\<close>.\<close>

definition tok_first :: "char list \<Rightarrow> jsmntok_t \<Rightarrow> char option" where
  "tok_first msg t = do { p \<leftarrow> ptr_at msg (tok_start t); rd p 0 }"

definition zero_sa :: "u16 \<Rightarrow> sockaddr_storage" where
  "zero_sa fam = \<lparr>ss_family = fam, sin_addr = 0, sin_port = 0, sin6_addr = 0, sin6_port = 0\<rparr>"

section \<open>Node lists\<close>

definition parse_node ::
  "pton \<Rightarrow> sockaddr_storage list \<Rightarrow> char list \<Rightarrow> jsmntok_t list \<Rightarrow> (int \<times> sockaddr_storage list) option" where
  "parse_node pton head msg node = do {
     (rc, is) \<leftarrow> jsmn_get_values msg node [''ip'', ''port'', ''ipv''];
     if rc = -1 then Some (-1, head)
     else do {
       ip \<leftarrow> rd_tok node (nat (is ! 0));
       if tok_type ip \<noteq> JSMN_STRING then Some (-1, head)
       else do {
         port \<leftarrow> rd_tok node (nat (is ! 1));
         if tok_type port \<noteq> JSMN_PRIMITIVE then Some (-1, head)
         else do {
           c \<leftarrow> tok_first msg port;
           if schar c < schar CHR ''0'' \<or> schar c > schar CHR ''9'' then Some (-1, head)
           else do {
             ipvt \<leftarrow> rd_tok node (nat (is ! 2));
             if tok_type ipvt \<noteq> JSMN_PRIMITIVE then Some (-1, head)
             else do {
               ipv \<leftarrow> tok_first msg ipvt;
               if ipv \<noteq> CHR ''4'' \<and> ipv \<noteq> CHR ''6'' then Some (-1, head)
               else do {
                 s \<leftarrow> copy_tok INET6_ADDRSTRLEN msg ip;
                 let fam = (if ipv = CHR ''4'' then AF_INET else AF_INET6);
                 (case pton fam (cstr s) of
                    None \<Rightarrow> Some (-1, head)
                  | Some a \<Rightarrow> do {
                      let new = set_in_addr a (zero_sa fam);
                      s \<leftarrow> copy_tok INET6_ADDRSTRLEN msg port;
                      (lport, endptr) \<leftarrow> c_strtol s;
                      e \<leftarrow> rd endptr 0;
                      if lport < PORT_MIN \<or> lport > PORT_MAX \<or> e \<noteq> NUL then Some (-1, head)
                      else Some (0, head @ [set_in_port (htons (word_of_int lport)) new])
                    })
               }
             }
           }
         }
       }
     }
   }"

partial_function (option) node_list_loop ::
  "pton \<Rightarrow> char list \<Rightarrow> jsmntok_t list \<Rightarrow> nat \<Rightarrow> int \<Rightarrow> sockaddr_storage list \<Rightarrow>
   (int \<times> sockaddr_storage list) option" where
  "node_list_loop pton msg tok i ntok head =
     (if int i < ntok then do {
        t \<leftarrow> rd_tok tok i;
        if tok_type t \<noteq> JSMN_OBJECT \<or> tok_size t < 6 then Some (-1, head)
        else do {
          (rc, head) \<leftarrow> parse_node pton head msg (drop i tok);
          if rc \<noteq> 0 then Some (-1, head)
          else do {
            (i, ntok) \<leftarrow> skip_value tok i 1 ntok;
            node_list_loop pton msg tok i ntok head
          }
        }
      }
      else Some (0, head))"

text \<open>\<open>tok\<close> is the array of \<open>max_tok\<close> elements with its indeterminate contents.\<close>

definition parse_node_list ::
  "pton \<Rightarrow> jsmntok_t list \<Rightarrow> sockaddr_storage list \<Rightarrow> char list \<Rightarrow> nat \<Rightarrow> (int \<times> sockaddr_storage list) option" where
  "parse_node_list pton tok head msg nentries = do {
     let max_tok = 1 + 10 * nentries;
     (rc, p, tok) \<leftarrow> jsmn_parse jsmn_init msg (take max_tok tok) max_tok;
     if rc \<noteq> JSMN_SUCCESS then Some (-1, head)
     else do {
       t \<leftarrow> rd_tok tok 0;
       if tok_type t \<noteq> JSMN_ARRAY then Some (-1, head)
       else node_list_loop pton msg tok 1 (tok_size t + 1) head
     }
   }"

section \<open>Headers and requests\<close>

datatype psnet_status = PSNET_OKAY | PSNET_ERROR

text \<open>The status and size fields, or \<open>None\<close> for the return value -1.\<close>

definition parse_header :: "jsmntok_t list \<Rightarrow> char list \<Rightarrow> (psnet_status \<times> ulong) option option" where
  "parse_header tok msg = do {
     (rc, p, tok) \<leftarrow> jsmn_parse jsmn_init msg (take 256 tok) 256;
     if rc \<noteq> JSMN_SUCCESS then Some None
     else do {
       t \<leftarrow> rd_tok tok 0;
       if tok_type t \<noteq> JSMN_OBJECT then Some None
       else do {
         istatus \<leftarrow> jsmn_get_value msg tok ''status'';
         if istatus = -1 then Some None
         else do {
           isize \<leftarrow> jsmn_get_value msg tok ''size'';
           r \<leftarrow> (if isize = -1 then Some (Some 0)
             else do {
               t \<leftarrow> rd_tok tok (nat isize);
               if tok_type t \<noteq> JSMN_PRIMITIVE then Some None
               else do {
                 c \<leftarrow> tok_first msg t;
                 if schar c < schar CHR ''0'' \<or> schar c > schar CHR ''9'' then Some None
                 else do {
                   s \<leftarrow> copy_tok 5 msg t;
                   p \<leftarrow> ptr_at msg (tok_start t);
                   (lsize, endptr) \<leftarrow> c_strtol p;
                   if lsize < 0 then Some None else Some (Some (word_of_int lsize))
                 }
               }
             });
           (case r of
              None \<Rightarrow> Some None
            | Some size' \<Rightarrow> do {
                t \<leftarrow> rd_tok tok (nat istatus);
                p \<leftarrow> ptr_at msg (tok_start t);
                eq \<leftarrow> strncmp_eq p ''okay'';
                Some (Some (if eq then PSNET_OKAY else PSNET_ERROR, size'))
              })
         }
       }
     }
   }"

text \<open>The index of the method, the tokens and the number of tokens.\<close>

definition parse_message ::
  "char list \<Rightarrow> jsmntok_t list \<Rightarrow> nat \<Rightarrow> (int \<times> jsmntok_t list \<times> nat) option" where
  "parse_message msg tok ntok = do {
     (rc, p, tok) \<leftarrow> jsmn_parse jsmn_init msg tok ntok;
     if rc \<noteq> JSMN_SUCCESS then Some (-1, tok, ntok)
     else do {
       t \<leftarrow> rd_tok tok 0;
       if tok_type t \<noteq> JSMN_OBJECT then Some (-1, tok, ntok)
       else do {
         method \<leftarrow> jsmn_get_value msg tok ''method'';
         Some (method, tok, toknext p)
       }
     }
   }"

declare node_list_loop.simps [code]

section \<open>Lemmas\<close>

lemma c_strncpy_text: "NUL \<notin> set s \<Longrightarrow> c_strncpy (s @ post) (length s) = Some s"
  by (induction s) auto

lemma copy_tok_range:
  assumes "msg = pre @ s @ post" and "tok_start t = int (length pre)" and "tok_end t = int (length pre + length s)"
    and "NUL \<notin> set s" and "length s < n"
  shows "copy_tok n msg t = Some (s @ [NUL])"
  using assms c_strncpy_text by (simp add: copy_tok_def ptr_at_def jsmn_toklen_def)

lemma copy_tok_overflow:
  assumes "tok_end t = tok_start t + int m" and "n \<le> m"
  shows "copy_tok n msg t = None"
  using assms by (auto simp: copy_tok_def jsmn_toklen_def bind_eq_Some_iff split: Option.bind_split)

lemma tok_first_at:
  assumes "msg = pre @ c # post" and "tok_start t = int (length pre)"
  shows "tok_first msg t = Some c"
  using assms by (simp add: tok_first_def ptr_at_def)

lemma cstr_text: "NUL \<notin> set s \<Longrightarrow> cstr (s @ NUL # junk) = s"
  unfolding cstr_def by (subst takeWhile_append2) auto

lemma addr_char_text: "list_all addr_char s \<Longrightarrow> NUL \<notin> set s \<and> str_ok s"
proof (induction s)
  case (Cons c s)
  then have "c \<noteq> NUL" "c \<noteq> QUOTE" "c \<noteq> BACKSLASH" by (auto simp: addr_char_def c_isdigit_def)
  then show ?case using Cons by auto
qed simp

lemma schar_digit: "c_isdigit c \<Longrightarrow> 48 \<le> schar c \<and> schar c \<le> 57"
proof -
  assume c: "c_isdigit c"
  have "(48 :: int) \<le> of_char c" "of_char c \<le> (57 :: int)"
    using c unfolding c_isdigit_def by (metis of_nat_le_iff of_nat_numeral of_nat_of_char)+
  then show ?thesis by (simp add: schar_def)
qed

lemma digit_range: "c_isdigit c \<Longrightarrow> \<not> (schar c < schar CHR ''0'' \<or> schar c > schar CHR ''9'')"
  using schar_digit [of c] by (simp add: schar_def [of "CHR ''0''"] schar_def [of "CHR ''9''"])

lemma dec_prim: "prim_ok (dec n)" "NUL \<notin> set (dec n)"
proof -
  have digit: "prim_char c \<and> c \<noteq> NUL \<and> c \<notin> {CHR ''{'', CHR ''['', QUOTE}" if "c_isdigit c" for c
    using that schar_digit [OF that] c_isdigit_not [OF that]
    by (auto simp: prim_char_def prim_stop_def c_isdigit_def)
  have "hd (dec n) \<in> set (dec n)" using dec_nonempty by (rule hd_in_set)
  then show "prim_ok (dec n)" using digit dec_digits [of n] dec_nonempty [of n]
    by (auto simp: prim_ok_def list_all_iff)
  show "NUL \<notin> set (dec n)" using dec_digits [of n] c_isdigit_not by blast
qed

section \<open>A node\<close>

lemma node_tokens:
  "toks_of a (node_doc ip port fam) =
    [mk_tok JSMN_OBJECT a (a + length (render (node_doc ip port fam))) 6,
     mk_tok JSMN_STRING (a + 2) (a + 4) 0,
     mk_tok JSMN_STRING (a + 7) (a + 7 + length ip) 0,
     mk_tok JSMN_STRING (a + length ip + 10) (a + length ip + 14) 0,
     mk_tok JSMN_PRIMITIVE (a + length ip + 16) (a + length ip + 16 + length (dec (unat port))) 0,
     mk_tok JSMN_STRING (a + length ip + length (dec (unat port)) + 18) (a + length ip + length (dec (unat port)) + 21) 0,
     mk_tok JSMN_PRIMITIVE (a + length ip + length (dec (unat port)) + 23)
       (a + length ip + length (dec (unat port)) + 24) 0]"
proof -
  have "length (dec 4) = 1" "length (dec 6) = 1" by (simp_all add: dec.simps)
  then show ?thesis by (simp add: node_doc_def mk_tok_def)
qed

lemma node_keys:
  "\<exists>ks. node_doc ip port fam = JCont True ks \<and> obj_lookup ''ip'' 1 ks = 2 \<and>
    obj_lookup ''port'' 1 ks = 4 \<and> obj_lookup ''ipv'' 1 ks = 6"
  by (simp add: node_doc_def)

lemma node_values:
  assumes "msg = pre @ render (node_doc ip port fam) @ post" and "node = toks_of (length pre) (node_doc ip port fam) @ rest"
  shows "jsmn_get_values msg node [''ip'', ''port'', ''ipv''] = Some (0, [2, 4, 6])"
proof -
  obtain ks where ks: "node_doc ip port fam = JCont True ks" "obj_lookup ''ip'' 1 ks = 2"
    "obj_lookup ''port'' 1 ks = 4" "obj_lookup ''ipv'' 1 ks = 6" using node_keys by blast
  have "jsmn_get_value msg node key = Some (obj_lookup key 1 ks)" if "QUOTE \<notin> set key" for key
    using jsmn_get_value_doc [of msg pre True ks post node rest key] assms ks(1) that by simp
  then show ?thesis using ks by simp
qed

text \<open>The address that the text of an address stands for: the same family, address and port,
  all else zero.\<close>

definition norm_sa :: "sockaddr_storage \<Rightarrow> sockaddr_storage" where
  "norm_sa sa = set_in_port (get_in_port sa) (set_in_addr (get_in_addr sa) (zero_sa (ss_family sa)))"

lemma norm_sa_equals: "inet_family sa \<Longrightarrow> sockaddr_equals (norm_sa sa) sa"
  by (auto simp: norm_sa_def sockaddr_equals_iff inet_family_def zero_sa_def set_in_port_def get_in_addr_def get_in_port_def)

lemma parse_node_doc:
  assumes ok: "inet_ok ntop pton" and fam: "inet_family sa"
    and msg: "msg = pre @ render (sa_doc ntop sa) @ post" and node: "node = toks_of (length pre) (sa_doc ntop sa) @ rest"
  shows "parse_node pton head msg node = Some (0, head @ [norm_sa sa])"
proof -
  obtain ip where ip: "ntop (ss_family sa) (get_in_addr sa) = Some ip" "length ip < get_addr_strlen sa"
    "list_all addr_char ip" "pton (ss_family sa) ip = Some (get_in_addr sa)" using inet_okE [OF ok fam] .
  let ?a = "length pre" and ?p = "dec (unat (ntohs (get_in_port sa)))"
  let ?v = "if ss_family sa = AF_INET then CHR ''4'' else CHR ''6''"
  have doc: "sa_doc ntop sa = node_doc ip (ntohs (get_in_port sa)) (ss_family sa)" using ip(1) by (simp add: sa_doc_def)
  have len: "length ip < INET6_ADDRSTRLEN"
    using ip(2) by (auto simp: get_addr_strlen_def INET_ADDRSTRLEN_def INET6_ADDRSTRLEN_def split: if_splits)
  have body: \<open>msg = (pre @ ''{"ip":"'') @ ip @ ''","port":'' @ ?p @ '',"ipv":'' @ ?v # CHR ''}'' # post\<close>
    unfolding msg doc by (simp add: node_doc_def dec.simps digit_chars)
  let ?tip = "mk_tok JSMN_STRING (?a + 7) (?a + 7 + length ip) 0"
  let ?tport = "mk_tok JSMN_PRIMITIVE (?a + length ip + 16) (?a + length ip + 16 + length ?p) 0"
  let ?tipv = "mk_tok JSMN_PRIMITIVE (?a + length ip + length ?p + 23) (?a + length ip + length ?p + 24) 0"
  have tok: "rd_tok node 2 = Some ?tip" "rd_tok node 4 = Some ?tport" "rd_tok node 6 = Some ?tipv"
    unfolding node doc node_tokens by (simp_all add: rd_tok_def)
  have ty: "tok_type ?tip = JSMN_STRING" "tok_type ?tport = JSMN_PRIMITIVE" "tok_type ?tipv = JSMN_PRIMITIVE"
    by (simp_all add: mk_tok_def)
  have nul: "NUL \<notin> set ip" using addr_char_text [OF ip(3)] by simp
  have s1: "copy_tok INET6_ADDRSTRLEN msg ?tip = Some (ip @ [NUL])"
    by (rule copy_tok_range [OF body _ _ nul len]) (simp_all add: mk_tok_def)
  have plen: "length ?p \<le> 5" using unsigned_less [of "ntohs (get_in_port sa)", where 'a = nat]
    by (intro dec_length_le) simp_all
  have s2: "copy_tok INET6_ADDRSTRLEN msg ?tport = Some (?p @ [NUL])"
    by (rule copy_tok_range [where pre = "pre @ ''{\"ip\":\"'' @ ip @ ''\",\"port\":''"])
      (use plen in \<open>simp_all add: body mk_tok_def dec_prim INET6_ADDRSTRLEN_def\<close>)
  obtain d ds where p: "?p = d # ds" and d: "c_isdigit d"
    using dec_nonempty [of "unat (ntohs (get_in_port sa))"] dec_digits [of "unat (ntohs (get_in_port sa))"]
    by (cases ?p) auto
  have f1: "tok_first msg ?tport = Some d"
    by (rule tok_first_at [where pre = "pre @ ''{\"ip\":\"'' @ ip @ ''\",\"port\":''"])
      (simp_all add: body mk_tok_def p)
  have f2: "tok_first msg ?tipv = Some ?v"
    by (rule tok_first_at [where pre = "pre @ ''{\"ip\":\"'' @ ip @ ''\",\"port\":'' @ ?p @ '',\"ipv\":''"])
      (simp_all add: body mk_tok_def)
  have fam': "(if ?v = CHR ''4'' then AF_INET else AF_INET6) = ss_family sa" using fam by (auto simp: inet_family_def)
  have c: "cstr (ip @ [NUL]) = ip" using cstr_text [OF nul] .
  have "unat (ntohs (get_in_port sa)) < 65536"
    using unsigned_less [of "ntohs (get_in_port sa)", where 'a = nat] by simp
  then have lt: "int (unat (ntohs (get_in_port sa))) \<le> PORT_MAX" unfolding PORT_MAX_def by linarith
  then have st: "c_strtol (?p @ [NUL]) = Some (int (unat (ntohs (get_in_port sa))), [NUL])"
    by (intro c_strtol_dec) (simp_all add: PORT_MAX_def LONG_MAX_def c_isdigit_def)
  have w: "word_of_int (int (unat (ntohs (get_in_port sa)))) = ntohs (get_in_port sa)" by simp
  have vals: "jsmn_get_values msg node [''ip'', ''port'', ''ipv''] = Some (0, [2, 4, 6])"
    using node_values msg node doc by simp
  have v: "\<not> (?v \<noteq> CHR ''4'' \<and> ?v \<noteq> CHR ''6'')" by simp
  have nth: "nat ([2, 4, 6 :: int] ! 0) = 2" "nat ([2, 4, 6 :: int] ! 1) = 4" "nat ([2, 4, 6 :: int] ! 2) = 6" by simp_all
  show ?thesis
    unfolding parse_node_def vals Option.bind.bind_lunit prod.case nth tok ty f1 f2 s1 s2 c fam' Let_def ip(4) option.case st w
    using lt v digit_range [OF d] by (simp add: norm_sa_def PORT_MIN_def)
qed

section \<open>Node lists\<close>

lemma node_list_loop_doc:
  assumes ok: "inet_ok ntop pton"
  shows "\<forall>sa \<in> set sas. inet_family sa \<Longrightarrow>
    msg = pre @ render_kids (list_kids sep (map (sa_doc ntop) sas)) @ post \<Longrightarrow>
    tok = us @ kids_toks (length pre) (list_kids sep (map (sa_doc ntop) sas)) @ rest \<Longrightarrow>
    node_list_loop pton msg tok (length us) (int (length us) + int (length sas)) head = Some (0, head @ map norm_sa sas)"
proof (induction sas arbitrary: pre sep us head)
  case Nil
  then show ?case by (subst node_list_loop.simps) simp
next
  case (Cons sa sas)
  let ?v = "sa_doc ntop sa" and ?ks = "list_kids '','' (map (sa_doc ntop) sas)"
  let ?a = "length pre + length sep" let ?b = "?a + length (render ?v)"
  have fam: "inet_family sa" using Cons.prems by simp
  have msg: "msg = (pre @ sep) @ render ?v @ render_kids ?ks @ post" using Cons.prems(2) by simp
  have tok: "tok = us @ toks_of ?a ?v @ kids_toks ?b ?ks @ rest" using Cons.prems(3) by simp
  have hd: "rd_tok tok (length us) = Some (toks_of ?a ?v ! 0)" using rd_tok_toks tok by simp
  have ty: "tok_type (toks_of ?a ?v ! 0) = JSMN_OBJECT" "\<not> tok_size (toks_of ?a ?v ! 0) < 6"
    by (simp_all add: sa_doc_def node_tokens) (simp_all add: mk_tok_def)
  have node: "parse_node pton head msg (drop (length us) tok) = Some (0, head @ [norm_sa sa])"
    using parse_node_doc [OF ok fam msg, of "drop (length us) tok" "kids_toks ?b ?ks @ rest"] tok by simp
  have skip: "skip_value tok (length us) 1 (int (length us) + int (length (sa # sas))) =
      Some (length (us @ toks_of ?a ?v), int (length (us @ toks_of ?a ?v)) + int (length sas))"
    using skip_val [of 0 us ?a ?v "kids_toks ?b ?ks @ rest"] tok toks_length(1) [of ?a ?v]
    by (simp add: skip_value.simps [of _ _ 0])
  have "node_list_loop pton msg tok (length (us @ toks_of ?a ?v)) (int (length (us @ toks_of ?a ?v)) + int (length sas))
      (head @ [norm_sa sa]) = Some (0, (head @ [norm_sa sa]) @ map norm_sa sas)"
    using Cons.IH [of "pre @ sep @ render ?v" "'',''" "us @ toks_of ?a ?v" "head @ [norm_sa sa]"] Cons.prems(1) msg tok
    by (simp add: add.assoc)
  then show ?case using hd ty node skip by (subst node_list_loop.simps) simp
qed

lemma sa_doc_ok:
  assumes "inet_ok ntop pton" and "inet_family sa"
  shows "jval_ok (sa_doc ntop sa)" and "length (toks_of 0 (sa_doc ntop sa)) = 7"
proof -
  obtain ip where ip: "ntop (ss_family sa) (get_in_addr sa) = Some ip" "list_all addr_char ip" using inet_okE [OF assms] .
  have "str_ok ''ip''" "str_ok ''port''" "str_ok ''ipv''" by simp_all
  then show "jval_ok (sa_doc ntop sa)" using ip addr_char_text [OF ip(2)] dec_prim
    by (simp add: sa_doc_def node_doc_def sep_char_def)
qed (simp add: sa_doc_def node_tokens)

lemma list_kids_ok:
  assumes "\<forall>v \<in> set vs. jval_ok v \<and> (\<exists>ob ks. v = JCont ob ks)" and "list_all sep_char sep"
  shows "kids_ok (list_kids sep vs)"
  using assms by (induction vs arbitrary: sep) (auto simp: sep_char_def)

lemma list_kids_toks:
  "\<forall>v \<in> set vs. length (toks_of 0 v) = k \<Longrightarrow> length (kids_toks a (list_kids sep vs)) = k * length vs"
proof (induction vs arbitrary: a sep)
  case (Cons v vs)
  then show ?case using toks_length(1) [of "a + length sep" v] by simp
qed simp

lemma nkids_list_kids [simp]: "nkids (list_kids sep vs) = length vs"
  by (induction vs arbitrary: sep) auto

lemma list_doc_ok:
  assumes ok: "inet_ok ntop pton" and fam: "\<forall>sa \<in> set sas. inet_family sa"
  shows "jval_ok (list_doc (map (sa_doc ntop) sas))"
    and "length (toks_of 0 (list_doc (map (sa_doc ntop) sas))) = 1 + 7 * length sas"
proof -
  have "\<forall>v \<in> set (map (sa_doc ntop) sas). jval_ok v \<and> (\<exists>ob ks. v = JCont ob ks)"
    using sa_doc_ok(1) [OF ok] fam by (auto simp: sa_doc_def node_doc_def)
  then show "jval_ok (list_doc (map (sa_doc ntop) sas))" by (simp add: list_doc_def list_kids_ok)
  have "\<forall>v \<in> set (map (sa_doc ntop) sas). length (toks_of 0 v) = 7" using sa_doc_ok(2) [OF ok] fam by auto
  from list_kids_toks [OF this] show "length (toks_of 0 (list_doc (map (sa_doc ntop) sas))) = 1 + 7 * length sas"
    by (simp add: list_doc_def)
qed

lemma seps_DELIM: "list_all sep_char DELIM"
  by (simp add: DELIM_def sep_char_def)

lemma parse_message_doc:
  assumes "kids_ok ks" and "list_all sep_char sep'" and "length (toks_of 0 (JCont True ks)) \<le> ntok" and "ntok \<le> length tok"
  shows "parse_message (render (JCont True ks) @ sep' @ NUL # junk) tok ntok =
    Some (obj_lookup ''method'' 1 ks, toks_of 0 (JCont True ks) @ drop (length (toks_of 0 (JCont True ks))) tok,
      length (toks_of 0 (JCont True ks)))"
proof -
  let ?v = "JCont True ks" let ?msg = "render ?v @ sep' @ NUL # junk"
  let ?toks = "toks_of 0 ?v @ drop (length (toks_of 0 ?v)) tok"
  have "jsmn_parse jsmn_init ?msg tok ntok =
      Some (JSMN_SUCCESS, pst (length (render ?v) + length sep') (length (toks_of 0 ?v)) (-1), ?toks)"
    using jsmn_parse_kids [of "KCons [] ?v (KNil sep')" ntok tok junk] assms by simp
  moreover have "rd_tok ?toks 0 = Some (mk_tok JSMN_OBJECT 0 (length (render_kids ks) + 2) (nkids ks))"
    by (simp add: rd_tok_def)
  moreover have "jsmn_get_value ?msg ?toks ''method'' = Some (obj_lookup ''method'' 1 ks)"
    using jsmn_get_value_doc [of ?msg "[]" True ks "sep' @ NUL # junk" ?toks _ "''method''"] by simp
  ultimately show ?thesis by (simp add: parse_message_def mk_tok_def del: toks_of.simps render.simps)
qed

section \<open>Headers\<close>

definition header_doc :: "nat \<Rightarrow> jval" where
  "header_doc n = JCont True (KCons [] (JStr ''status'') (KCons '':'' (JStr ''okay'')
     (KCons '','' (JStr ''size'') (KCons '':'' (JPrim (dec n)) (KNil [])))))"

lemma header_doc_text:
  \<open>render (header_doc n) = ''{"status":"okay","size":'' @ dec n @ ''}''\<close>
  by (simp add: header_doc_def)

lemma header_tokens:
  "toks_of 0 (header_doc n) =
    [mk_tok JSMN_OBJECT 0 (25 + length (dec n)) 4, mk_tok JSMN_STRING 2 8 0, mk_tok JSMN_STRING 11 15 0,
     mk_tok JSMN_STRING 18 22 0, mk_tok JSMN_PRIMITIVE 24 (24 + length (dec n)) 0]"
  by (simp add: header_doc_def mk_tok_def)

lemma header_parse:
  assumes "256 \<le> length tok" and "msg = render (header_doc n) @ DELIM @ NUL # junk"
  obtains p rest where
    "jsmn_parse jsmn_init msg (take 256 tok) 256 = Some (JSMN_SUCCESS, p, toks_of 0 (header_doc n) @ rest)"
    "jsmn_get_value msg (toks_of 0 (header_doc n) @ rest) ''status'' = Some 2"
    "jsmn_get_value msg (toks_of 0 (header_doc n) @ rest) ''size'' = Some 4"
proof -
  let ?v = "header_doc n" let ?rest = "drop (length (toks_of 0 ?v)) (take 256 tok)"
  obtain ks where ks: "?v = JCont True ks" "obj_lookup ''status'' 1 ks = 2" "obj_lookup ''size'' 1 ks = 4"
    by (simp add: header_doc_def)
  have "jval_ok ?v" using dec_prim by (simp add: header_doc_def sep_char_def)
  then have "jsmn_parse jsmn_init msg (take 256 tok) 256 = Some (JSMN_SUCCESS,
      pst (length (render ?v) + length DELIM) (length (toks_of 0 ?v)) (-1), toks_of 0 ?v @ ?rest)"
    using jsmn_parse_val [of ?v "[]" DELIM 256 "take 256 tok" junk] assms seps_DELIM
    by (simp add: header_tokens)
  moreover have "jsmn_get_value msg (toks_of 0 ?v @ ?rest) key = Some (obj_lookup key 1 ks)" if "QUOTE \<notin> set key" for key
    using jsmn_get_value_doc [of msg "[]" True ks "DELIM @ NUL # junk" "toks_of 0 ?v @ ?rest" ?rest key] assms(2) ks(1) that by simp
  ultimately show ?thesis using ks(2,3) by (intro that [of _ ?rest]) simp_all
qed

lemma parse_header_text:
  assumes "256 \<le> length tok" and "n < 2 ^ 63"
  shows "parse_header tok (render (header_doc n) @ DELIM @ NUL # junk) =
    (if n < 10000 then Some (Some (PSNET_OKAY, of_nat n)) else None)"
proof -
  let ?msg = "render (header_doc n) @ DELIM @ NUL # junk" and ?t = "mk_tok JSMN_PRIMITIVE 24 (24 + length (dec n)) 0"
  obtain p rest where parse:
    "jsmn_parse jsmn_init ?msg (take 256 tok) 256 = Some (JSMN_SUCCESS, p, toks_of 0 (header_doc n) @ rest)"
    "jsmn_get_value ?msg (toks_of 0 (header_doc n) @ rest) ''status'' = Some 2"
    "jsmn_get_value ?msg (toks_of 0 (header_doc n) @ rest) ''size'' = Some 4"
    by (rule header_parse [OF assms(1) refl])
  have rd: "rd_tok (toks_of 0 (header_doc n) @ rest) 0 = Some (mk_tok JSMN_OBJECT 0 (25 + length (dec n)) 4)"
    "rd_tok (toks_of 0 (header_doc n) @ rest) 2 = Some (mk_tok JSMN_STRING 11 15 0)"
    "rd_tok (toks_of 0 (header_doc n) @ rest) 4 = Some ?t"
    by (simp_all add: header_tokens rd_tok_def)
  have body: "?msg = ''{\"status\":\"okay\",\"size\":'' @ dec n @ CHR ''}'' # DELIM @ NUL # junk" by (simp add: header_doc_text)
  obtain d ds where d: "dec n = d # ds" "c_isdigit d" using dec_nonempty [of n] dec_digits [of n] by (cases "dec n") auto
  have first: "tok_first ?msg ?t = Some d"
    by (rule tok_first_at [where pre = "''{\"status\":\"okay\",\"size\":''"]) (simp_all add: header_doc_text d(1) mk_tok_def)
  have ptr: "ptr_at ?msg (tok_start ?t) = Some (dec n @ CHR ''}'' # DELIM @ NUL # junk)"
    unfolding body by (simp add: ptr_at_def mk_tok_def)
  have num: "c_strtol (dec n @ CHR ''}'' # DELIM @ NUL # junk) = Some (int n, CHR ''}'' # DELIM @ NUL # junk)"
    using assms(2) by (intro c_strtol_dec) (simp_all add: LONG_MAX_def c_isdigit_def)
  have okay: "ptr_at ?msg (tok_start (mk_tok JSMN_STRING 11 15 0)) = Some (drop 11 ?msg)"
    "strncmp_eq (drop 11 ?msg) ''okay'' = Some True"
    unfolding body by (simp_all add: ptr_at_def mk_tok_def)
  have ty: "tok_type ?t = JSMN_PRIMITIVE" "tok_type (mk_tok JSMN_OBJECT 0 (25 + length (dec n)) 4) = JSMN_OBJECT"
    by (simp_all add: mk_tok_def)
  show ?thesis
  proof (cases "n < 10000")
    case True
    then have len: "length (dec n) < 5" using dec_length_le [of n 4] by simp
    have "copy_tok 5 ?msg ?t = Some (dec n @ [NUL])"
      by (rule copy_tok_range [OF body _ _ dec_prim(2) len]) (simp_all add: mk_tok_def)
    then show ?thesis using True parse rd first digit_range [OF d(2)] ptr num okay ty by (simp add: parse_header_def)
  next
    case False
    have "copy_tok 5 ?msg ?t = None"
      using dec_length_ge [of 4 n] False by (intro copy_tok_overflow [of _ "length (dec n)"]) (simp_all add: mk_tok_def)
    then show ?thesis using False parse rd first digit_range [OF d(2)] ty by (simp add: parse_header_def)
  qed
qed

lemma parse_header_small:
  assumes "256 \<le> length tok" and "n < 10000"
  shows "parse_header tok (render (header_doc n) @ DELIM @ NUL # junk) = Some (Some (PSNET_OKAY, of_nat n))"
  using parse_header_text [OF assms(1), of n junk] assms(2) by simp

lemma parse_node_list_doc:
  assumes ok: "inet_ok ntop pton" and fam: "\<forall>sa \<in> set sas. inet_family sa"
    and n: "length sas \<le> n" and tok: "1 + 10 * n \<le> length tok"
  shows "parse_node_list pton tok head (render (list_doc (map (sa_doc ntop) sas)) @ DELIM @ NUL # junk) n =
      Some (0, head @ map norm_sa sas)"
proof -
  let ?v = "list_doc (map (sa_doc ntop) sas)" and ?N = "1 + 10 * n"
  let ?msg = "render ?v @ DELIM @ NUL # junk" and ?ks = "list_kids [] (map (sa_doc ntop) sas)"
  let ?rest = "drop (length (toks_of 0 ?v)) (take ?N tok)"
  have parse: "jsmn_parse jsmn_init ?msg (take ?N tok) ?N =
      Some (JSMN_SUCCESS, pst (length (render ?v) + length DELIM) (length (toks_of 0 ?v)) (-1), toks_of 0 ?v @ ?rest)"
    using jsmn_parse_kids [of "KCons [] ?v (KNil DELIM)" ?N "take ?N tok" junk] list_doc_ok [OF ok fam] n tok seps_DELIM
    by (simp add: list_doc_def)
  let ?t = "mk_tok JSMN_ARRAY 0 (length (render_kids ?ks) + 2) (length sas)"
  have toks: "toks_of 0 ?v @ ?rest = [?t] @ kids_toks (length ''['') ?ks @ ?rest" by (simp add: list_doc_def)
  have loop: "node_list_loop pton ?msg (toks_of 0 ?v @ ?rest) (length [?t]) (int (length [?t]) + int (length sas)) head =
      Some (0, head @ map norm_sa sas)"
    by (rule node_list_loop_doc [OF ok fam _ toks, where post = "CHR '']'' # DELIM @ NUL # junk"])
      (simp add: list_doc_def)
  have t: "rd_tok (toks_of 0 ?v @ ?rest) 0 = Some ?t" unfolding toks by (simp add: rd_tok_def)
  show ?thesis using parse loop t by (simp add: parse_node_list_def Let_def mk_tok_def add.commute)
qed

section \<open>Properties\<close>

text \<open>C20. Round trip of node lists: the text that \<open>clients_to_json\<close> and \<open>routers_to_json\<close>
  produce for a list of IPv4 and IPv6 addresses is parsed by \<open>parse_node_list\<close> into the same
  addresses and ports, in order, when it is asked for at least as many entries.\<close>

theorem parse_node_list_roundtrip:
  assumes ok: "inet_ok ntop pton" and fam: "\<forall>sa \<in> set sas. inet_family sa"
    and n: "length sas \<le> n" and tok: "1 + 10 * n \<le> length tok"
  shows "parse_node_list pton tok head (render (list_doc (map (sa_doc ntop) sas)) @ DELIM @ NUL # junk) n =
      Some (0, head @ map norm_sa sas)"
  by (rule parse_node_list_doc [OF assms])

lemma parse_node_list_roundtrip_witness:
  \<open>parse_node_list text_pton (replicate 21 (mk_tok JSMN_STRING 0 0 0)) []
     (''[{"ip":"127.0.0.1","port":80,"ipv":4},{"ip":"10.0.0.2","port":5555,"ipv":4}]'' @ DELIM @ [NUL]) 2 =
   Some (0, [sa4 16777343 80, sa4 33554442 5555])\<close>
proof -
  let ?sas = "[sa4 16777343 80, sa4 33554442 5555]"
  have "map norm_sa ?sas = ?sas"
    by (simp add: norm_sa_def sa4_def zero_sa_def set_in_port_def get_in_port_def get_in_addr_def)
  moreover have \<open>render (list_doc (map (sa_doc text_ntop) ?sas)) =
      ''[{"ip":"127.0.0.1","port":80,"ipv":4},{"ip":"10.0.0.2","port":5555,"ipv":4}]''\<close>
    by (simp add: sa_doc_def node_doc_def list_doc_def sa4_def get_in_addr_def get_in_port_def
        dotted_def Let_def dec.simps digit_chars)
  ultimately show ?thesis
    using parse_node_list_roundtrip [OF text_inet_ok, of ?sas 2 "replicate 21 (mk_tok JSMN_STRING 0 0 0)" "[]" "[]"]
    by simp
qed

text \<open>C21. \<open>parse_message\<close> on the text of a JSON object with string keys reports its tokens and the index of the
  value of its first member whose name starts with \<open>method\<close>, or -1 if it has none, when
  the \<open>ntok\<close> tokens it may use are enough for the object (C32 is about a request for which they are not).\<close>

theorem parse_message_request:
  assumes "kids_ok ks" and "list_all sep_char sep'" and "length (toks_of 0 (JCont True ks)) \<le> ntok" and "ntok \<le> length tok"
  shows "parse_message (render (JCont True ks) @ sep' @ NUL # junk) tok ntok =
    Some (obj_lookup ''method'' 1 ks, toks_of 0 (JCont True ks) @ drop (length (toks_of 0 (JCont True ks))) tok,
      length (toks_of 0 (JCont True ks)))"
  by (rule parse_message_doc [OF assms])

lemma parse_message_request_witness:
  \<open>parse_message (''{"method":"ping"}'' @ DELIM @ [NUL]) (replicate 4 (mk_tok JSMN_ARRAY 8 8 8)) 4 =
    Some (2, [mk_tok JSMN_OBJECT 0 17 2, mk_tok JSMN_STRING 2 8 0, mk_tok JSMN_STRING 11 15 0, mk_tok JSMN_ARRAY 8 8 8], 3)\<close>
  using parse_message_request [of "KCons [] (JStr ''method'') (KCons '':'' (JStr ''ping'') (KNil []))" DELIM 4
    "replicate 4 (mk_tok JSMN_ARRAY 8 8 8)" "[]"] seps_DELIM
  by (simp add: sep_char_def numeral_eq_Suc)

text \<open>C22. \<open>parse_header\<close> reads back the header of a response whose body has fewer than ten
  thousand bytes; for a longer body, the copy of the size field overflows its buffer of five
  bytes.\<close>

theorem parse_header_size:
  assumes "256 \<le> length tok" and "n < 2 ^ 63"
  shows "parse_header tok (render (header_doc n) @ DELIM @ NUL # junk) =
    (if n < 10000 then Some (Some (PSNET_OKAY, of_nat n)) else None)"
  by (rule parse_header_text [OF assms])

lemma parse_header_size_witness:
  \<open>parse_header (replicate 256 (mk_tok JSMN_ARRAY 8 8 8)) (''{"status":"okay","size":77}'' @ DELIM @ [NUL]) =
     Some (Some (PSNET_OKAY, 77)) \<and>
   parse_header (replicate 256 (mk_tok JSMN_ARRAY 8 8 8)) (''{"status":"okay","size":10000}'' @ DELIM @ [NUL]) = None\<close>
  using parse_header_size [of "replicate 256 (mk_tok JSMN_ARRAY 8 8 8)" 77 "[]"]
    parse_header_size [of "replicate 256 (mk_tok JSMN_ARRAY 8 8 8)" 10000 "[]"]
  by (simp add: header_doc_text dec.simps digit_chars)

end
