(* ===== verification/Protocol.thy ===== *)
theory Protocol
  imports Parse
begin

text \<open>
  Requests and responses, \<^verbatim>\<open>src/common/protocol.c\<close>. A \<open>PSNET\<close> handle is its socket
  address. The outcome of \<open>socket\<close> and \<open>connect\<close> is an argument of a request, and so is
  the indeterminate value that the local variable \<open>rv\<close> has before its first assignment.
\<close>

section \<open>Requests\<close>

datatype conn_event = ConnSockErr nat | ConnErr nat | ConnOk

text \<open>
  The statement \<open>goto cleanup\<close> after the test of \<open>connect\<close> is not part of the
  conditional: it is executed in either case, and nothing after it is reached. The result is the
  return value; \<open>resp\<close> and the connection are never written.
\<close>

definition psnet_request :: "conn_event \<Rightarrow> int \<Rightarrow> char list \<Rightarrow> net \<Rightarrow> int \<times> char list option \<times> net" where
  "psnet_request ev rv0 msg w =
     (case ev of
        ConnSockErr e \<Rightarrow> (- int e, None, w)
      | ConnErr e \<Rightarrow> (- int e, None, w)
      | ConnOk \<Rightarrow> (rv0, None, w))"

text \<open>\<open>msg\<close> is the formatted text; the request is built in a buffer of \<open>n\<close> bytes.\<close>

definition psnet_requestf :: "conn_event \<Rightarrow> int \<Rightarrow> nat \<Rightarrow> string \<Rightarrow> net \<Rightarrow> int \<times> char list option \<times> net" where
  "psnet_requestf ev rv0 n msg w = (let (len, buf) = c_snprintf n msg in psnet_request ev rv0 buf w)"

definition discover_msg :: "int \<Rightarrow> int \<Rightarrow> string" where
  \<open>discover_msg num port = ''{"method":"discover","num":'' @ dec_int num @ '',"port":'' @ dec_int port @ ''}'' @ DELIM\<close>

definition psnet_raw_request_discover ::
  "conn_event \<Rightarrow> int \<Rightarrow> int \<Rightarrow> int \<Rightarrow> net \<Rightarrow> int \<times> char list option \<times> net" where
  "psnet_raw_request_discover ev rv0 num port w = psnet_requestf ev rv0 (40 + 40 + 5) (discover_msg num port) w"

text \<open>The pointer \<open>dst\<close> is uninitialised; using it when no response was stored is undefined.\<close>

definition psnet_request_discover ::
  "pton \<Rightarrow> jsmntok_t list \<Rightarrow> conn_event \<Rightarrow> int \<Rightarrow> sockaddr_storage list \<Rightarrow> int \<Rightarrow> int \<Rightarrow> net \<Rightarrow>
   (int \<times> sockaddr_storage list \<times> net) option" where
  "psnet_request_discover pton tok ev rv0 head num port w =
     (let (rv, dst, w) = psnet_raw_request_discover ev rv0 num port w in
      if rv < 0 then Some (rv, head, w)
      else do {
        d \<leftarrow> dst;
        (rv, head) \<leftarrow> (if num < 0 then None else parse_node_list pton tok head d (nat num));
        Some (rv, head, w)
      })"

definition psnet_request_info :: "conn_event \<Rightarrow> int \<Rightarrow> net \<Rightarrow> int \<times> char list option \<times> net" where
  \<open>psnet_request_info ev rv0 w = psnet_request ev rv0 (''{"method":"info"}'' @ DELIM) w\<close>

definition psnet_raw_request_list :: "conn_event \<Rightarrow> int \<Rightarrow> int \<Rightarrow> net \<Rightarrow> int \<times> char list option \<times> net" where
  \<open>psnet_raw_request_list ev rv0 num w =
     psnet_requestf ev rv0 (28 + 5) (''{"method":"list","num":'' @ dec_int num @ ''}'' @ DELIM) w\<close>

definition psnet_request_ping :: "conn_event \<Rightarrow> int \<Rightarrow> net \<Rightarrow> int \<times> char list option \<times> net" where
  \<open>psnet_request_ping ev rv0 w = psnet_request ev rv0 (''{"method":"ping"}'' @ DELIM) w\<close>

section \<open>Datagrams\<close>

definition connect_msg :: "string \<Rightarrow> u16 \<Rightarrow> string" where
  \<open>connect_msg method port = ''{"method":"'' @ method @ ''","port":'' @ dec (unat port) @ ''}''\<close>

definition psnet_send_connect :: "sockaddr_storage \<Rightarrow> u16 \<Rightarrow> net \<Rightarrow> (int \<times> net) option" where
  "psnet_send_connect ent port w = udp_sendf ent (32 + 5) (connect_msg ''connect'' port) w"

definition psnet_send_disconnect :: "sockaddr_storage \<Rightarrow> u16 \<Rightarrow> net \<Rightarrow> (int \<times> net) option" where
  "psnet_send_disconnect ent port w = udp_sendf ent (35 + 5) (connect_msg ''disconnect'' port) w"

section \<open>Responses\<close>

fun psnet_send_response :: "response_node list \<Rightarrow> net \<Rightarrow> (int \<times> net) option" where
  "psnet_send_response [] w = Some (0, w)"
| "psnet_send_response (node # head) w = do {
     (rv, w) \<leftarrow> tcp_send_bytes (rn_data node) (rn_len node) w;
     if rv < 0 then Some (rv, w) else psnet_send_response head w
   }"

definition PSNET_ERRSTRLEN :: nat where "PSNET_ERRSTRLEN = 100"

definition psnet_send_error :: "nat \<Rightarrow> string \<Rightarrow> net \<Rightarrow> net option" where
  \<open>psnet_send_error no str w = do {
     (len, s) \<leftarrow> c_sprintf (42 + 3 + PSNET_ERRSTRLEN)
       (''{"status":"error","code":'' @ dec no @ '',"reason":"'' @ str @ ''"}'' @ DELIM);
     (rv, w) \<leftarrow> tcp_send_bytes s len w;
     Some w
   }\<close>

definition psnet_send_ok :: "net \<Rightarrow> net option" where
  \<open>psnet_send_ok w = map_option snd (tcp_send_bytes (''{"status":"okay"}'' @ DELIM @ [NUL]) 21 w)\<close>

definition make_response_with_body :: "response_node list \<Rightarrow> response_node list \<Rightarrow> response_node list" where
  \<open>make_response_with_body head body =
     (let len = sum_list (map rn_len body);
          (hlen, data) = c_snprintf 100 (''{"status":"okay","size":'' @ dec len @ ''}'' @ DELIM)
      in head @ [\<lparr>rn_data = data, rn_len = hlen\<rparr>] @ body)\<close>

text \<open>\<open>psnet_new\<close>; \<open>getaddrinfo\<close> of the C library is a parameter.\<close>

definition psnet_new :: "(string \<Rightarrow> string \<Rightarrow> sockaddr_storage option) \<Rightarrow> string \<Rightarrow> string \<Rightarrow> sockaddr_storage option" where
  "psnet_new getaddrinfo host port = getaddrinfo host port"

section \<open>Lemmas\<close>

lemma psnet_send_response_good:
  assumes "\<forall>n \<in> set head. rn_len n \<le> length (rn_data n)"
  shows "good_link (length (response_bytes head) + k) w \<Longrightarrow>
    \<exists>evs. psnet_send_response head w = Some (0, w\<lparr>send_script := evs, tcp_out := tcp_out w @ response_bytes head\<rparr>) \<and>
      good_link k (w\<lparr>send_script := evs, tcp_out := tcp_out w @ response_bytes head\<rparr>)"
  using assms
proof (induction head arbitrary: w)
  case Nil
  then show ?case by (intro exI [of _ "send_script w"]) (simp add: response_bytes_def)
next
  case (Cons n head)
  have rb: "response_bytes (n # head) = take (rn_len n) (rn_data n) @ response_bytes head"
    and len: "rn_len n \<le> length (rn_data n)" using Cons.prems(2) by (simp_all add: response_bytes_def)
  then have "good_link (rn_len n + (length (response_bytes head) + k)) w" using Cons.prems(1) by (simp add: add.assoc)
  then obtain evs where s1: "tcp_send_bytes (rn_data n) (rn_len n) w =
      Some (int (rn_len n), w\<lparr>send_script := evs, tcp_out := tcp_out w @ take (rn_len n) (rn_data n)\<rparr>)"
    and g1: "good_link (length (response_bytes head) + k)
      (w\<lparr>send_script := evs, tcp_out := tcp_out w @ take (rn_len n) (rn_data n)\<rparr>)"
    using tcp_send_bytes_good [OF _ len] by blast
  show ?case using Cons.IH [OF g1] Cons.prems(2) s1 rb by simp
qed

lemma response_bytes_length: "nodes_ok head \<Longrightarrow> length (response_bytes head) = sum_list (map rn_len head)"
  by (induction head) (auto simp: nodes_ok_def response_bytes_def)

lemma make_response_bytes:
  assumes body: "nodes_ok body" and len: "length (response_bytes body) < 2 ^ 64"
  shows "nodes_ok (make_response_with_body [] body)"
    and "response_bytes (make_response_with_body [] body) =
      render (header_doc (length (response_bytes body))) @ DELIM @ response_bytes body"
proof -
  let ?n = "length (response_bytes body)" let ?h = "render (header_doc ?n) @ DELIM"
  have "?n < 10 ^ 20" using len by (rule less_le_trans) simp
  from dec_length_le [OF this] have "length (dec ?n) \<le> 20" by simp
  then have "length ?h < 99" by (simp add: header_doc_text)
  then have hd: "c_snprintf 100 ?h = (length ?h, ?h @ [NUL])" by (simp add: c_snprintf_def)
  have "make_response_with_body [] body = \<lparr>rn_data = ?h @ [NUL], rn_len = length ?h\<rparr> # body"
    unfolding make_response_with_body_def Let_def response_bytes_length [OF body, symmetric]
    using hd by (simp add: header_doc_text)
  then show "nodes_ok (make_response_with_body [] body)"
    and "response_bytes (make_response_with_body [] body) = render (header_doc ?n) @ DELIM @ response_bytes body"
    using body by (simp_all add: nodes_ok_def response_bytes_def)
qed

lemma connect_msg_length: "length (connect_msg method port) \<le> length method + 26"
proof -
  have "length (dec (unat port)) \<le> 5" using unsigned_less [of port, where 'a = nat]
    by (intro dec_length_le) simp_all
  then show ?thesis by (simp add: connect_msg_def)
qed

lemma sends_datagram:
  assumes "udp_script w = UdpSent # evs"
  shows "psnet_send_connect ent port w = Some (int (length (connect_msg ''connect'' port)),
      w\<lparr>udp_script := evs, dgrams := dgrams w @ [(ent, connect_msg ''connect'' port)]\<rparr>)"
    and "psnet_send_disconnect ent port w = Some (int (length (connect_msg ''disconnect'' port)),
      w\<lparr>udp_script := evs, dgrams := dgrams w @ [(ent, connect_msg ''disconnect'' port)]\<rparr>)"
proof -
  have "udp_sendf ent n s w = Some (int (length s), w\<lparr>udp_script := evs, dgrams := dgrams w @ [(ent, s)]\<rparr>)"
    if "length s < n" for s n
    using assms that by (simp add: udp_sendf_def c_snprintf_def udp_send_def)
  note sends = this
  have "length (connect_msg ''connect'' port) < 32 + 5" "length (connect_msg ''disconnect'' port) < 35 + 5"
    using connect_msg_length [of "''connect''" port] connect_msg_length [of "''disconnect''" port] by simp_all
  then show "psnet_send_connect ent port w = Some (int (length (connect_msg ''connect'' port)),
      w\<lparr>udp_script := evs, dgrams := dgrams w @ [(ent, connect_msg ''connect'' port)]\<rparr>)"
    "psnet_send_disconnect ent port w = Some (int (length (connect_msg ''disconnect'' port)),
      w\<lparr>udp_script := evs, dgrams := dgrams w @ [(ent, connect_msg ''disconnect'' port)]\<rparr>)"
    unfolding psnet_send_connect_def psnet_send_disconnect_def by (simp_all add: sends)
qed

text \<open>Because of the unconditional jump, \<open>psnet_request\<close> never sends the request nor stores a
  response; after a successful \<open>connect\<close> it returns an indeterminate value. When that value
  is not negative, \<open>psnet_request_discover\<close> parses through an uninitialised pointer.\<close>

lemma psnet_request_never_sends:
  "snd (psnet_request ev rv0 msg w) = (None, w) \<and> fst (psnet_request ConnOk rv0 msg w) = rv0 \<and>
   psnet_request_discover pton tok ConnOk (int k) head num port w = None"
  by (cases ev) (simp_all add: psnet_request_def psnet_request_discover_def psnet_raw_request_discover_def
      psnet_requestf_def split: prod.splits)

section \<open>Properties\<close>

text \<open>C23. A response is framed correctly: for every list of body nodes, on a link that accepts the whole response, sending the response
  that \<open>make_response_with_body\<close> builds puts on the connection a header, whose size field is the
  exact length of the body in bytes, the delimiter and the body. The same header, ended by its delimiter and a NUL, is read back by
  \<open>parse_header\<close> as status okay and that length if the body has fewer than ten thousand bytes; with more digits, \<open>parse_header\<close>
  overflows its copy of the number (C22).\<close>

theorem response_framed:
  assumes "nodes_ok body" and "length (response_bytes body) < 2 ^ 64"
    and "good_link (length (response_bytes (make_response_with_body [] body))) w"
  shows "(\<exists>w'. psnet_send_response (make_response_with_body [] body) w = Some (0, w') \<and>
      tcp_out w' = tcp_out w @ render (header_doc (length (response_bytes body))) @ DELIM @ response_bytes body) \<and>
    (\<forall>tok junk. 256 \<le> length tok \<and> length (response_bytes body) < 10000 \<longrightarrow>
      parse_header tok (render (header_doc (length (response_bytes body))) @ DELIM @ NUL # junk) =
        Some (Some (PSNET_OKAY, of_nat (length (response_bytes body)))))"
  using psnet_send_response_good [of "make_response_with_body [] body" 0 w] make_response_bytes [OF assms(1,2)] assms(3)
    parse_header_small [of _ "length (response_bytes body)"]
  by (auto simp: nodes_ok_def)

lemma response_framed_witness:
  \<open>(\<exists>w'. psnet_send_response (make_response_with_body [] [node_of ''[]'']) (net_of (replicate 99 (SendN 3)) []) = Some (0, w') \<and>
      tcp_out w' = ''{"status":"okay","size":2}'' @ DELIM @ ''[]'') \<and>
    parse_header (replicate 256 (mk_tok JSMN_STRING 0 0 0)) (''{"status":"okay","size":2}'' @ DELIM @ [NUL]) = Some (Some (PSNET_OKAY, 2))\<close>
proof -
  have b: "nodes_ok [node_of ''[]'']" "response_bytes [node_of ''[]''] = ''[]''"
    by (simp_all add: nodes_ok_def node_of_def response_bytes_def)
  have l: "length (response_bytes (make_response_with_body [] [node_of ''[]''])) = 32"
    using make_response_bytes(2) [OF b(1)] b(2) by (simp add: header_doc_text dec.simps)
  have g: "good_link 32 (net_of (replicate 99 (SendN 3)) [])"
    by (simp add: good_link_def net_of_def list_all_length)
  have d: "render (header_doc 2) = ''{\"status\":\"okay\",\"size\":2}''" by (simp add: header_doc_text dec.simps digit_chars)
  note R = response_framed [OF b(1), of "net_of (replicate 99 (SendN 3)) []", unfolded l b(2)]
  have "parse_header (replicate 256 (mk_tok JSMN_STRING 0 0 0)) (render (header_doc 2) @ DELIM @ [NUL]) = Some (Some (PSNET_OKAY, 2))"
    using R g by (simp add: numeral_2_eq_2 [symmetric])
  then show ?thesis using R g unfolding d [symmetric] by (simp add: net_of_def numeral_2_eq_2 [symmetric])
qed

text \<open>C25. The keep-alive datagrams fit their buffers for every port: \<open>psnet_send_connect\<close> and
  \<open>psnet_send_disconnect\<close> send the whole text and return its length.\<close>

theorem keepalive_datagrams:
  assumes "udp_script w = UdpSent # evs"
  shows "psnet_send_connect ent port w = Some (int (length (connect_msg ''connect'' port)),
      w\<lparr>udp_script := evs, dgrams := dgrams w @ [(ent, connect_msg ''connect'' port)]\<rparr>) \<and>
    psnet_send_disconnect ent port w = Some (int (length (connect_msg ''disconnect'' port)),
      w\<lparr>udp_script := evs, dgrams := dgrams w @ [(ent, connect_msg ''disconnect'' port)]\<rparr>)"
  using sends_datagram [OF assms] by blast

lemma keepalive_datagrams_witness:
  \<open>\<exists>w'. psnet_send_connect (sa4 7 6666) 5555
      \<lparr>send_script = [], recv_script = [], udp_script = [UdpSent], tcp_out = [], dgrams = []\<rparr> = Some (32, w') \<and>
    dgrams w' = [(sa4 7 6666, ''{"method":"connect","port":5555}'')]\<close>
  using keepalive_datagrams [of "\<lparr>send_script = [], recv_script = [], udp_script = [UdpSent], tcp_out = [], dgrams = []\<rparr>"
    "[]" "sa4 7 6666" 5555]
  by (simp add: connect_msg_def dec.simps digit_chars)

end
