(* ===== verification/Service_Base.thy ===== *)
theory Service_Base
  imports Protocol
begin

text \<open>
  What the two services, \<^verbatim>\<open>src/tracker/service.c\<close> and
  \<^verbatim>\<open>src/router/service.c\<close>, have in common: the macros for headers and for the
  comparison of method names, the variables of a connection, and the requests as documents.
\<close>

section \<open>Model\<close>

definition HDR_OK_STRLEN :: nat where "HDR_OK_STRLEN = 29 + 5"

definition hdr_ok_fmt :: "int \<Rightarrow> string" where
  \<open>hdr_ok_fmt n = ''{"status":"okay","size":'' @ dec_int n @ ''}'' @ DELIM\<close>

text \<open>Sends a formatted header and a response; both are buffers filled by \<open>sprintf\<close>.\<close>

definition send_two :: "nat \<times> char list \<Rightarrow> nat \<times> char list \<Rightarrow> net \<Rightarrow> net option" where
  "send_two hdr rsp w = do {
     (_, w) \<leftarrow> tcp_send_bytes (snd hdr) (fst hdr) w;
     (_, w) \<leftarrow> tcp_send_bytes (snd rsp) (fst rsp) w;
     Some w
   }"

text \<open>\<open>mi->msg[tok.end] = 0\<close>.\<close>

definition put_nul :: "jsmntok_t \<Rightarrow> msg_info \<Rightarrow> msg_info option" where
  "put_nul t mi = do {
     buf \<leftarrow> (if tok_end t < 0 then None else wr (mi_msg mi) (nat (tok_end t)) NUL);
     Some (mi\<lparr>mi_msg := buf\<rparr>)
   }"

definition JSMN_NTOK :: nat where "JSMN_NTOK = 256"

text \<open>\<open>cmd_equal (cmd)\<close>.\<close>

definition cmd_equal :: "msg_info \<Rightarrow> jsmntok_t list \<Rightarrow> int \<Rightarrow> string \<Rightarrow> bool option" where
  "cmd_equal mi tok method cmd = do { t \<leftarrow> rd_tok tok (nat method); jsmn_tokeq (mi_msg mi) t cmd }"

text \<open>The variables of a connection: the message, the token array, \<open>ntok\<close> and the socket.\<close>

record conn =
  c_mi :: msg_info
  c_tok :: "jsmntok_t list"
  c_ntok :: nat
  c_net :: net

text \<open>The end of the callback for a datagram: \<open>free (mi)\<close>, and with \<open>PSNETLOG\<close>, which the makefile defines, a line
  for which \<open>mi->paddr\<close> is read. \<open>None\<close> stands for memory that has been freed.\<close>

definition free_message :: "msg_info option \<Rightarrow> msg_info option option" where
  "free_message mi = (case mi of None \<Rightarrow> None | Some _ \<Rightarrow> Some None)"

definition message_end :: "bool \<Rightarrow> msg_info option \<Rightarrow> msg_info option option" where
  "message_end psnetlog mi = do {
     mi \<leftarrow> free_message mi;
     if psnetlog then do { _ \<leftarrow> mi; Some mi } else Some mi
   }"

lemma message_end_simps [simp]: "message_end False (Some mi) = Some None" "message_end True (Some mi) = None"
  by (simp_all add: message_end_def free_message_def)

section \<open>Requests\<close>

text \<open>The documents of requests; \<open>sep\<close> is the separator before the last member, which the
  handlers overwrite.\<close>

definition port_req :: "string \<Rightarrow> nat \<Rightarrow> kids" where
  "port_req m p = KCons [] (JStr ''method'') (KCons '':'' (JStr m)
     (KCons '','' (JStr ''port'') (KCons '':'' (JPrim (dec p)) (KNil []))))"

definition num_req :: "string \<Rightarrow> char \<Rightarrow> nat \<Rightarrow> nat \<Rightarrow> kids" where
  "num_req m sep n p = KCons [] (JStr ''method'') (KCons '':'' (JStr m)
     (KCons '','' (JStr ''num'') (KCons '':'' (JPrim (dec n))
     (KCons [sep] (JStr ''port'') (KCons '':'' (JPrim (dec p)) (KNil []))))))"

lemma connect_msg_doc: "connect_msg m port = render (JCont True (port_req m (unat port)))"
  by (simp add: connect_msg_def port_req_def)

lemma discover_msg_doc: "discover_msg (int n) (int p) = render (JCont True (num_req ''discover'' (CHR '','') n p)) @ DELIM"
  by (simp add: discover_msg_def num_req_def dec_int_def)

lemma port_req_tokens:
  "toks_of 0 (JCont True (port_req m p)) =
    [mk_tok JSMN_OBJECT 0 (21 + length m + length (dec p)) 4, mk_tok JSMN_STRING 2 8 0,
     mk_tok JSMN_STRING 11 (11 + length m) 0, mk_tok JSMN_STRING (14 + length m) (18 + length m) 0,
     mk_tok JSMN_PRIMITIVE (20 + length m) (20 + length m + length (dec p)) 0]"
  by (simp add: port_req_def mk_tok_def)

lemma num_req_tokens:
  "toks_of 0 (JCont True (num_req m sep n p)) =
    [mk_tok JSMN_OBJECT 0 (28 + length m + length (dec n) + length (dec p)) 6, mk_tok JSMN_STRING 2 8 0,
     mk_tok JSMN_STRING 11 (11 + length m) 0, mk_tok JSMN_STRING (14 + length m) (17 + length m) 0,
     mk_tok JSMN_PRIMITIVE (19 + length m) (19 + length m + length (dec n)) 0,
     mk_tok JSMN_STRING (21 + length m + length (dec n)) (25 + length m + length (dec n)) 0,
     mk_tok JSMN_PRIMITIVE (27 + length m + length (dec n)) (27 + length m + length (dec n) + length (dec p)) 0]"
  by (simp add: num_req_def mk_tok_def)

lemma req_ok: "str_ok m \<Longrightarrow> kids_ok (port_req m p)" "str_ok m \<Longrightarrow> kids_ok (num_req m (CHR '','') n p)"
  using dec_prim by (simp_all add: port_req_def num_req_def sep_char_def)

lemma cmd_equal_req:
  assumes "mi_msg mi = ''{\"method\":\"'' @ m @ post"
    and "rd_tok tok 2 = Some (mk_tok JSMN_STRING 11 (11 + length m) 0)"
  shows "cmd_equal mi tok 2 cmd = Some (m = cmd)"
  using assms(2) jsmn_tokeq_range [OF assms(1), of "mk_tok JSMN_STRING 11 (11 + length m) 0" cmd]
  by (simp add: cmd_equal_def mk_tok_def)

text \<open>Terminating a number in place.\<close>

lemma put_nul_number:
  assumes "mi_msg mi = pre @ s @ c # post" and "tok_start t = int (length pre)" and "tok_end t = int (length pre + length s)"
  shows "put_nul t mi = Some (mi\<lparr>mi_msg := pre @ s @ NUL # post\<rparr>)"
    and "ptr_at (pre @ s @ NUL # post) (tok_start t) = Some (s @ NUL # post)"
proof -
  have "nat (tok_end t) = length pre + length s" "\<not> tok_end t < 0" using assms(3) by simp_all
  then show "put_nul t mi = Some (mi\<lparr>mi_msg := pre @ s @ NUL # post\<rparr>)"
    using assms(1) by (simp add: put_nul_def wr_def list_update_append)
  show "ptr_at (pre @ s @ NUL # post) (tok_start t) = Some (s @ NUL # post)"
    using assms(2) by (simp add: ptr_at_def)
qed

section \<open>Requests with a port\<close>

lemma port_req_parse:
  assumes "mi_msg mi = connect_msg m port @ NUL # junk" and "str_ok m" and "256 \<le> length tok"
  defines "toks \<equiv> toks_of 0 (JCont True (port_req m (unat port))) @ drop 5 tok"
  shows "parse_message (mi_msg mi) tok JSMN_NTOK = Some (2, toks, 5)"
    and "cmd_equal mi toks 2 cmd = Some (m = cmd)"
    and "jsmn_get_value (mi_msg mi) toks ''port'' = Some 4"
    and "rd_tok toks 4 = Some (mk_tok JSMN_PRIMITIVE (20 + length m) (20 + length m + length (dec (unat port))) 0)"
proof -
  let ?ks = "port_req m (unat port)"
  have msg: "mi_msg mi = render (JCont True ?ks) @ NUL # junk" using assms(1) by (simp add: connect_msg_doc)
  have look: "obj_lookup ''method'' 1 ?ks = 2" "obj_lookup ''port'' 1 ?ks = 4" by (simp_all add: port_req_def)
  have len: "length (toks_of 0 (JCont True ?ks)) = 5" by (simp add: port_req_tokens del: toks_of.simps)
  show "parse_message (mi_msg mi) tok JSMN_NTOK = Some (2, toks, 5)"
    using parse_message_doc [OF req_ok(1) [OF assms(2), of "unat port"], of "[]" JSMN_NTOK tok junk] msg look(1) assms(3)
    unfolding toks_def JSMN_NTOK_def by (simp add: len del: toks_of.simps render.simps)
  have "mi_msg mi = ''{\"method\":\"'' @ m @ ''\",\"port\":'' @ dec (unat port) @ CHR ''}'' # NUL # junk"
    using assms(1) by (simp add: connect_msg_def)
  then show "cmd_equal mi toks 2 cmd = Some (m = cmd)"
    by (rule cmd_equal_req) (simp add: toks_def port_req_tokens rd_tok_def del: toks_of.simps)
  show "jsmn_get_value (mi_msg mi) toks ''port'' = Some 4"
    using jsmn_get_value_doc [of "mi_msg mi" "[]" True ?ks "NUL # junk" toks "drop 5 tok" "''port''"] msg look(2)
    by (simp add: toks_def)
  show "rd_tok toks 4 = Some (mk_tok JSMN_PRIMITIVE (20 + length m) (20 + length m + length (dec (unat port))) 0)"
    by (simp add: toks_def port_req_tokens rd_tok_def del: toks_of.simps)
qed

lemma port_req_number:
  assumes "mi_msg mi = connect_msg m port @ NUL # junk"
  defines "t \<equiv> mk_tok JSMN_PRIMITIVE (20 + length m) (20 + length m + length (dec (unat port))) 0"
  shows "\<exists>mi' junk'. put_nul t mi = Some mi' \<and> mi_addr mi' = mi_addr mi \<and>
    ptr_at (mi_msg mi') (tok_start t) = Some (dec (unat port) @ NUL # junk')"
proof -
  have msg: "mi_msg mi = (''{\"method\":\"'' @ m @ ''\",\"port\":'') @ dec (unat port) @ CHR ''}'' # NUL # junk"
    using assms(1) by (simp add: connect_msg_def)
  show ?thesis using put_nul_number [OF msg, of t] by (simp add: t_def mk_tok_def)
qed

section \<open>Requests with a number and a port\<close>

lemma num_req_parse:
  assumes "mi_msg mi = render (JCont True (num_req m (CHR '','') n p)) @ DELIM @ NUL # junk" and "str_ok m"
    and "7 \<le> ntok" and "ntok \<le> length tok"
  defines "toks \<equiv> toks_of 0 (JCont True (num_req m (CHR '','') n p)) @ drop 7 tok"
  shows "parse_message (mi_msg mi) tok ntok = Some (2, toks, 7)"
    and "cmd_equal mi toks 2 cmd = Some (m = cmd)"
    and "jsmn_get_value (mi_msg mi) toks ''num'' = Some 4"
proof -
  let ?ks = "num_req m (CHR '','') n p"
  have look: "obj_lookup ''method'' 1 ?ks = 2" "obj_lookup ''num'' 1 ?ks = 4" by (simp_all add: num_req_def)
  have len: "length (toks_of 0 (JCont True ?ks)) = 7" by (simp add: num_req_tokens del: toks_of.simps)
  show "parse_message (mi_msg mi) tok ntok = Some (2, toks, 7)"
    using parse_message_doc [OF req_ok(2) [OF assms(2), of n p] seps_DELIM, of ntok tok junk] assms(1) look(1) assms(3,4)
    unfolding toks_def by (simp add: len del: toks_of.simps render.simps)
  have "mi_msg mi = ''{\"method\":\"'' @ m @ ''\",\"num\":'' @ dec n @ '',\"port\":'' @ dec p @ CHR ''}'' # DELIM @ NUL # junk"
    using assms(1) by (simp add: num_req_def)
  then show "cmd_equal mi toks 2 cmd = Some (m = cmd)"
    by (rule cmd_equal_req) (simp add: toks_def num_req_tokens rd_tok_def del: toks_of.simps)
  show "jsmn_get_value (mi_msg mi) toks ''num'' = Some 4"
    using jsmn_get_value_doc [of "mi_msg mi" "[]" True ?ks "DELIM @ NUL # junk" toks "drop 7 tok" "''num''"] assms(1) look(2)
    by (simp add: toks_def)
qed

text \<open>What \<open>process_discover\<close> reads while it overwrites the ends of the two numbers.\<close>

lemma num_req_numbers:
  fixes rest :: "jsmntok_t list"
  assumes "mi_msg mi = render (JCont True (num_req m (CHR '','') n p)) @ DELIM @ NUL # junk"
  defines "toks \<equiv> toks_of 0 (JCont True (num_req m (CHR '','') n p)) @ rest"
  shows "\<exists>tn tp mi1 mi2 junk1 junk2. rd_tok toks 4 = Some tn \<and> put_nul tn mi = Some mi1 \<and>
    jsmn_get_value (mi_msg mi1) toks ''port'' = Some 6 \<and> rd_tok toks 6 = Some tp \<and> put_nul tp mi1 = Some mi2 \<and>
    ptr_at (mi_msg mi2) (tok_start tp) = Some (dec p @ NUL # junk1) \<and>
    ptr_at (mi_msg mi2) (tok_start tn) = Some (dec n @ NUL # junk2) \<and> mi_addr mi2 = mi_addr mi"
proof -
  let ?tn = "mk_tok JSMN_PRIMITIVE (19 + length m) (19 + length m + length (dec n)) 0"
  let ?tp = "mk_tok JSMN_PRIMITIVE (27 + length m + length (dec n)) (27 + length m + length (dec n) + length (dec p)) 0"
  let ?pre = "''{\"method\":\"'' @ m @ ''\",\"num\":''" and ?mid = "''\"port\":''"
  have rd: "rd_tok toks 4 = Some ?tn" "rd_tok toks 6 = Some ?tp"
    by (simp_all add: toks_def num_req_tokens rd_tok_def del: toks_of.simps)
  have msg: "mi_msg mi = ?pre @ dec n @ CHR '','' # ?mid @ dec p @ CHR ''}'' # DELIM @ NUL # junk"
    using assms(1) by (simp add: num_req_def)
  let ?mi1 = "mi\<lparr>mi_msg := ?pre @ dec n @ NUL # ?mid @ dec p @ CHR ''}'' # DELIM @ NUL # junk\<rparr>"
  have m1: "put_nul ?tn mi = Some ?mi1" using put_nul_number(1) [OF msg, of ?tn] by (simp add: mk_tok_def)
  have d1: "mi_msg ?mi1 = render (JCont True (num_req m NUL n p)) @ DELIM @ NUL # junk" by (simp add: num_req_def)
  have t1: "toks = toks_of 0 (JCont True (num_req m NUL n p)) @ rest"
    unfolding toks_def num_req_tokens by simp
  have g: "jsmn_get_value (mi_msg ?mi1) toks ''port'' = Some 6"
    using jsmn_get_value_doc [of "mi_msg ?mi1" "[]" True "num_req m NUL n p" "DELIM @ NUL # junk" toks rest "''port''"] d1 t1
    by (simp add: num_req_def)
  have msg1: "mi_msg ?mi1 = (?pre @ dec n @ NUL # ?mid) @ dec p @ CHR ''}'' # DELIM @ NUL # junk" by simp
  let ?mi2 = "?mi1\<lparr>mi_msg := (?pre @ dec n @ NUL # ?mid) @ dec p @ NUL # DELIM @ NUL # junk\<rparr>"
  have m2: "put_nul ?tp ?mi1 = Some ?mi2"
    "ptr_at (mi_msg ?mi2) (tok_start ?tp) = Some (dec p @ NUL # DELIM @ NUL # junk)"
    using put_nul_number [OF msg1, of ?tp] by (simp_all add: mk_tok_def)
  have "ptr_at (mi_msg ?mi2) (tok_start ?tn) = Some (dec n @ NUL # ?mid @ dec p @ NUL # DELIM @ NUL # junk)"
    using put_nul_number(2) [of "mi\<lparr>mi_msg := ?pre @ dec n @ CHR '','' # ?mid @ dec p @ NUL # DELIM @ NUL # junk\<rparr>"
      ?pre "dec n" "CHR '',''" "?mid @ dec p @ NUL # DELIM @ NUL # junk" ?tn] by (simp add: mk_tok_def)
  then show ?thesis using rd m1 g m2 by (intro exI conjI) (assumption | simp)+
qed

lemma c_atoi_dec: "n < 2 ^ 31 \<Longrightarrow> c_atoi (dec n @ NUL # junk) = Some (int n)"
proof -
  assume n: "n < 2 ^ 31"
  then have "c_strtol (dec n @ NUL # junk) = Some (int n, NUL # junk)"
    by (intro c_strtol_dec) (simp_all add: LONG_MAX_def c_isdigit_def)
  then show ?thesis using n by (simp add: c_atoi_def int_of_long_def)
qed

text \<open>The bytes of a response with the given body.\<close>

definition framed :: "char list \<Rightarrow> char list" where
  "framed body = render (header_doc (length body)) @ DELIM @ body"

lemma send_body:
  assumes "nodes_ok body" and "length (response_bytes body) < 2 ^ 64" and "good_link (length (framed (response_bytes body))) w"
  obtains evs where "psnet_send_response (make_response_with_body [] body) w =
    Some (0, w\<lparr>send_script := evs, tcp_out := tcp_out w @ framed (response_bytes body)\<rparr>)"
  using psnet_send_response_good [of "make_response_with_body [] body" 0 w] make_response_bytes [OF assms(1,2)] assms(3)
  by (auto simp: nodes_ok_def framed_def)

lemma digits_no_CR: "CR \<notin> set (dec n)"
  using dec_digits [of n] by (auto simp: c_isdigit_def)


end
