(* ===== verification/Tracker_Service.thy ===== *)
theory Tracker_Service
  imports Service_Base
begin

text \<open>
  The tracker, \<^verbatim>\<open>src/tracker/service.c\<close>: it keeps the routers that report to it (in the
  table of clients) and lists them to whoever asks. A handler takes the message, its tokens and
  the state it changes: the buffer of the message, the table and the connection. The body of
  the loop of \<open>handle_connection\<close> is \<open>conn_step\<close>; the result of a run is the table, the
  connection and the number of threads. The log output (\<open>PSNETLOG\<close>) is left out.
\<close>

section \<open>Errors\<close>

datatype dir_errno = ENOMETHOD | ENONUM | ENOPORT | EBADMETHOD | EBADNUM | EBADPORT

fun dir_code :: "dir_errno \<Rightarrow> nat" where
  "dir_code ENOMETHOD = 0"
| "dir_code ENONUM = 1"
| "dir_code ENOPORT = 2"
| "dir_code EBADMETHOD = 3"
| "dir_code EBADNUM = 4"
| "dir_code EBADPORT = 5"

fun psdir_strerror :: "dir_errno \<Rightarrow> string" where
  "psdir_strerror ENOMETHOD = ''no method given''"
| "psdir_strerror ENONUM = ''missing argument '' @ [CHR 0x27] @ ''num'' @ [CHR 0x27]"
| "psdir_strerror ENOPORT = ''missing argument '' @ [CHR 0x27] @ ''port'' @ [CHR 0x27]"
| "psdir_strerror EBADMETHOD = ''unrecognized method''"
| "psdir_strerror EBADNUM = ''invalid argument '' @ [CHR 0x27] @ ''num'' @ [CHR 0x27]"
| "psdir_strerror EBADPORT = ''invalid argument '' @ [CHR 0x27] @ ''port'' @ [CHR 0x27]"

definition dir_error :: "dir_errno \<Rightarrow> net \<Rightarrow> net option" where
  "dir_error no w = psnet_send_error (dir_code no) (psdir_strerror no) w"

section \<open>Methods\<close>

definition process_info :: "client_tbl \<Rightarrow> net \<Rightarrow> net option" where
  \<open>process_info T w = do {
     rsp \<leftarrow> c_sprintf (47 + 10)
       (''{"name":"generic psnet tracker","routers":'' @ dec_int (sint (client_list_size T)) @ ''}'' @ DELIM);
     hdr \<leftarrow> c_sprintf HDR_OK_STRLEN (hdr_ok_fmt (int (fst rsp)));
     send_two hdr rsp w
   }\<close>

definition process_connect :: "msg_info \<Rightarrow> jsmntok_t list \<Rightarrow> client_tbl \<Rightarrow> (msg_info \<times> client_tbl) option" where
  "process_connect mi tok T = do {
     port \<leftarrow> jsmn_get_value (mi_msg mi) tok ''port'';
     if port = -1 then Some (mi, T)
     else do {
       t \<leftarrow> rd_tok tok (nat port);
       mi \<leftarrow> put_nul t mi;
       p \<leftarrow> ptr_at (mi_msg mi) (tok_start t);
       (rc, T) \<leftarrow> add_client (mi_addr mi) p T;
       Some (mi, T)
     }
   }"

definition process_disconnect :: "msg_info \<Rightarrow> jsmntok_t list \<Rightarrow> client_tbl \<Rightarrow> (msg_info \<times> client_tbl) option" where
  "process_disconnect mi tok T = do {
     port \<leftarrow> jsmn_get_value (mi_msg mi) tok ''port'';
     if port = -1 then Some (mi, T)
     else do {
       t \<leftarrow> rd_tok tok (nat port);
       mi \<leftarrow> put_nul t mi;
       p \<leftarrow> ptr_at (mi_msg mi) (tok_start t);
       (rc, T) \<leftarrow> remove_client (mi_addr mi) p T;
       Some (mi, T)
     }
   }"

definition process_list ::
  "ntop \<Rightarrow> msg_info \<Rightarrow> jsmntok_t list \<Rightarrow> client_tbl \<Rightarrow> net \<Rightarrow> (msg_info \<times> net) option" where
  "process_list ntop mi tok T w = do {
     num \<leftarrow> jsmn_get_value (mi_msg mi) tok ''num'';
     if num = -1 then do { w \<leftarrow> dir_error ENONUM w; Some (mi, w) }
     else do {
       t \<leftarrow> rd_tok tok (nat num);
       mi \<leftarrow> put_nul t mi;
       p \<leftarrow> ptr_at (mi_msg mi) (tok_start t);
       (rc, jlist) \<leftarrow> clients_to_json ntop [] None p T;
       if rc \<noteq> CL_OK then do { w \<leftarrow> dir_error EBADNUM w; Some (mi, w) }
       else do {
         (_, w) \<leftarrow> psnet_send_response (make_response_with_body [] jlist) w;
         Some (mi, w)
       }
     }
   }"

definition process_discover ::
  "ntop \<Rightarrow> msg_info \<Rightarrow> jsmntok_t list \<Rightarrow> client_tbl \<Rightarrow> net \<Rightarrow> (msg_info \<times> net) option" where
  "process_discover ntop mi tok T w = do {
     num \<leftarrow> jsmn_get_value (mi_msg mi) tok ''num'';
     if num = -1 then do { w \<leftarrow> dir_error ENONUM w; Some (mi, w) }
     else do {
       tn \<leftarrow> rd_tok tok (nat num);
       mi \<leftarrow> put_nul tn mi;
       port \<leftarrow> jsmn_get_value (mi_msg mi) tok ''port'';
       if port = -1 then do { w \<leftarrow> dir_error ENOPORT w; Some (mi, w) }
       else do {
         tp \<leftarrow> rd_tok tok (nat port);
         mi \<leftarrow> put_nul tp mi;
         pp \<leftarrow> ptr_at (mi_msg mi) (tok_start tp);
         iport \<leftarrow> c_atoi pp;
         if iport < PORT_MIN \<or> iport > PORT_MAX then do { w \<leftarrow> dir_error EBADPORT w; Some (mi, w) }
         else do {
           let mi = mi\<lparr>mi_addr := set_in_port (htons (word_of_int iport)) (mi_addr mi)\<rparr>;
           pn \<leftarrow> ptr_at (mi_msg mi) (tok_start tn);
           (rc, jlist) \<leftarrow> clients_to_json ntop [] (Some (mi_addr mi)) pn T;
           if rc \<noteq> CL_OK then do { w \<leftarrow> dir_error EBADNUM w; Some (mi, w) }
           else do {
             (_, w) \<leftarrow> psnet_send_response (make_response_with_body [] jlist) w;
             Some (mi, w)
           }
         }
       }
     }
   }"

section \<open>Dispatch\<close>

text \<open>One turn of the loop; the flag is \<open>False\<close> when the loop is left.\<close>

definition conn_step :: "ntop \<Rightarrow> client_tbl \<Rightarrow> conn \<Rightarrow> (bool \<times> conn) option" where
  "conn_step ntop T c = do {
     (rv, buf, w) \<leftarrow> tcp_read_msg (mi_msg (c_mi c)) MSG_MAX (c_net c);
     let mi = (c_mi c)\<lparr>mi_msg := buf\<rparr>;
     if rv \<le> 0 then Some (False, c\<lparr>c_mi := mi, c_net := w\<rparr>)
     else do {
       (method, tok, ntok) \<leftarrow> parse_message (mi_msg mi) (c_tok c) (c_ntok c);
       let c = c\<lparr>c_mi := mi, c_tok := tok, c_ntok := ntok, c_net := w\<rparr>;
       if method = -1 then do { w \<leftarrow> dir_error ENOMETHOD w; Some (False, c\<lparr>c_net := w\<rparr>) }
       else do {
         lst \<leftarrow> cmd_equal mi tok method ''list'';
         if lst then do { (mi, w) \<leftarrow> process_list ntop mi tok T w; Some (True, c\<lparr>c_mi := mi, c_net := w\<rparr>) }
         else do {
           dis \<leftarrow> cmd_equal mi tok method ''discover'';
           if dis then do { (mi, w) \<leftarrow> process_discover ntop mi tok T w; Some (True, c\<lparr>c_mi := mi, c_net := w\<rparr>) }
           else do {
             inf \<leftarrow> cmd_equal mi tok method ''info'';
             if inf then do { w \<leftarrow> process_info T w; Some (True, c\<lparr>c_net := w\<rparr>) }
             else do { w \<leftarrow> dir_error EBADMETHOD w; Some (False, c\<lparr>c_net := w\<rparr>) }
           }
         }
       }
     }
   }"

partial_function (option) conn_loop :: "ntop \<Rightarrow> client_tbl \<Rightarrow> conn \<Rightarrow> conn option" where
  "conn_loop ntop T c = do {
     (go, c) \<leftarrow> conn_step ntop T c;
     if go then conn_loop ntop T c else Some c
   }"

text \<open>The callback for a connection: the connection at the end, and the count of threads.\<close>

definition handle_connection ::
  "ntop \<Rightarrow> jsmntok_t list \<Rightarrow> msg_info \<Rightarrow> client_tbl \<Rightarrow> net \<Rightarrow> int \<Rightarrow> (net \<times> int) option" where
  "handle_connection ntop tok mi T w num_threads = do {
     c \<leftarrow> conn_loop ntop T \<lparr>c_mi = mi, c_tok = tok, c_ntok = JSMN_NTOK, c_net = w\<rparr>;
     Some (c_net c, num_threads - 1)
   }"

text \<open>The callback for a datagram: what it does up to the point where it frees its message, and the whole of it.\<close>

definition serve_message ::
  "jsmntok_t list \<Rightarrow> msg_info \<Rightarrow> client_tbl \<Rightarrow> int \<Rightarrow> (client_tbl \<times> int) option" where
  "serve_message tok mi T num_threads = do {
     (method, tok, ntok) \<leftarrow> parse_message (mi_msg mi) tok JSMN_NTOK;
     if method = -1 then Some (T, num_threads - 1)
     else do {
       con \<leftarrow> cmd_equal mi tok method ''connect'';
       if con then do { (_, T) \<leftarrow> process_connect mi tok T; Some (T, num_threads - 1) }
       else do {
         dis \<leftarrow> cmd_equal mi tok method ''disconnect'';
         if dis then do { (_, T) \<leftarrow> process_disconnect mi tok T; Some (T, num_threads - 1) }
         else Some (T, num_threads - 1)
       }
     }
   }"

definition handle_message ::
  "bool \<Rightarrow> jsmntok_t list \<Rightarrow> msg_info \<Rightarrow> client_tbl \<Rightarrow> int \<Rightarrow> (client_tbl \<times> int) option" where
  "handle_message psnetlog tok mi T num_threads = do {
     (T, num_threads) \<leftarrow> serve_message tok mi T num_threads;
     _ \<leftarrow> message_end psnetlog (Some mi);
     Some (T, num_threads)
   }"

section \<open>Settings\<close>

record settings =
  max_threads :: int
  listen_port :: string

definition default_settings :: settings where
  "default_settings = \<lparr>max_threads = 1000, listen_port = ''6666''\<rparr>"

text \<open>The callback of the configuration parser; the strings are C strings without their NUL.\<close>

definition ini_handler :: "string \<Rightarrow> string \<Rightarrow> string \<Rightarrow> settings \<Rightarrow> (int \<times> settings) option" where
  "ini_handler sect name val s =
     (if sect \<noteq> ''Tracker'' then Some (1, s)
      else if name = ''listen-port'' then do {
        v \<leftarrow> c_atoi (val @ [NUL]);
        Some (1, if v = 0 then s else s\<lparr>listen_port := val\<rparr>)
      }
      else if name = ''max-threads'' then do {
        v \<leftarrow> c_atoi (val @ [NUL]);
        Some (1, if v = 0 then s else s\<lparr>max_threads := v\<rparr>)
      }
      else Some (1, s))"

declare conn_loop.simps [code]

section \<open>Registration\<close>

lemma handle_connect:
  assumes msg: "mi_msg mi = connect_msg ''connect'' port @ NUL # junk" and tok: "256 \<le> length tok"
    and rep: "client_rep T es" and fam: "inet_family (mi_addr mi)"
    and ok: "\<not> hits_last delta_equals (set_in_port (htons port) (mi_addr mi)) es"
  shows "\<exists>T'. serve_message tok mi T n = Some (T', n - 1) \<and>
    client_rep T' (spec_update delta_equals 10 (set_in_port (htons port) (mi_addr mi)) es)"
proof -
  note P = port_req_parse [OF msg _ tok]
  obtain mi' junk' where mi': "put_nul (mk_tok JSMN_PRIMITIVE 27 (27 + length (dec (unat port))) 0) mi = Some mi'"
    "mi_addr mi' = mi_addr mi"
    "ptr_at (mi_msg mi') (tok_start (mk_tok JSMN_PRIMITIVE 27 (27 + length (dec (unat port))) 0)) =
      Some (dec (unat port) @ NUL # junk')" using port_req_number [OF msg] by auto
  have "unat port < 65536" using unsigned_less [of port, where 'a = nat] by simp
  then have "int (unat port) \<le> PORT_MAX" unfolding PORT_MAX_def by linarith
  then have mc: "make_client (mi_addr mi) (dec (unat port) @ NUL # junk') = Some (0, set_in_port (htons port) (mi_addr mi))"
    by (simp add: make_client_number)
  obtain T' where T': "delta_update (set_in_port (htons port) (mi_addr mi)) T =
      Some (if list_ex (\<lambda>e. delta_equals (fst e) (set_in_port (htons port) (mi_addr mi))) es then 1 else 0, T')"
    "client_rep T' (spec_update delta_equals 10 (set_in_port (htons port) (mi_addr mi)) es)"
    by (rule client_update [OF rep _ ok]) (use fam in simp_all)
  then show ?thesis using P mi' mc by (simp add: serve_message_def process_connect_def add_client_def)
qed

lemma handle_disconnect:
  assumes msg: "mi_msg mi = connect_msg ''disconnect'' port @ NUL # junk" and tok: "256 \<le> length tok"
    and rep: "client_rep T es"
    and ok: "\<not> hits_last delta_equals (set_in_port (htons port) (mi_addr mi)) es"
  shows "\<exists>T'. serve_message tok mi T n = Some (T', n - 1) \<and>
    client_rep T' (spec_remove delta_equals (set_in_port (htons port) (mi_addr mi)) es)"
proof -
  note P = port_req_parse [OF msg _ tok]
  let ?t = "mk_tok JSMN_PRIMITIVE 30 (30 + length (dec (unat port))) 0" and ?c = "set_in_port (htons port) (mi_addr mi)"
  obtain mi' junk' where mi': "put_nul ?t mi = Some mi'" "mi_addr mi' = mi_addr mi"
    "ptr_at (mi_msg mi') (tok_start ?t) = Some (dec (unat port) @ NUL # junk')" using port_req_number [OF msg] by auto
  have "unat port < 65536" using unsigned_less [of port, where 'a = nat] by simp
  then have "int (unat port) \<le> PORT_MAX" unfolding PORT_MAX_def by linarith
  then have mc: "make_client (mi_addr mi) (dec (unat port) @ NUL # junk') = Some (0, ?c)"
    by (simp add: make_client_number)
  obtain rc T' where T': "delta_remove ?c T = Some (rc, T')" "client_rep T' (spec_remove delta_equals ?c es)"
    by (rule client.delta_remove_total [OF rep ok]) auto
  then have "\<exists>rc'. remove_client (mi_addr mi) (dec (unat port) @ NUL # junk') T = Some (rc', T')"
    using mc by (auto simp: remove_client_def)
  then show ?thesis using P mi' T'(2) by (auto simp: serve_message_def process_disconnect_def)
qed

section \<open>Listing\<close>

lemma process_discover_body:
  assumes msg: "mi_msg mi = render (JCont True (num_req ''discover'' (CHR '','') n p)) @ DELIM @ NUL # junk"
    and tok: "toks = toks_of 0 (JCont True (num_req ''discover'' (CHR '','') n p)) @ rest"
    and num: "jsmn_get_value (mi_msg mi) toks ''num'' = Some 4"
    and rep: "client_rep T es" and ok: "inet_ok ntop pton" and n: "n < 2 ^ 31" and p: "p < 65536"
  defines "body \<equiv> render (list_doc (map (sa_doc ntop) (take n (filter
      (\<lambda>d. \<not> delta_equals d (set_in_port (htons (of_nat p)) (mi_addr mi))) (map fst es))))) @ DELIM"
  assumes len: "length body < 2 ^ 64" and link: "good_link (length (framed body)) w"
  shows "\<exists>mi' evs. process_discover ntop mi toks T w = Some (mi', w\<lparr>send_script := evs, tcp_out := tcp_out w @ framed body\<rparr>)"
proof -
  let ?me = "set_in_port (htons (of_nat p)) (mi_addr mi)"
  obtain tn tp mi1 mi2 junk1 junk2 where st: "rd_tok toks 4 = Some tn" "put_nul tn mi = Some mi1"
    "jsmn_get_value (mi_msg mi1) toks ''port'' = Some 6" "rd_tok toks 6 = Some tp" "put_nul tp mi1 = Some mi2"
    "ptr_at (mi_msg mi2) (tok_start tp) = Some (dec p @ NUL # junk1)"
    "ptr_at (mi_msg mi2) (tok_start tn) = Some (dec n @ NUL # junk2)" "mi_addr mi2 = mi_addr mi"
    using num_req_numbers [OF msg, of rest] tok by blast
  have port: "c_atoi (dec p @ NUL # junk1) = Some (int p)" using p by (intro c_atoi_dec) simp
  obtain jl where jl: "clients_to_json ntop [] (Some ?me) (dec n @ NUL # junk2) T = Some (CL_OK, jl)"
    "nodes_ok jl" "response_bytes jl = body"
    using clients_to_json_body [OF rep ok n, of "Some ?me" junk2] by (auto simp: body_def ignored_def)
  obtain evs where "psnet_send_response (make_response_with_body [] jl) w =
      Some (0, w\<lparr>send_script := evs, tcp_out := tcp_out w @ framed body\<rparr>)"
    using send_body [OF jl(2), of w] len link jl(3) by auto
  then show ?thesis using num st port jl(1) p
    by (simp add: process_discover_def PORT_MIN_def PORT_MAX_def Let_def) blast
qed

lemma discover_step:
  assumes rep: "client_rep T es" and ok: "inet_ok ntop pton" and n: "n < 2 ^ 31" and p: "p < 65536"
    and buf: "length (mi_msg (c_mi c)) = MSG_MAX" and tok: "7 \<le> c_ntok c" "c_ntok c \<le> length (c_tok c)"
    and rcv: "segments_ok (recv_script (c_net c))" "stream (recv_script (c_net c)) = discover_msg (int n) (int p) @ rest"
  defines "body \<equiv> render (list_doc (map (sa_doc ntop) (take n (filter
      (\<lambda>d. \<not> delta_equals d (set_in_port (htons (of_nat p)) (mi_addr (c_mi c)))) (map fst es))))) @ DELIM"
  assumes len: "length body < 2 ^ 64" and link: "good_link (length (framed body)) (c_net c)"
  shows "\<exists>c'. conn_step ntop T c = Some (True, c') \<and> tcp_out (c_net c') = tcp_out (c_net c) @ framed body \<and>
    stream (recv_script (c_net c')) = rest"
proof -
  let ?m = "render (JCont True (num_req ''discover'' (CHR '','') n p))"
  have "n < 10 ^ 10" using n by simp
  then have "length (dec n) \<le> 10" by (intro dec_length_le) simp_all
  moreover have "length (dec p) \<le> 5" using p by (intro dec_length_le) simp_all
  moreover have lm: "length ?m = 36 + length (dec n) + length (dec p)" by (simp add: num_req_def)
  ultimately have short: "length ?m + 4 < MSG_MAX" by (simp add: MSG_MAX_def)
  have cr: "CR \<notin> set ?m" using digits_no_CR by (simp add: num_req_def)
  obtain evs where rd: "tcp_read_msg (mi_msg (c_mi c)) MSG_MAX (c_net c) = Some (int (length ?m + 4),
      ?m @ DELIM @ NUL # drop (length ?m + 5) (mi_msg (c_mi c)), (c_net c)\<lparr>recv_script := evs\<rparr>)" "stream evs = rest"
    using tcp_read_msg_frame [OF cr short _ rcv(1), of "mi_msg (c_mi c)" rest] rcv(2) buf by (auto simp: discover_msg_doc)
  let ?mi = "(c_mi c)\<lparr>mi_msg := ?m @ DELIM @ NUL # drop (length ?m + 5) (mi_msg (c_mi c))\<rparr>"
  let ?toks = "toks_of 0 (JCont True (num_req ''discover'' (CHR '','') n p)) @ drop 7 (c_tok c)"
  have msg: "mi_msg ?mi = ?m @ DELIM @ NUL # drop (length ?m + 5) (mi_msg (c_mi c))" by simp
  note P = num_req_parse [OF msg _ tok]
  obtain mi' evs' where "process_discover ntop ?mi ?toks T ((c_net c)\<lparr>recv_script := evs\<rparr>) =
      Some (mi', (c_net c)\<lparr>recv_script := evs, send_script := evs', tcp_out := tcp_out (c_net c) @ framed body\<rparr>)"
    using process_discover_body [OF msg refl P(3) rep ok n p, of "(c_net c)\<lparr>recv_script := evs\<rparr>"] len link
    by (auto simp: body_def good_link_def)
  moreover have "\<not> int (length ?m + 4) \<le> 0" by simp
  ultimately show ?thesis using rd P(1,2) by (simp add: conn_step_def Let_def)
qed

lemma parse_message_short:
  assumes "kids_ok ks" and "ntok < length (toks_of 0 (JCont True ks))" and "ntok \<le> length tok"
  shows "\<exists>tok'. parse_message (render (JCont True ks) @ post) tok ntok = Some (-1, tok', ntok)"
proof -
  have "jval_ok (JCont True ks)" using assms(1) by simp
  then obtain p toks' where "jsmn_parse jsmn_init (render (JCont True ks) @ post) tok ntok = Some (JSMN_ERROR_NOMEM, p, toks')"
    using jsmn_parse_short [OF _ assms(2,3)] by blast
  then show ?thesis by (simp add: parse_message_def del: render.simps)
qed

text \<open>A request on a connection: the text of an object, the delimiter and more.\<close>

definition request_on :: "conn \<Rightarrow> kids \<Rightarrow> char list \<Rightarrow> bool" where
  "request_on c ks rest \<longleftrightarrow> kids_ok ks \<and> CR \<notin> set (render (JCont True ks)) \<and> length (render (JCont True ks)) + 4 < MSG_MAX \<and>
     length (mi_msg (c_mi c)) = MSG_MAX \<and> c_ntok c \<le> length (c_tok c) \<and> segments_ok (recv_script (c_net c)) \<and>
     stream (recv_script (c_net c)) = render (JCont True ks) @ DELIM @ rest"

definition no_method :: string where
  \<open>no_method = ''{"status":"error","code":0,"reason":"no method given"}'' @ DELIM\<close>

lemma request_read:
  assumes "request_on c ks rest"
  obtains evs where "tcp_read_msg (mi_msg (c_mi c)) MSG_MAX (c_net c) = Some (int (length (render (JCont True ks)) + 4),
    render (JCont True ks) @ DELIM @ NUL # drop (length (render (JCont True ks)) + 5) (mi_msg (c_mi c)), (c_net c)\<lparr>recv_script := evs\<rparr>)"
  using tcp_read_msg_frame [of "render (JCont True ks)" MSG_MAX "mi_msg (c_mi c)" "c_net c" rest] assms
  unfolding request_on_def by auto

lemma dir_error_no_method:
  assumes "good_link (length no_method) w"
  obtains evs where "dir_error ENOMETHOD w = Some (w\<lparr>send_script := evs, tcp_out := tcp_out w @ no_method\<rparr>)"
proof -
  have t: "''{\"status\":\"error\",\"code\":'' @ dec 0 @ '',\"reason\":\"'' @ ''no method given'' @ ''\"}'' @ DELIM = no_method"
    by (simp add: no_method_def dec.simps digit_chars)
  obtain evs where "tcp_send_bytes (no_method @ [NUL]) (length no_method) w =
      Some (int (length no_method), w\<lparr>send_script := evs, tcp_out := tcp_out w @ no_method\<rparr>)"
    using tcp_send_bytes_good [of "length no_method" 0 w "no_method @ [NUL]"] assms by auto
  moreover have "c_sprintf (42 + 3 + PSNET_ERRSTRLEN) no_method = Some (length no_method, no_method @ [NUL])"
    by (simp add: c_sprintf_def no_method_def PSNET_ERRSTRLEN_def)
  ultimately show thesis using that by (simp add: dir_error_def psnet_send_error_def t [simplified])
qed

lemma request_served:
  assumes "request_on c ks rest" and "length (toks_of 0 (JCont True ks)) \<le> c_ntok c" and "conn_step ntop T c = Some (True, c')"
  shows "c_ntok c' = length (toks_of 0 (JCont True ks))"
proof -
  let ?n = "length (toks_of 0 (JCont True ks))"
  obtain evs where rd: "tcp_read_msg (mi_msg (c_mi c)) MSG_MAX (c_net c) = Some (int (length (render (JCont True ks)) + 4),
      render (JCont True ks) @ DELIM @ NUL # drop (length (render (JCont True ks)) + 5) (mi_msg (c_mi c)), (c_net c)\<lparr>recv_script := evs\<rparr>)"
    using request_read [OF assms(1)] .
  have "parse_message (render (JCont True ks) @ DELIM @ NUL # drop (length (render (JCont True ks)) + 5) (mi_msg (c_mi c)))
      (c_tok c) (c_ntok c) = Some (obj_lookup ''method'' 1 ks, toks_of 0 (JCont True ks) @ drop ?n (c_tok c), ?n)"
    using assms(1,2) by (intro parse_message_doc seps_DELIM) (simp_all add: request_on_def)
  then show ?thesis using assms(3) rd
    by (auto simp: conn_step_def Let_def bind_eq_Some_iff simp del: render.simps toks_of.simps split: if_splits)
qed

lemma request_refused:
  assumes "request_on c ks rest" and "c_ntok c < length (toks_of 0 (JCont True ks))" and "good_link (length no_method) (c_net c)"
  shows "\<exists>c'. conn_step ntop T c = Some (False, c') \<and> tcp_out (c_net c') = tcp_out (c_net c) @ no_method"
proof -
  obtain evs where rd: "tcp_read_msg (mi_msg (c_mi c)) MSG_MAX (c_net c) = Some (int (length (render (JCont True ks)) + 4),
      render (JCont True ks) @ DELIM @ NUL # drop (length (render (JCont True ks)) + 5) (mi_msg (c_mi c)), (c_net c)\<lparr>recv_script := evs\<rparr>)"
    using request_read [OF assms(1)] .
  obtain tok' where "parse_message (render (JCont True ks) @ DELIM @ NUL # drop (length (render (JCont True ks)) + 5) (mi_msg (c_mi c)))
      (c_tok c) (c_ntok c) = Some (-1, tok', c_ntok c)"
    using parse_message_short [OF _ assms(2)] assms(1) unfolding request_on_def by blast
  moreover have "good_link (length no_method) ((c_net c)\<lparr>recv_script := evs\<rparr>)" using assms(3) by (simp add: good_link_def)
  then obtain evs' where "dir_error ENOMETHOD ((c_net c)\<lparr>recv_script := evs\<rparr>) =
      Some ((c_net c)\<lparr>recv_script := evs, send_script := evs', tcp_out := tcp_out (c_net c) @ no_method\<rparr>)"
    by (rule dir_error_no_method) simp
  ultimately show ?thesis using rd by (simp add: conn_step_def Let_def del: render.simps)
qed

section \<open>Properties\<close>

text \<open>C29. Registration end to end: the datagram that \<open>psnet_send_connect\<close> sends makes the tracker
  put the sender, with the port the datagram names, in its table with a full interval; the datagram of
  \<open>psnet_send_disconnect\<close> takes it out. All other routers keep the ticks they had. The table is intact and the sender, under that port, is
  not the last of several in it: if it is, the one datagram drops it from the delta list and the other leaves a dangling tail (C6).
  This is the callback up to freeing the message; what follows with PSNETLOG is in C39.\<close>

theorem tracker_registers:
  assumes "mi_msg mi = connect_msg method port @ NUL # junk" and "256 \<le> length tok"
    and "client_rep T es" and "inet_family (mi_addr mi)"
    and "\<not> hits_last delta_equals (set_in_port (htons port) (mi_addr mi)) es"
    and "method \<in> {''connect'', ''disconnect''}"
  shows "\<exists>T'. serve_message tok mi T n = Some (T', n - 1) \<and>
    client_rep T' (if method = ''connect'' then spec_update delta_equals 10 (set_in_port (htons port) (mi_addr mi)) es
      else spec_remove delta_equals (set_in_port (htons port) (mi_addr mi)) es)"
  using handle_connect [of mi port junk tok T es n] handle_disconnect [of mi port junk tok T es n] assms by auto

definition dgram :: "sockaddr_storage \<Rightarrow> string \<Rightarrow> msg_info" where
  "dgram sa s = \<lparr>mi_socktype = SOCK_DGRAM, mi_len = length s, mi_addr = sa, mi_msg = s @ [NUL]\<rparr>"

lemma tracker_registers_witness:
  \<open>\<exists>T T'. serve_message (replicate 256 (mk_tok JSMN_STRING 0 0 0))
      (dgram (sa4 9 1) ''{"method":"connect","port":5555}'') client_table 1 = Some (T, 0) \<and> client_rep T [(sa4 9 5555, 10)] \<and>
    serve_message (replicate 256 (mk_tok JSMN_STRING 0 0 0))
      (dgram (sa4 9 1) ''{"method":"disconnect","port":5555}'') T 1 = Some (T', 0) \<and> client_rep T' []\<close>
proof -
  let ?tok = "replicate 256 (mk_tok JSMN_STRING 0 0 0)"
  obtain T where T: "serve_message ?tok (dgram (sa4 9 1) ''{\"method\":\"connect\",\"port\":5555}'') client_table 1 = Some (T, 0)"
    "client_rep T [(sa4 9 5555, 10)]"
    using tracker_registers [of "dgram (sa4 9 1) ''{\"method\":\"connect\",\"port\":5555}''" "''connect''" 5555 "[]"
      ?tok, OF _ _ client_table_rep, of 1]
    by (auto simp: dgram_def connect_msg_def dec.simps digit_chars hits_last_def spec_update_def)
  obtain T' where "serve_message ?tok (dgram (sa4 9 1) ''{\"method\":\"disconnect\",\"port\":5555}'') T 1 = Some (T', 0)"
    "client_rep T' []"
    using tracker_registers [of "dgram (sa4 9 1) ''{\"method\":\"disconnect\",\"port\":5555}''" "''disconnect''" 5555 "[]"
      ?tok, OF _ _ T(2), of 1]
    by (auto simp: dgram_def connect_msg_def dec.simps digit_chars hits_last_def spec_remove_def)
  then show ?thesis using T by blast
qed

text \<open>C31. Discovery end to end: the request of \<open>psnet_raw_request_discover\<close>, as the next message of a connection whose token budget is still at
  least seven (it shrinks with every shorter request, C32), however it is cut into
  segments, makes the tracker, with an intact table and on a link that accepts the answer, answer with a correctly framed JSON array of at most \<open>num\<close>
  registered routers, without the one that asks, and read on.\<close>

theorem tracker_discover:
  assumes "client_rep T es" and "inet_ok ntop pton" and "n < 2 ^ 31" and "p < 65536"
    and "length (mi_msg (c_mi c)) = MSG_MAX" and "7 \<le> c_ntok c" "c_ntok c \<le> length (c_tok c)"
    and "segments_ok (recv_script (c_net c))" and "stream (recv_script (c_net c)) = discover_msg (int n) (int p) @ rest"
    and "body = render (list_doc (map (sa_doc ntop) (take n (filter
      (\<lambda>d. \<not> delta_equals d (set_in_port (htons (of_nat p)) (mi_addr (c_mi c)))) (map fst es))))) @ DELIM"
    and "length body < 2 ^ 64" and "good_link (length (framed body)) (c_net c)"
  shows "\<exists>c'. conn_step ntop T c = Some (True, c') \<and> tcp_out (c_net c') = tcp_out (c_net c) @ framed body \<and>
    stream (recv_script (c_net c')) = rest"
  using discover_step [OF assms(1-9)] assms(10-12) by simp

lemma tracker_discover_witness:
  \<open>\<exists>T c'. conn_step text_ntop T
      \<lparr>c_mi = \<lparr>mi_socktype = SOCK_STREAM, mi_len = 0, mi_addr = sa4 9 1, mi_msg = replicate 512 NUL\<rparr>,
        c_tok = replicate 256 (mk_tok JSMN_STRING 0 0 0), c_ntok = 256,
        c_net = net_of (replicate 99 (SendN 1))
          [RecvData ''{"method":"disc'', RecvData (''over","num":3,"port":7}'' @ DELIM)]\<rparr> = Some (True, c') \<and>
    tcp_out (c_net c') = ''{"status":"okay","size":42}'' @ DELIM @ ''[{"ip":"127.0.0.1","port":80,"ipv":4}]'' @ DELIM\<close>
proof -
  let ?mi = "\<lparr>mi_socktype = SOCK_STREAM, mi_len = 0, mi_addr = sa4 9 1, mi_msg = replicate 512 NUL\<rparr>"
  let ?w = "net_of (replicate 99 (SendN 1))
      [RecvData ''{\"method\":\"disc'', RecvData (''over\",\"num\":3,\"port\":7}'' @ DELIM)]"
  let ?c = "\<lparr>c_mi = ?mi, c_tok = replicate 256 (mk_tok JSMN_STRING 0 0 0), c_ntok = 256, c_net = ?w\<rparr>"
  let ?body = "''[{\"ip\":\"127.0.0.1\",\"port\":80,\"ipv\":4}]'' @ DELIM"
  obtain T1 where T1: "client_rep T1 [(sa4 16777343 80, 10)]"
    using client_update [OF client_table_rep, of "sa4 16777343 80"] by (auto simp: hits_last_def spec_update_def)
  obtain T where T: "client_rep T [(sa4 16777343 80, 10), (sa4 9 7, 10)]"
    using client_update [OF T1, of "sa4 9 7"] by (auto simp: hits_last_def spec_update_def)
  have rcv: "segments_ok (recv_script (c_net ?c))" "stream (recv_script (c_net ?c)) = discover_msg (int 3) (int 7) @ []"
    by (simp_all add: net_of_def segments_ok_def discover_msg_def dec_int_def dec.simps digit_chars)
  have body: "?body = render (list_doc (map (sa_doc text_ntop) (take 3 (filter
      (\<lambda>d. \<not> delta_equals d (set_in_port (htons (of_nat 7)) (mi_addr (c_mi ?c)))) (map fst [(sa4 16777343 80, 10), (sa4 9 7, 10)]))))) @ DELIM"
    by (simp add: sa_doc_def node_doc_def list_doc_def) (simp add: sa4_def get_in_addr_def get_in_port_def
        dotted_def Let_def dec.simps digit_chars)
  have fr: "framed ?body = ''{\"status\":\"okay\",\"size\":42}'' @ DELIM @ ?body"
    by (simp add: framed_def header_doc_text dec.simps digit_chars)
  have l: "length ?body < 2 ^ 64" by simp
  have g: "good_link (length (framed ?body)) (c_net ?c)"
    unfolding fr by (simp add: good_link_def net_of_def list_all_length)
  have "\<exists>c'. conn_step text_ntop T ?c = Some (True, c') \<and> tcp_out (c_net c') = tcp_out (c_net ?c) @ framed ?body \<and>
      stream (recv_script (c_net c')) = []"
    by (rule tracker_discover [OF T text_inet_ok _ _ _ _ _ rcv body l g]) (simp_all add: MSG_MAX_def)
  moreover have "tcp_out (c_net ?c) = []" by (simp add: net_of_def)
  ultimately show ?thesis unfolding fr by (intro exI [of _ T]) auto
qed

text \<open>C32. \<open>ntok\<close> is both the capacity of the token array and the number of tokens that
  \<open>parse_message\<close> reports, and the loop of \<open>handle_connection\<close> never resets it: a request that is
  served leaves it at the number of its tokens, and a request with more tokens than \<open>ntok\<close> is
  refused as having no method, whatever it asks, and ends the connection.\<close>

theorem later_requests_refused:
  assumes "request_on c ks rest"
  shows "(length (toks_of 0 (JCont True ks)) \<le> c_ntok c \<longrightarrow>
      (\<forall>c'. conn_step ntop T c = Some (True, c') \<longrightarrow> c_ntok c' = length (toks_of 0 (JCont True ks)))) \<and>
    (c_ntok c < length (toks_of 0 (JCont True ks)) \<and> good_link (length no_method) (c_net c) \<longrightarrow>
      (\<exists>c'. conn_step ntop T c = Some (False, c') \<and> tcp_out (c_net c') = tcp_out (c_net c) @ no_method))"
  using request_served [OF assms] request_refused [OF assms] by blast

lemma later_requests_refused_witness:
  \<open>\<exists>c'. conn_step text_ntop client_table
      \<lparr>c_mi = \<lparr>mi_socktype = SOCK_STREAM, mi_len = 0, mi_addr = sa4 9 1, mi_msg = replicate 512 NUL\<rparr>,
        c_tok = replicate 256 (mk_tok JSMN_STRING 0 0 0), c_ntok = 3,
        c_net = net_of (replicate 99 (SendN 1)) [RecvData (''{"method":"list","num":"9"}'' @ DELIM)]\<rparr> = Some (False, c') \<and>
    tcp_out (c_net c') = ''{"status":"error","code":0,"reason":"no method given"}'' @ DELIM\<close>
proof -
  let ?c = "\<lparr>c_mi = \<lparr>mi_socktype = SOCK_STREAM, mi_len = 0, mi_addr = sa4 9 1, mi_msg = replicate 512 NUL\<rparr>,
        c_tok = replicate 256 (mk_tok JSMN_STRING 0 0 0), c_ntok = 3,
        c_net = net_of (replicate 99 (SendN 1)) [RecvData (''{\"method\":\"list\",\"num\":\"9\"}'' @ DELIM)]\<rparr>"
  let ?ks = "KCons [] (JStr ''method'') (KCons '':'' (JStr ''list'') (KCons '','' (JStr ''num'') (KCons '':'' (JStr ''9'') (KNil []))))"
  have "request_on ?c ?ks []" by (simp add: request_on_def MSG_MAX_def net_of_def segments_ok_def sep_char_def)
  note R = later_requests_refused [OF this, of text_ntop client_table]
  have "good_link (length no_method) (c_net ?c)"
    by (simp add: good_link_def net_of_def list_all_length no_method_def)
  then show ?thesis using R by (simp add: no_method_def net_of_def)
qed

end
