(* ===== verification/Router.thy ===== *)
theory Router
  imports Protocol
begin

text \<open>
  The routing table, \<^verbatim>\<open>src/router/router.c\<close>: the list of the other routers, as the
  tracker reported them, and the flooding of messages to routers and clients. The list of
  \<open>psnet_list_entry\<close> is the list of its addresses; \<open>routers_lock\<close> makes each function one
  step.
\<close>

section \<open>Model\<close>

definition OUTDEGREE :: int where "OUTDEGREE = 32"

definition set_routers :: "sockaddr_storage list \<Rightarrow> sockaddr_storage list \<Rightarrow> sockaddr_storage list" where
  "set_routers new routers = new"

text \<open>The log of the new routers; \<open>addr\<close> is a local buffer as in \<open>router_nodes\<close> below.\<close>

fun print_routers :: "ntop \<Rightarrow> sockaddr_storage list \<Rightarrow> string option \<Rightarrow> string option" where
  "print_routers ntop [] addr = Some []"
| "print_routers ntop (ent # head) addr = do {
     let addr = (case psnet_ntop ntop ent of Some s \<Rightarrow> Some s | None \<Rightarrow> addr);
     s \<leftarrow> addr;
     rest \<leftarrow> print_routers ntop head addr;
     Some (''U '' @ s @ '' '' @ dec (unat (psnet_get_port ent)) @ [LF] @ rest)
   }"

text \<open>One turn of the inner loop of \<open>router_update_thread\<close>: the flag says whether the loop is
  left. The list \<open>tmp\<close> keeps what a failed attempt has put in it.\<close>

definition router_update ::
  "pton \<Rightarrow> jsmntok_t list \<Rightarrow> conn_event \<Rightarrow> int \<Rightarrow> u16 \<Rightarrow> sockaddr_storage list \<Rightarrow> sockaddr_storage list \<Rightarrow> net \<Rightarrow>
   (bool \<times> sockaddr_storage list \<times> sockaddr_storage list \<times> net) option" where
  "router_update pton tok ev rv0 port tmp routers w = do {
     (rv, tmp, w) \<leftarrow> psnet_request_discover pton tok ev rv0 tmp OUTDEGREE (uint port) w;
     if rv = 0 then Some (True, tmp, set_routers tmp routers, w)
     else Some (False, tmp, routers, w)
   }"

text \<open>One turn of \<open>router_keepalive_thread\<close>.\<close>

definition router_keepalive :: "sockaddr_storage \<Rightarrow> u16 \<Rightarrow> net \<Rightarrow> (int \<times> net) option" where
  "router_keepalive tracker port w = psnet_send_connect tracker port w"

text \<open>The return value, and the tracker and port that are handed to the two threads.\<close>

definition router_init ::
  "(string \<Rightarrow> string \<Rightarrow> sockaddr_storage option) \<Rightarrow> string \<Rightarrow> string \<Rightarrow> char list \<Rightarrow>
   (int \<times> (sockaddr_storage \<times> u16) option) option" where
  "router_init getaddrinfo tracker_addr tracker_port listen_port =
     (case psnet_new getaddrinfo tracker_addr tracker_port of
        None \<Rightarrow> Some (-1, None)
      | Some tracker \<Rightarrow> do {
          n \<leftarrow> c_atoi listen_port;
          let port = word_of_int n;
          if port = 0 then Some (-1, None) else Some (0, Some (tracker, port))
        })"

fun flood_routers :: "msg_info \<Rightarrow> sockaddr_storage list \<Rightarrow> net \<Rightarrow> net option" where
  "flood_routers mi [] w = Some w"
| "flood_routers mi (addr # routers) w =
     (if ip_addr_equals addr (mi_addr mi) then flood_routers mi routers w
      else do {
        (_, w) \<leftarrow> udp_send addr (mi_len mi) (mi_msg mi) w;
        flood_routers mi routers w
      })"

definition flood_message :: "msg_info \<Rightarrow> sockaddr_storage list \<Rightarrow> client_tbl \<Rightarrow> net \<Rightarrow> net option" where
  "flood_message mi routers T w = do {
     w \<leftarrow> flood_routers mi routers w;
     (_, w) \<leftarrow> flood_to_clients mi T w;
     Some w
   }"

text \<open>The elements of the list; \<open>addr\<close> is the local buffer, which keeps its contents when
  \<open>inet_ntop\<close> fails (\<open>None\<close>: not written yet).\<close>

fun router_nodes :: "ntop \<Rightarrow> sockaddr_storage list \<Rightarrow> string option \<Rightarrow> response_node list option" where
  "router_nodes ntop [] addr = Some []"
| "router_nodes ntop (entry # routers) addr = do {
     let addr = (case ntop_buf ntop (ss_family entry) (get_in_addr entry) INET6_ADDRSTRLEN of
        Some s \<Rightarrow> Some s | None \<Rightarrow> addr);
     s \<leftarrow> addr;
     let (len, data) = c_snprintf (26 + INET6_ADDRSTRLEN + PORT_STRLEN)
        (node_fmt s (ntohs (get_in_port entry)) (ss_family entry));
     nodes \<leftarrow> router_nodes ntop routers addr;
     Some (\<lparr>rn_data = data, rn_len = len\<rparr> # nodes)
   }"

text \<open>The argument \<open>n\<close> is not used.\<close>

definition routers_to_json ::
  "ntop \<Rightarrow> response_node list \<Rightarrow> int \<Rightarrow> sockaddr_storage list \<Rightarrow> response_node list option" where
  "routers_to_json ntop head n routers = do {
     nodes \<leftarrow> router_nodes ntop routers None;
     let head = drop_separator (head @ [node_of ''[''] @ nodes);
     Some (head @ [node_of ('']'' @ DELIM)])
   }"

section \<open>Lemmas\<close>

lemma router_nodes_ok:
  assumes "inet_ok ntop pton" and "\<forall>sa \<in> set routers. inet_family sa"
  shows "router_nodes ntop routers addr = Some (map (elem_node ntop) routers)"
  using assms(2)
proof (induction routers arbitrary: addr)
  case (Cons sa routers)
  then have fam: "inet_family sa" by simp
  note nt = ntop_buf_ok [OF assms(1) fam]
  show ?case using Cons nt(1) node_fmt_length [OF nt(2), of "ntohs (get_in_port sa)" "ss_family sa"]
    by (simp add: Let_def c_snprintf_def elem_node_def node_of_def sa_doc_def node_fmt_doc)
qed simp

lemma routers_to_json_body:
  assumes "inet_ok ntop pton" and "\<forall>sa \<in> set routers. inet_family sa"
  shows "\<exists>body. routers_to_json ntop [] n routers = Some body \<and> nodes_ok body \<and>
    response_bytes body = render (list_doc (map (sa_doc ntop) routers)) @ DELIM"
  using router_nodes_ok [OF assms] drop_separator_bytes [of ntop routers] elem_nodes_ok
  by (simp add: routers_to_json_def Let_def list_doc_def response_bytes_append response_bytes_node)

lemma flood_routers_sent:
  assumes "mi_len mi \<le> length (mi_msg mi)"
  defines "dests \<equiv> \<lambda>rs. filter (\<lambda>r. \<not> ip_addr_equals r (mi_addr mi)) rs"
  shows "length (dests routers) \<le> length (udp_script w) \<Longrightarrow> flood_routers mi routers w =
    Some (w\<lparr>udp_script := drop (length (dests routers)) (udp_script w),
            dgrams := dgrams w @ delivered (dests routers) (udp_script w) (take (mi_len mi) (mi_msg mi))\<rparr>)"
proof (induction routers arbitrary: w)
  case Nil
  then show ?case by (simp add: dests_def delivered_def)
next
  case (Cons r routers)
  show ?case
  proof (cases "ip_addr_equals r (mi_addr mi)")
    case True
    then show ?thesis using Cons by (simp add: dests_def)
  next
    case False
    obtain ev evs where ev: "udp_script w = ev # evs" using Cons.prems False by (cases "udp_script w") (auto simp: dests_def)
    let ?m = "take (mi_len mi) (mi_msg mi)"
    let ?w = "w\<lparr>udp_script := evs, dgrams := dgrams w @ delivered [r] [ev] ?m\<rparr>"
    obtain rc where "udp_send r (mi_len mi) (mi_msg mi) w = Some (rc, ?w)"
      using udp_send_step [OF ev assms(1), of r] by (auto simp: map_option_case split: option.splits)
    moreover have "delivered (r # ds) (ev # evs) ?m = delivered [r] [ev] ?m @ delivered ds evs ?m" for ds
      by (simp add: delivered_def)
    ultimately show ?thesis using Cons.IH [of ?w] Cons.prems False ev by (simp add: dests_def)
  qed
qed

lemma delivered_append:
  "delivered (ds @ ds') evs m = delivered ds evs m @ delivered ds' (drop (length ds) evs) m"
proof (induction ds arbitrary: evs)
  case (Cons d ds)
  then show ?case by (cases evs) (auto simp: delivered_def)
qed (simp add: delivered_def)

lemma flood_message_rep:
  assumes "client_rep T es" and "mi_len mi \<le> length (mi_msg mi)"
    and "length routers + length es \<le> length (udp_script w)"
  shows "\<exists>w'. flood_message mi routers T w = Some w' \<and> dgrams w' = dgrams w @
    delivered (filter (\<lambda>r. \<not> ip_addr_equals r (mi_addr mi)) routers @ map fst es) (udp_script w)
      (take (mi_len mi) (mi_msg mi)) \<and> tcp_out w' = tcp_out w \<and> send_script w' = send_script w \<and> recv_script w' = recv_script w \<and>
    length (udp_script w) \<le> length (udp_script w') + length routers + length es"
proof -
  let ?ds = "filter (\<lambda>r. \<not> ip_addr_equals r (mi_addr mi)) routers"
  have "length ?ds \<le> length routers" by simp
  then have len: "length ?ds \<le> length (udp_script w)" "length es \<le> length (drop (length ?ds) (udp_script w))"
    unfolding length_drop using assms(3) by linarith+
  have "length (udp_script w) \<le> length (udp_script w) - (length ?ds + length es) + length routers + length es"
    using \<open>length ?ds \<le> length routers\<close> by linarith
  then show ?thesis using flood_routers_sent [OF assms(2), of routers w] flood_to_clients_rep [OF assms(1,2)] len
    by (simp add: flood_message_def delivered_append)
qed

section \<open>Properties\<close>

text \<open>C26. \<open>flood_message\<close> sends the message once to every router for which \<open>ip_addr_equals\<close> with
  the sender is false, and then once to every client, in order; a failed send does not stop it. As
  \<open>ip_addr_equals\<close> compares IPv4 addresses with the wrong sign, a message from an IPv4 sender goes to no IPv4 router
  with another address, but only to the clients.\<close>

theorem flood_message_sends:
  assumes "client_rep T es" and "mi_len mi \<le> length (mi_msg mi)"
    and "length routers + length es \<le> length (udp_script w)"
  shows "\<exists>w'. flood_message mi routers T w = Some w' \<and>
    dgrams w' = dgrams w @
      delivered (filter (\<lambda>r. \<not> ip_addr_equals r (mi_addr mi)) routers @ map fst es) (udp_script w) (take (mi_len mi) (mi_msg mi)) \<and>
    ((\<forall>r\<in>set routers. ss_family r = AF_INET \<and> sin_addr r \<noteq> sin_addr (mi_addr mi)) \<and> ss_family (mi_addr mi) = AF_INET \<longrightarrow>
      dgrams w' = dgrams w @ delivered (map fst es) (udp_script w) (take (mi_len mi) (mi_msg mi)))"
proof -
  let ?ds = "filter (\<lambda>r. \<not> ip_addr_equals r (mi_addr mi)) routers"
  have "?ds = []" if "\<forall>r\<in>set routers. ss_family r = AF_INET \<and> sin_addr r \<noteq> sin_addr (mi_addr mi)" "ss_family (mi_addr mi) = AF_INET"
    using that by (auto simp: filter_empty_conv ip_addr_equals_def)
  then show ?thesis using flood_message_rep [OF assms] by fastforce
qed

definition udp_net :: "udp_event list \<Rightarrow> net" where
  "udp_net us = \<lparr>send_script = [], recv_script = [], udp_script = us, tcp_out = [], dgrams = []\<rparr>"

definition udp_msg :: "sockaddr_storage \<Rightarrow> string \<Rightarrow> msg_info" where
  "udp_msg sa s = \<lparr>mi_socktype = SOCK_DGRAM, mi_len = length s, mi_addr = sa, mi_msg = s @ [NUL]\<rparr>"

lemma flood_message_sends_witness:
  "(\<exists>T w'. flood_message (udp_msg (sa4 9 1) ''hi'') [sa4 9 2] T (udp_net [UdpSent, UdpSent]) = Some w' \<and>
     dgrams w' = [(sa4 9 2, ''hi''), (sa4 5 80, ''hi'')]) \<and>
   (\<exists>w'. flood_message (udp_msg (sa4 9 1) ''hi'') [sa4 1 2, sa4 2 2] client_table (udp_net [UdpSent, UdpSent]) = Some w' \<and>
     dgrams w' = [])"
proof
  obtain T where T: "client_rep T [(sa4 5 80, 10)]"
    using client_update [OF client_table_rep, of "sa4 5 80"] by (auto simp: hits_last_def spec_update_def)
  show "\<exists>T w'. flood_message (udp_msg (sa4 9 1) ''hi'') [sa4 9 2] T (udp_net [UdpSent, UdpSent]) = Some w' \<and>
    dgrams w' = [(sa4 9 2, ''hi''), (sa4 5 80, ''hi'')]"
    using flood_message_sends [OF T, of "udp_msg (sa4 9 1) ''hi''" "[sa4 9 2]" "udp_net [UdpSent, UdpSent]"]
    by (auto simp: udp_msg_def udp_net_def delivered_def ip_addr_equals_def sa4_def)
  show "\<exists>w'. flood_message (udp_msg (sa4 9 1) ''hi'') [sa4 1 2, sa4 2 2] client_table (udp_net [UdpSent, UdpSent]) = Some w' \<and>
    dgrams w' = []"
    using flood_message_sends [OF client_table_rep, of "udp_msg (sa4 9 1) ''hi''" "[sa4 1 2, sa4 2 2]" "udp_net [UdpSent, UdpSent]"]
    by (auto simp: udp_msg_def udp_net_def delivered_def ip_addr_equals_def sa4_def)
qed

text \<open>C17. \<open>clients_to_json\<close> produces the JSON array of the clients in order of expiry, without
  the one to ignore and at most as many as asked for; \<open>routers_to_json\<close> that of every router, whatever the number it
  is given. No buffer overflows, whatever the addresses and ports.\<close>

theorem listings:
  assumes "inet_ok ntop pton" and "client_rep T es" and "\<forall>sa \<in> set routers. inet_family sa" and "n < 2 ^ 31"
  shows "(\<exists>body. clients_to_json ntop [] ign (dec n @ NUL # junk) T = Some (CL_OK, body) \<and> nodes_ok body \<and>
      response_bytes body =
        render (list_doc (map (sa_doc ntop) (take n (filter (\<lambda>d. \<not> ignored ign d) (map fst es))))) @ DELIM) \<and>
    (\<exists>body. routers_to_json ntop [] k routers = Some body \<and> nodes_ok body \<and>
      response_bytes body = render (list_doc (map (sa_doc ntop) routers)) @ DELIM)"
  using clients_to_json_body [OF assms(2,1,4)] routers_to_json_body [OF assms(1,3)] by blast

lemma listings_witness:
  \<open>\<exists>T body body'. clients_to_json text_ntop [] None (''2'' @ [NUL]) T = Some (CL_OK, body) \<and>
     response_bytes body = ''[{"ip":"127.0.0.1","port":80,"ipv":4}]'' @ DELIM \<and>
     routers_to_json text_ntop [] 0 [sa4 16777343 81] = Some body' \<and>
     response_bytes body' = ''[{"ip":"127.0.0.1","port":81,"ipv":4}]'' @ DELIM\<close>
proof -
  obtain T where T: "client_rep T [(sa4 16777343 80, 10)]"
    using client_update [OF client_table_rep, of "sa4 16777343 80"]
    by (auto simp: hits_last_def spec_update_def)
  show ?thesis
    using listings [OF text_inet_ok T, of "[sa4 16777343 81]" 2 None "[]" 0]
    by (intro exI [of _ T])
      (auto simp: ignored_def sa_doc_def node_doc_def list_doc_def sa4_def get_in_addr_def get_in_port_def
        dotted_def Let_def dec.simps digit_chars inet_family_def)
qed

end
