(* ===== verification/Msgcache.thy ===== *)
theory Msgcache
  imports Deltalist_Props C_Strings
begin

text \<open>
  The cache of message identifiers, \<^verbatim>\<open>src/router/msgcache.c\<close>: a delta list of C
  strings, hashed with \<open>hash * 33 + c\<close> on 64-bit words and compared with \<open>strcmp\<close>. The
  router drops a message whose identifier is in the cache.
\<close>

section \<open>Model\<close>

text \<open>The loop of the hash function; a \<open>char\<close> is signed.\<close>

fun hash_loop :: "ulong \<Rightarrow> char list \<Rightarrow> ulong" where
  "hash_loop hash [] = hash"
| "hash_loop hash (c # s) =
     (if c = NUL then hash else hash_loop ((push_bit 5 hash + hash) + word_of_int (schar c)) s)"

definition msg_delta_hash :: "char list \<Rightarrow> ulong" where
  "msg_delta_hash msg = hash_loop 5381 msg"

text \<open>\<open>!strcmp (a, b)\<close>.\<close>

fun msg_delta_equals :: "char list \<Rightarrow> char list \<Rightarrow> bool" where
  "msg_delta_equals (a # s0) (b # s1) = (if a \<noteq> b then False else if a = NUL then True else msg_delta_equals s0 s1)"
| "msg_delta_equals _ _ = False"

type_synonym msg_tbl = "char list delta_list"

definition msg_cache :: msg_tbl where
  "msg_cache = static_table 1 10 msg_delta_hash msg_delta_equals"

definition cache_msg :: "char list \<Rightarrow> msg_tbl \<Rightarrow> (int \<times> msg_tbl) option" where
  "cache_msg ident M = delta_update ident M"

definition msg_cache_size :: "msg_tbl \<Rightarrow> uint" where
  "msg_cache_size M = delta_size M"

section \<open>The contract of the table\<close>

lemma msg_equals_cstr:
  "NUL \<in> set a \<Longrightarrow> NUL \<in> set b \<Longrightarrow> msg_delta_equals a b \<longleftrightarrow> cstr a = cstr b"
  by (induction a b rule: msg_delta_equals.induct) (auto simp: cstr_def)

lemma msg_equals_sym: "msg_delta_equals a b \<Longrightarrow> msg_delta_equals b a"
  by (induction a b rule: msg_delta_equals.induct) (auto split: if_splits)

lemma msg_equals_trans: "msg_delta_equals a b \<Longrightarrow> msg_delta_equals b c \<Longrightarrow> msg_delta_equals a c"
proof (induction a b arbitrary: c rule: msg_delta_equals.induct)
  case (1 x s0 y s1)
  then show ?case by (cases c) (auto split: if_splits)
qed simp_all

lemma msg_hash_cong: "msg_delta_equals a b \<Longrightarrow> hash_loop h a = hash_loop h b"
  by (induction a b arbitrary: h rule: msg_delta_equals.induct) (auto split: if_splits)

interpretation msg: delta_table msg_delta_hash msg_delta_equals "\<lambda>s. NUL \<in> set s" 10
proof
  show "msg_delta_equals d d" if "NUL \<in> set d" for d using that by (simp add: msg_equals_cstr)
qed (auto intro: msg_equals_sym msg_equals_trans simp: msg_delta_hash_def msg_hash_cong)

abbreviation msg_rep :: "msg_tbl \<Rightarrow> (char list \<times> nat) list \<Rightarrow> bool" where
  "msg_rep \<equiv> dl_rep msg_delta_hash msg_delta_equals (\<lambda>s. NUL \<in> set s) 10"

lemma msg_cache_rep: "msg_rep msg_cache []"
  unfolding msg_cache_def by (rule msg.static_rep)

lemma cache_msg_rc:
  assumes rep: "msg_rep M es" and nul: "NUL \<in> set d"
  shows "\<exists>M'. cache_msg d M = Some (if list_ex (\<lambda>e. msg_delta_equals (fst e) d) es then 1 else 0, M') \<and>
    (\<not> hits_last msg_delta_equals d es \<longrightarrow> msg_rep M' (spec_update msg_delta_equals 10 d es))"
proof (cases "hits_last msg_delta_equals d es")
  case True
  then obtain fs e where es: "es = fs @ [e]" "fs \<noteq> []" "msg_delta_equals (fst e) d"
    by (cases es rule: rev_cases) (auto simp: hits_last_def Suc_le_length_iff)
  have "msg_rep M (fs @ [e])" using rep es(1) by simp
  then obtain M' where "delta_update d M = Some (1, M')"
    by (rule msg.delta_update_last [OF _ es(2,3)])
  then show ?thesis using es True by (simp add: cache_msg_def)
next
  case False
  show ?thesis unfolding cache_msg_def by (rule msg.delta_update_total [OF rep nul False]) auto
qed

lemma msg_in_ttl:
  assumes "msg_rep M es"
  shows "list_ex (\<lambda>e. msg_delta_equals (fst e) d) es \<longleftrightarrow> 0 < ttl msg_delta_equals d es"
  using msg.contains_ttl [OF assms, of d] msg.delta_contains_rep [OF assms, of d] by (auto split: if_splits)

section \<open>Properties\<close>

text \<open>C19. Duplicate detection. An identifier that is not in the cache is reported as new (0). When
  it comes again after any sequence of other messages and ticks, it is reported as a duplicate (1)
  exactly if fewer than ten ticks have passed. No message in between may repeat the identifier that is the last of several in the cache at that
  moment (\<open>ops_ok\<close>): peers can send such messages, and C28 is what they lead to.\<close>

theorem cache_msg_window:
  assumes rep: "msg_rep M es" and nul: "NUL \<in> set d"
    and new: "\<not> list_ex (\<lambda>e. cstr (fst e) = cstr d) es"
    and ok: "ops_ok msg_delta_equals (\<lambda>s. NUL \<in> set s) 10 ops (es @ [(d, 10)])"
    and other: "\<forall>op \<in> set ops. \<not> touches msg_delta_equals d op"
  shows "\<exists>M1 M2 M3. cache_msg d M = Some (0, M1) \<and> dl_run ops M1 = Some M2 \<and>
    cache_msg d M2 = Some (if ticks ops < 10 then 1 else 0, M3)"
proof -
  have keys: "NUL \<in> set (fst e)" if "e \<in> set es" for e using msg.rep_valid [OF rep that] .
  have miss: "\<not> list_ex (\<lambda>e. msg_delta_equals (fst e) d) es"
    using new keys nul by (auto simp: list_ex_iff msg_equals_cstr)
  obtain M1 where M1: "cache_msg d M = Some (0, M1)" "msg_rep M1 (es @ [(d, 10)])"
    using msg.delta_update_fresh [OF rep nul miss] by (auto simp: cache_msg_def)
  obtain M2 where M2: "dl_run ops M1 = Some M2" "msg_rep M2 (spec_run msg_delta_equals 10 ops (es @ [(d, 10)]))"
    using msg.dl_run_rep [OF M1(2) ok] by blast
  have "ttl msg_delta_equals d (es @ [(d, 10)]) = 10"
    using msg.ttl_unique [OF M1(2), of "(d, 10)" d] msg.equals_refl [OF nul] by simp
  then have "ttl msg_delta_equals d (spec_run msg_delta_equals 10 ops (es @ [(d, 10)])) = 10 - ticks ops"
    using msg.ttl_run [OF M1(2) ok other] by simp
  then show ?thesis using M1(1) M2 cache_msg_rc [OF M2(2) nul] msg_in_ttl [OF M2(2), of d] by auto
qed

lemma cache_msg_window_witness:
  "\<exists>M1 M2 M3. cache_msg (''id1'' @ [NUL]) msg_cache = Some (0, M1) \<and>
     dl_run [OpTick, OpUpdate (''id2'' @ [NUL]), OpTick] M1 = Some M2 \<and>
     cache_msg (''id1'' @ [NUL]) M2 = Some (1, M3)"
  using cache_msg_window [OF msg_cache_rep, of "''id1'' @ [NUL]" "[OpTick, OpUpdate (''id2'' @ [NUL]), OpTick]"]
  by (simp add: ticks_def spec_tick_def hits_last_def)

end
