(* ===== verification/Router_Service.thy ===== *)
theory Router_Service
  imports Service_Base Router Msgcache
begin

text \<open>
  The router, \<^verbatim>\<open>src/router/service.c\<close>: it keeps the clients that connect to it,
  broadcasts their messages to the other routers and to its clients, and answers queries. The
  state that the handlers share is a record: the table of clients, the cache of message
  identifiers and the list of routers. The log output (\<open>PSNETLOG\<close>) is left out.
\<close>

section \<open>State\<close>

record router_state =
  rs_clients :: client_tbl
  rs_cache :: msg_tbl
  rs_routers :: "sockaddr_storage list"

definition MAX_HOPS :: int where "MAX_HOPS = 4"

datatype node_errno = ENOMETHOD | ENONUM | EBADMETHOD | EBADNUM

fun node_code :: "node_errno \<Rightarrow> nat" where
  "node_code ENOMETHOD = 0"
| "node_code ENONUM = 1"
| "node_code EBADMETHOD = 2"
| "node_code EBADNUM = 3"

fun psnode_strerror :: "node_errno \<Rightarrow> string" where
  "psnode_strerror ENOMETHOD = ''no method given''"
| "psnode_strerror ENONUM = ''missing argument '' @ [CHR 0x27] @ ''num'' @ [CHR 0x27]"
| "psnode_strerror EBADMETHOD = ''unrecognized method''"
| "psnode_strerror EBADNUM = ''invalid argument '' @ [CHR 0x27] @ ''num'' @ [CHR 0x27]"

definition node_error :: "node_errno \<Rightarrow> net \<Rightarrow> net option" where
  "node_error no w = psnet_send_error (node_code no) (psnode_strerror no) w"

section \<open>Methods\<close>

definition process_ip :: "ntop \<Rightarrow> msg_info \<Rightarrow> net \<Rightarrow> net option" where
  \<open>process_ip ntop mi w = do {
     addr \<leftarrow> ntop_buf ntop (ss_family (mi_addr mi)) (get_in_addr (mi_addr mi)) INET6_ADDRSTRLEN;
     rsp \<leftarrow> c_sprintf (13 + INET6_ADDRSTRLEN) (''{"ip":"'' @ addr @ ''"}'' @ DELIM);
     hdr \<leftarrow> c_sprintf HDR_OK_STRLEN (hdr_ok_fmt (int (fst rsp)));
     send_two hdr rsp w
   }\<close>

definition process_info :: "router_state \<Rightarrow> net \<Rightarrow> net option" where
  \<open>process_info st w = do {
     rsp \<leftarrow> c_sprintf (60 + 10 + 10)
       (''{"name":"generic psnet router","clients":'' @ dec_int (sint (client_list_size (rs_clients st))) @
        '',"cache-load":'' @ dec_int (sint (msg_cache_size (rs_cache st))) @ ''}'' @ DELIM);
     hdr \<leftarrow> c_sprintf HDR_OK_STRLEN (hdr_ok_fmt (int (fst rsp)));
     send_two hdr rsp w
   }\<close>

definition process_ping :: "net \<Rightarrow> net option" where
  "process_ping w = psnet_send_ok w"

definition process_connect ::
  "msg_info \<Rightarrow> jsmntok_t list \<Rightarrow> router_state \<Rightarrow> (msg_info \<times> router_state) option" where
  "process_connect mi tok st = do {
     port \<leftarrow> jsmn_get_value (mi_msg mi) tok ''port'';
     if port = -1 then Some (mi, st)
     else do {
       t \<leftarrow> rd_tok tok (nat port);
       mi \<leftarrow> put_nul t mi;
       p \<leftarrow> ptr_at (mi_msg mi) (tok_start t);
       (rc, T) \<leftarrow> add_client (mi_addr mi) p (rs_clients st);
       Some (mi, st\<lparr>rs_clients := T\<rparr>)
     }
   }"

text \<open>The next character code: \<open>msg[i]++\<close>.\<close>

definition next_char :: "char \<Rightarrow> char" where
  "next_char c = char_of ((of_char c :: nat) + 1)"

definition process_broadcast ::
  "msg_info \<Rightarrow> jsmntok_t list \<Rightarrow> router_state \<Rightarrow> net \<Rightarrow> (msg_info \<times> router_state \<times> net) option" where
  "process_broadcast mi tok st w = do {
     (rc, is) \<leftarrow> jsmn_get_values (mi_msg mi) tok [''hops'', ''id''];
     if rc = -1 then Some (mi, st, w)
     else do {
       hops \<leftarrow> rd_tok tok (nat (is ! 0));
       v \<leftarrow> tok_first (mi_msg mi) hops;
       if schar v < schar CHR ''0'' \<or> schar v \<ge> schar CHR ''0'' + MAX_HOPS - 1 then Some (mi, st, w)
       else do {
         buf \<leftarrow> wr (mi_msg mi) (nat (tok_start hops)) (next_char v);
         let mi = mi\<lparr>mi_msg := buf\<rparr>;
         t \<leftarrow> rd_tok tok (nat (is ! 1));
         msgid \<leftarrow> jsmn_tokdup (mi_msg mi) t;
         (dup, M) \<leftarrow> cache_msg msgid (rs_cache st);
         let st = st\<lparr>rs_cache := M\<rparr>;
         if dup \<noteq> 0 then Some (mi, st, w)
         else do {
           w \<leftarrow> flood_message mi (rs_routers st) (rs_clients st) w;
           Some (mi, st, w)
         }
       }
     }
   }"

definition process_discover ::
  "ntop \<Rightarrow> msg_info \<Rightarrow> jsmntok_t list \<Rightarrow> router_state \<Rightarrow> net \<Rightarrow> net option" where
  "process_discover ntop mi tok st w = do {
     num \<leftarrow> jsmn_get_value (mi_msg mi) tok ''num'';
     if num = -1 then node_error ENONUM w
     else do {
       t \<leftarrow> rd_tok tok (nat num);
       p \<leftarrow> ptr_at (mi_msg mi) (tok_start t);
       n \<leftarrow> c_atoi p;
       if n = 0 then node_error EBADNUM w
       else do {
         jlist \<leftarrow> routers_to_json ntop [] n (rs_routers st);
         (_, w) \<leftarrow> psnet_send_response (make_response_with_body [] jlist) w;
         Some w
       }
     }
   }"

section \<open>Dispatch\<close>

text \<open>One turn of the loop of \<open>handle_connection\<close>; the flag is \<open>False\<close> when it is left.\<close>

definition conn_step :: "ntop \<Rightarrow> router_state \<Rightarrow> conn \<Rightarrow> (bool \<times> router_state \<times> conn) option" where
  "conn_step ntop st c = do {
     (rv, buf, w) \<leftarrow> tcp_read_msg (mi_msg (c_mi c)) MSG_MAX (c_net c);
     let mi = (c_mi c)\<lparr>mi_msg := buf\<rparr>;
     if rv \<le> 0 then Some (False, st, c\<lparr>c_mi := mi, c_net := w\<rparr>)
     else do {
       (method, tok, ntok) \<leftarrow> parse_message (mi_msg mi) (c_tok c) (c_ntok c);
       let c = c\<lparr>c_mi := mi, c_tok := tok, c_ntok := ntok, c_net := w\<rparr>;
       if method = -1 then do { w \<leftarrow> node_error ENOMETHOD w; Some (False, st, c\<lparr>c_net := w\<rparr>) }
       else do {
         bro \<leftarrow> cmd_equal mi tok method ''broadcast'';
         if bro then do {
           (mi, st, w) \<leftarrow> process_broadcast mi tok st w;
           Some (True, st, c\<lparr>c_mi := mi, c_net := w\<rparr>)
         }
         else do {
           ip \<leftarrow> cmd_equal mi tok method ''ip'';
           if ip then do { w \<leftarrow> process_ip ntop mi w; Some (True, st, c\<lparr>c_net := w\<rparr>) }
           else do {
             inf \<leftarrow> cmd_equal mi tok method ''info'';
             if inf then do { w \<leftarrow> process_info st w; Some (True, st, c\<lparr>c_net := w\<rparr>) }
             else do {
               ping \<leftarrow> cmd_equal mi tok method ''ping'';
               if ping then do { w \<leftarrow> process_ping w; Some (True, st, c\<lparr>c_net := w\<rparr>) }
               else do {
                 dis \<leftarrow> cmd_equal mi tok method ''discover'';
                 if dis then do {
                   w \<leftarrow> process_discover ntop mi tok st w;
                   Some (True, st, c\<lparr>c_net := w\<rparr>)
                 }
                 else do { w \<leftarrow> node_error EBADMETHOD w; Some (False, st, c\<lparr>c_net := w\<rparr>) }
               }
             }
           }
         }
       }
     }
   }"

text \<open>The tables and the list of routers are shared with the other threads: \<open>others k\<close> is what the clock threads, the datagrams and the
  other connections have made of the state when the \<open>k\<close>-th message of this connection has arrived.\<close>

partial_function (option) conn_loop ::
  "ntop \<Rightarrow> (nat \<Rightarrow> router_state \<Rightarrow> router_state) \<Rightarrow> nat \<Rightarrow> router_state \<Rightarrow> conn \<Rightarrow> (router_state \<times> conn) option" where
  "conn_loop ntop others k st c = do {
     (go, st, c) \<leftarrow> conn_step ntop (others k st) c;
     if go then conn_loop ntop others (k + 1) st c else Some (st, c)
   }"

definition handle_connection ::
  "ntop \<Rightarrow> (nat \<Rightarrow> router_state \<Rightarrow> router_state) \<Rightarrow> jsmntok_t list \<Rightarrow> msg_info \<Rightarrow> router_state \<Rightarrow> net \<Rightarrow> int \<Rightarrow>
   (router_state \<times> net \<times> int) option" where
  "handle_connection ntop others tok mi st w num_threads = do {
     (st, c) \<leftarrow> conn_loop ntop others 0 st \<lparr>c_mi = mi, c_tok = tok, c_ntok = JSMN_NTOK, c_net = w\<rparr>;
     Some (st, c_net c, num_threads - 1)
   }"

text \<open>The callback for a datagram: what it does up to the point where it frees its message, and the whole of it.\<close>

definition serve_message ::
  "jsmntok_t list \<Rightarrow> msg_info \<Rightarrow> router_state \<Rightarrow> net \<Rightarrow> int \<Rightarrow> (router_state \<times> net \<times> int) option" where
  "serve_message tok mi st w num_threads = do {
     (method, tok, ntok) \<leftarrow> parse_message (mi_msg mi) tok JSMN_NTOK;
     if method = -1 then Some (st, w, num_threads - 1)
     else do {
       con \<leftarrow> cmd_equal mi tok method ''connect'';
       if con then do { (_, st) \<leftarrow> process_connect mi tok st; Some (st, w, num_threads - 1) }
       else do {
         bro \<leftarrow> cmd_equal mi tok method ''broadcast'';
         if bro then do { (_, st, w) \<leftarrow> process_broadcast mi tok st w; Some (st, w, num_threads - 1) }
         else Some (st, w, num_threads - 1)
       }
     }
   }"

definition handle_message ::
  "bool \<Rightarrow> jsmntok_t list \<Rightarrow> msg_info \<Rightarrow> router_state \<Rightarrow> net \<Rightarrow> int \<Rightarrow> (router_state \<times> net \<times> int) option" where
  "handle_message psnetlog tok mi st w num_threads = do {
     (st, w, num_threads) \<leftarrow> serve_message tok mi st w num_threads;
     _ \<leftarrow> message_end psnetlog (Some mi);
     Some (st, w, num_threads)
   }"

section \<open>Settings\<close>

record settings =
  max_threads :: int
  dir_addr :: string
  dir_port :: string
  listen_port :: string

definition default_settings :: settings where
  "default_settings =
     \<lparr>max_threads = 1000, dir_addr = ''psnet.no-ip.biz'', dir_port = ''6666'', listen_port = ''5555''\<rparr>"

definition ini_handler :: "string \<Rightarrow> string \<Rightarrow> string \<Rightarrow> settings \<Rightarrow> (int \<times> settings) option" where
  "ini_handler sect name val s =
     (if sect \<noteq> ''Router'' then Some (1, s)
      else if name = ''directory-address'' then Some (1, s\<lparr>dir_addr := val\<rparr>)
      else if name = ''directory-port'' then do {
        v \<leftarrow> c_atoi (val @ [NUL]);
        Some (1, if v = 0 then s else s\<lparr>dir_port := val\<rparr>)
      }
      else if name = ''listen-port'' then do {
        v \<leftarrow> c_atoi (val @ [NUL]);
        Some (1, if v = 0 then s else s\<lparr>listen_port := val\<rparr>)
      }
      else if name = ''max-threads'' then do {
        v \<leftarrow> c_atoi (val @ [NUL]);
        Some (1, if v = 0 then s else s\<lparr>max_threads := v\<rparr>)
      }
      else Some (1, s))"

declare conn_loop.simps [code]

section \<open>Broadcast\<close>

text \<open>The hops field and the identifier of a message: the tokens that the lookup finds.\<close>

definition bcast_fields :: "char list \<Rightarrow> jsmntok_t list \<Rightarrow> nat \<Rightarrow> jsmntok_t \<Rightarrow> bool" where
  "bcast_fields msg tok a ti \<longleftrightarrow> (\<exists>h i th. jsmn_get_values msg tok [''hops'', ''id''] = Some (0, [h, i]) \<and>
     rd_tok tok (nat h) = Some th \<and> tok_start th = int a \<and> a < length msg \<and> rd_tok tok (nat i) = Some ti)"

definition may_hop :: "char \<Rightarrow> bool" where
  "may_hop v \<longleftrightarrow> schar CHR ''0'' \<le> schar v \<and> schar v < schar CHR ''3''"

lemma schar_digits [simp]: "schar CHR ''0'' = 48" "schar CHR ''3'' = 51"
  by (simp_all add: schar_def)

lemma next_char_schar: "may_hop v \<Longrightarrow> schar (next_char v) = schar v + 1"
proof -
  assume v: "may_hop v"
  let ?n = "of_char v :: nat"
  have n: "(of_char v :: int) = int ?n" by (simp add: of_nat_of_char)
  have b: "?n < 256" by (rule nat_of_char_less_256)
  have "schar v = (if int ?n < 128 then int ?n else int ?n - 256)" unfolding schar_def Let_def n ..
  then have "?n < 128" "?n \<le> 50" using v b unfolding may_hop_def schar_digits by (simp_all only: split: if_splits)
  moreover have "(of_char (next_char v) :: nat) = (?n + 1) mod 256" by (simp add: next_char_def)
  then have "(of_char (next_char v) :: int) = int ((?n + 1) mod 256)" by (metis of_nat_of_char)
  ultimately show ?thesis unfolding schar_def Let_def n by simp
qed

lemma process_broadcast_dropped:
  assumes "bcast_fields (mi_msg mi) tok a ti" and "\<not> may_hop (mi_msg mi ! a)"
  shows "process_broadcast mi tok st w = Some (mi, st, w)"
proof -
  obtain h i th where f: "jsmn_get_values (mi_msg mi) tok [''hops'', ''id''] = Some (0, [h, i])"
    "rd_tok tok (nat h) = Some th" "tok_start th = int a" "a < length (mi_msg mi)" using assms(1) by (auto simp: bcast_fields_def)
  have "tok_first (mi_msg mi) th = Some (mi_msg mi ! a)"
    using f(3,4) by (simp add: tok_first_def ptr_at_def rd_def)
  moreover have "schar (mi_msg mi ! a) < 48 \<or> 51 \<le> schar (mi_msg mi ! a)" using assms(2) by (auto simp: may_hop_def)
  ultimately show ?thesis using f by (simp add: process_broadcast_def MAX_HOPS_def)
qed

text \<open>Up to the cache.\<close>

lemma process_broadcast_cache:
  assumes "bcast_fields (mi_msg mi) tok a ti" and "may_hop (mi_msg mi ! a)"
    and "jsmn_tokdup ((mi_msg mi)[a := next_char (mi_msg mi ! a)]) ti = Some ident"
  defines "mi' \<equiv> mi\<lparr>mi_msg := (mi_msg mi)[a := next_char (mi_msg mi ! a)]\<rparr>"
  shows "process_broadcast mi tok st w = do {
    (dup, M) \<leftarrow> cache_msg ident (rs_cache st);
    if dup \<noteq> 0 then Some (mi', st\<lparr>rs_cache := M\<rparr>, w)
    else do { w' \<leftarrow> flood_message mi' (rs_routers st) (rs_clients st) w; Some (mi', st\<lparr>rs_cache := M\<rparr>, w') } }"
proof -
  obtain h i th where f: "jsmn_get_values (mi_msg mi) tok [''hops'', ''id''] = Some (0, [h, i])"
    "rd_tok tok (nat h) = Some th" "tok_start th = int a" "a < length (mi_msg mi)" "rd_tok tok (nat i) = Some ti"
    using assms(1) by (auto simp: bcast_fields_def)
  have "tok_first (mi_msg mi) th = Some (mi_msg mi ! a)"
    using f(3,4) by (simp add: tok_first_def ptr_at_def rd_def)
  moreover have "\<not> (schar (mi_msg mi ! a) < 48 \<or> 51 \<le> schar (mi_msg mi ! a))" using assms(2) by (auto simp: may_hop_def)
  ultimately show ?thesis using f assms(3) unfolding mi'_def
    by (cases "cache_msg ident (rs_cache st)") (auto simp: process_broadcast_def MAX_HOPS_def wr_def Let_def)
qed

lemma process_broadcast_crash:
  assumes "bcast_fields (mi_msg mi) tok a ti" and "may_hop (mi_msg mi ! a)"
    and "jsmn_tokdup ((mi_msg mi)[a := next_char (mi_msg mi ! a)]) ti = Some ident"
    and "cache_msg ident (rs_cache st) = None"
  shows "process_broadcast mi tok st w = None"
  using process_broadcast_cache [OF assms(1-3)] assms(4) by simp

lemma process_broadcast_hop:
  assumes "bcast_fields (mi_msg mi) tok a ti" and "may_hop (mi_msg mi ! a)"
    and "jsmn_tokdup ((mi_msg mi)[a := next_char (mi_msg mi ! a)]) ti = Some ident"
    and "cache_msg ident (rs_cache st) = Some (dup, M)"
  defines "mi' \<equiv> mi\<lparr>mi_msg := (mi_msg mi)[a := next_char (mi_msg mi ! a)]\<rparr>"
  shows "process_broadcast mi tok st w =
    (if dup \<noteq> 0 then Some (mi', st\<lparr>rs_cache := M\<rparr>, w)
     else do { w' \<leftarrow> flood_message mi' (rs_routers st) (rs_clients st) w; Some (mi', st\<lparr>rs_cache := M\<rparr>, w') })"
  using process_broadcast_cache [OF assms(1-3)] assms(4) by (simp add: mi'_def)

lemma jsmn_tokdup_NUL: "jsmn_tokdup msg t = Some s \<Longrightarrow> NUL \<in> set s"
  by (auto simp: jsmn_tokdup_def bind_eq_Some_iff)

lemma process_broadcast_rep:
  assumes "bcast_fields (mi_msg mi) tok a ti"
    and "jsmn_tokdup ((mi_msg mi)[a := next_char (mi_msg mi ! a)]) ti = Some ident"
    and "msg_rep (rs_cache st) ms" and "client_rep (rs_clients st) es" and "mi_len mi \<le> length (mi_msg mi)"
    and "length (rs_routers st) + length es \<le> length (udp_script w)"
  shows "\<exists>mi' st' w'. process_broadcast mi tok st w = Some (mi', st', w') \<and>
    rs_clients st' = rs_clients st \<and> rs_routers st' = rs_routers st \<and>
    (if \<not> may_hop (mi_msg mi ! a) then mi' = mi \<and> st' = st \<and> w' = w
     else mi_msg mi' = (mi_msg mi)[a := next_char (mi_msg mi ! a)] \<and>
       schar (mi_msg mi' ! a) = schar (mi_msg mi ! a) + 1 \<and> schar (mi_msg mi' ! a) \<le> schar CHR ''3'' \<and>
       (\<not> hits_last msg_delta_equals ident ms \<longrightarrow> msg_rep (rs_cache st') (spec_update msg_delta_equals 10 ident ms)) \<and>
       dgrams w' = dgrams w @ (if list_ex (\<lambda>e. msg_delta_equals (fst e) ident) ms then []
         else delivered (filter (\<lambda>r. \<not> ip_addr_equals r (mi_addr mi)) (rs_routers st) @ map fst es) (udp_script w)
           (take (mi_len mi) ((mi_msg mi)[a := next_char (mi_msg mi ! a)]))))"
proof (cases "may_hop (mi_msg mi ! a)")
  case False
  then show ?thesis using process_broadcast_dropped [OF assms(1)] by simp
next
  case True
  let ?mi = "mi\<lparr>mi_msg := (mi_msg mi)[a := next_char (mi_msg mi ! a)]\<rparr>"
  obtain M where M: "cache_msg ident (rs_cache st) = Some (if list_ex (\<lambda>e. msg_delta_equals (fst e) ident) ms then 1 else 0, M)"
    "\<not> hits_last msg_delta_equals ident ms \<longrightarrow> msg_rep M (spec_update msg_delta_equals 10 ident ms)"
    using cache_msg_rc [OF assms(3) jsmn_tokdup_NUL [OF assms(2)]] by blast
  obtain w' where "flood_message ?mi (rs_routers st) (rs_clients st) w = Some w'"
    "dgrams w' = dgrams w @ delivered (filter (\<lambda>r. \<not> ip_addr_equals r (mi_addr mi)) (rs_routers st) @ map fst es) (udp_script w)
      (take (mi_len mi) ((mi_msg mi)[a := next_char (mi_msg mi ! a)]))"
    using flood_message_rep [OF assms(4), of ?mi "rs_routers st" w] assms(5,6) by auto
  moreover have "a < length (mi_msg mi)" using assms(1) by (auto simp: bcast_fields_def)
  then have "schar (mi_msg ?mi ! a) = schar (mi_msg mi ! a) + 1" "schar (mi_msg ?mi ! a) \<le> schar CHR ''3''"
    using next_char_schar [OF True] True by (simp_all add: may_hop_def)
  ultimately show ?thesis using True process_broadcast_hop [OF assms(1) True assms(2) M(1)] M(2) by simp
qed

section \<open>Properties\<close>

text \<open>C33. Broadcast, every branch, for intact tables and a message whose length field \<open>mi_len\<close> does not exceed its buffer (it is set for
  a datagram and left uninitialised for a connection): a message whose hops digit is not 0, 1 or 2 changes nothing. Any
  other has the digit raised by one in place, to 3 at most, so that no copy of a message is forwarded more than three times,
  and its identifier entered in the cache with a full interval
  (unless the identifier is the last of several there, where \<open>delta_update\<close> loses it); it is
  forwarded, with the new digit, to the routers and clients when the identifier was not in the cache, and
  to nobody when it was.\<close>

theorem router_broadcast:
  assumes "bcast_fields (mi_msg mi) tok a ti"
    and "jsmn_tokdup ((mi_msg mi)[a := next_char (mi_msg mi ! a)]) ti = Some ident"
    and "msg_rep (rs_cache st) ms" and "client_rep (rs_clients st) es" and "mi_len mi \<le> length (mi_msg mi)"
    and "length (rs_routers st) + length es \<le> length (udp_script w)"
  shows "\<exists>mi' st' w'. process_broadcast mi tok st w = Some (mi', st', w') \<and>
    rs_clients st' = rs_clients st \<and> rs_routers st' = rs_routers st \<and>
    (if \<not> may_hop (mi_msg mi ! a) then mi' = mi \<and> st' = st \<and> w' = w
     else mi_msg mi' = (mi_msg mi)[a := next_char (mi_msg mi ! a)] \<and>
       schar (mi_msg mi' ! a) = schar (mi_msg mi ! a) + 1 \<and> schar (mi_msg mi' ! a) \<le> schar CHR ''3'' \<and>
       (\<not> hits_last msg_delta_equals ident ms \<longrightarrow> msg_rep (rs_cache st') (spec_update msg_delta_equals 10 ident ms)) \<and>
       dgrams w' = dgrams w @ (if list_ex (\<lambda>e. msg_delta_equals (fst e) ident) ms then []
         else delivered (filter (\<lambda>r. \<not> ip_addr_equals r (mi_addr mi)) (rs_routers st) @ map fst es) (udp_script w)
           (take (mi_len mi) ((mi_msg mi)[a := next_char (mi_msg mi ! a)]))))"
  by (rule process_broadcast_rep [OF assms])

definition bmsg :: string where
  \<open>bmsg = ''{"method":"broadcast","hops":1,"id":"ab"}''\<close>

definition btoks :: "jsmntok_t list" where
  "btoks = [mk_tok JSMN_OBJECT 0 41 6, mk_tok JSMN_STRING 2 8 0, mk_tok JSMN_STRING 11 20 0,
    mk_tok JSMN_STRING 23 27 0, mk_tok JSMN_PRIMITIVE 29 30 0, mk_tok JSMN_STRING 32 34 0, mk_tok JSMN_STRING 37 39 0]"

lemma bmsg_fields: "bcast_fields (bmsg @ [NUL]) btoks 29 (mk_tok JSMN_STRING 37 39 0)"
proof -
  let ?ks = "KCons [] (JStr ''method'') (KCons '':'' (JStr ''broadcast'') (KCons '','' (JStr ''hops'') (KCons '':'' (JPrim ''1'')
    (KCons '','' (JStr ''id'') (KCons '':'' (JStr ''ab'') (KNil []))))))"
  have m: "bmsg @ [NUL] = [] @ render (JCont True ?ks) @ [NUL]" by (simp add: bmsg_def)
  have t: "btoks = toks_of (length []) (JCont True ?ks) @ []" by (simp add: btoks_def mk_tok_def)
  have "jsmn_get_value (bmsg @ [NUL]) btoks ''hops'' = Some 4" "jsmn_get_value (bmsg @ [NUL]) btoks ''id'' = Some 6"
    using jsmn_get_value_doc [OF m t, of "''hops''"] jsmn_get_value_doc [OF m t, of "''id''"] by simp_all
  then show ?thesis by (simp add: bcast_fields_def btoks_def rd_tok_def) (simp add: mk_tok_def bmsg_def)
qed

lemma bmsg_facts:
  "next_char CHR ''1'' = CHR ''2''" "(bmsg @ [NUL]) ! 29 = CHR ''1''"
  "(bmsg @ [NUL])[29 := CHR ''2''] = ''{\"method\":\"broadcast\",\"hops\":2,\"id\":\"ab\"}'' @ [NUL]"
  "jsmn_tokdup (''{\"method\":\"broadcast\",\"hops\":2,\"id\":\"ab\"}'' @ [NUL]) (mk_tok JSMN_STRING 37 39 0) = Some (''ab'' @ [NUL])"
  "may_hop CHR ''1''" "\<not> ip_addr_equals (sa4 9 2) (sa4 9 1)"
proof -
  show "next_char CHR ''1'' = CHR ''2''" by code_simp
  show "may_hop CHR ''1''" by (simp add: may_hop_def) (simp add: schar_def)
qed (simp_all add: bmsg_def jsmn_tokdup_def ptr_at_def rd_bytes_def jsmn_toklen_def mk_tok_def ip_addr_equals_def sa4_def)

abbreviation bstate :: router_state where
  "bstate \<equiv> \<lparr>rs_clients = client_table, rs_cache = msg_cache, rs_routers = [sa4 9 2]\<rparr>"

lemma router_broadcast_witness:
  \<open>\<exists>mi' st' w'. process_broadcast (udp_msg (sa4 9 1) bmsg) btoks bstate (udp_net [UdpSent]) = Some (mi', st', w') \<and>
    dgrams w' = [(sa4 9 2, ''{"method":"broadcast","hops":2,"id":"ab"}'')]\<close>
  using router_broadcast [of "udp_msg (sa4 9 1) bmsg" btoks 29 "mk_tok JSMN_STRING 37 39 0" "''ab'' @ [NUL]"
      bstate "[]" "[]" "udp_net [UdpSent]"] bmsg_fields msg_cache_rep client_table_rep bmsg_facts
  by (auto simp: udp_msg_def udp_net_def delivered_def bmsg_def)

end
