(* ===== verification/Server.thy ===== *)
theory Server
  imports Network
begin

unbundle bit_operations_syntax

text \<open>
  The servers, \<^verbatim>\<open>src/common/server.c\<close>: one thread accepts connections, one receives datagrams,
  and each hands its message to a callback in a thread of its own, as long as the shared counter
  \<open>num_threads\<close> is below the limit. The results of the system calls are events. The counter is
  tested and changed under its mutex, so that this is one step; between it and \<open>pthread_create\<close>
  the message is held by the main thread (\<open>tcp_new\<close>, \<open>udp_new\<close>), and other threads may run.
  \<open>lost\<close> counts the calls of \<open>pthread_create\<close> that failed; the program does not have it.
\<close>

section \<open>Opening the sockets\<close>

text \<open>What happens to one address that \<open>getaddrinfo\<close> offers, and the outcome of the whole
  function: it ends the process, or returns the socket of an address (here its position).\<close>

datatype sock_event = SocketFails | SetsockoptFails | BindFails | Binds

datatype init_result = InitExit | InitSock nat

fun bind_loop :: "sock_event list \<Rightarrow> nat \<Rightarrow> init_result" where
  "bind_loop [] i = InitExit"
| "bind_loop (SocketFails # evs) i = bind_loop evs (Suc i)"
| "bind_loop (SetsockoptFails # evs) i = InitExit"
| "bind_loop (BindFails # evs) i = bind_loop evs (Suc i)"
| "bind_loop (Binds # evs) i = InitSock i"

text \<open>\<open>None\<close> as the list of addresses: \<open>getaddrinfo\<close> failed.\<close>

definition tcp_server_init :: "sock_event list option \<Rightarrow> bool \<Rightarrow> init_result" where
  "tcp_server_init gai listens =
     (case gai of
        None \<Rightarrow> InitExit
      | Some evs \<Rightarrow>
          (case bind_loop evs 0 of
             InitExit \<Rightarrow> InitExit
           | InitSock i \<Rightarrow> if listens then InitSock i else InitExit))"

section \<open>The threads\<close>

datatype worker = Conn msg_info | Dgram msg_info

record server =
  num_threads :: int
  udp_up :: bool
  tcp_new :: "msg_info option"
  udp_new :: "msg_info option"
  workers :: "worker list"
  lost :: nat

text \<open>\<open>main\<close> sets the counter to 0 before it starts the threads.\<close>

definition boot :: server where
  "boot = \<lparr>num_threads = 0, udp_up = False, tcp_new = None, udp_new = None, workers = [], lost = 0\<rparr>"

text \<open>\<open>udp_server_init\<close> runs in the thread of the datagram server, at any time after that.\<close>

definition udp_server_init :: "sock_event list option \<Rightarrow> server \<Rightarrow> init_result \<times> server" where
  "udp_server_init gai s =
     (case gai of
        None \<Rightarrow> (InitExit, s)
      | Some evs \<Rightarrow>
          (case bind_loop evs 0 of
             InitExit \<Rightarrow> (InitExit, s)
           | InitSock i \<Rightarrow> (InitSock i, s\<lparr>num_threads := 0, udp_up := True\<rparr>)))"

text \<open>The memory that \<open>malloc\<close> returns has any contents.\<close>

datatype accept_event = AcceptErr | Accepted msg_info sockaddr_storage

definition tcp_accept :: "int \<Rightarrow> accept_event \<Rightarrow> server \<Rightarrow> server" where
  "tcp_accept max_threads ev s =
     (case ev of
        AcceptErr \<Rightarrow> s
      | Accepted mem sa \<Rightarrow>
          let targ = mem\<lparr>mi_addr := sa\<rparr> in
          if num_threads s \<ge> max_threads then s
          else s\<lparr>num_threads := num_threads s + 1, tcp_new := Some targ\<rparr>)"

definition tcp_create :: "bool \<Rightarrow> server \<Rightarrow> server" where
  "tcp_create ok s =
     (case tcp_new s of
        None \<Rightarrow> s
      | Some targ \<Rightarrow>
          if ok then s\<lparr>tcp_new := None, workers := Conn targ # workers s\<rparr>
          else s\<lparr>tcp_new := None, lost := lost s + 1\<rparr>)"

text \<open>\<open>recvfrom\<close> with the length of a \<open>sockaddr_in\<close>: of an IPv6 address only the first eight
  bytes arrive, the others keep what was in the memory.\<close>

definition recv_addr :: "sockaddr_storage \<Rightarrow> sockaddr_storage \<Rightarrow> sockaddr_storage" where
  "recv_addr mem sa =
     (if ss_family sa = AF_INET6
      then sa\<lparr>sin6_addr := push_bit 64 (drop_bit 64 (sin6_addr sa)) OR take_bit 64 (sin6_addr mem)\<rparr>
      else sa)"

text \<open>An address arrives whole if \<open>get_sockaddr_size\<close> of it is not more than that length.\<close>

lemma recv_addr_whole: "get_sockaddr_size sa \<le> sizeof_sockaddr_in \<Longrightarrow> recv_addr mem sa = sa"
  by (auto simp: recv_addr_def get_sockaddr_size_def sizeof_sockaddr_in_def sizeof_sockaddr_in6_def AF_INET_def AF_INET6_def split: if_splits)

datatype recvfrom_event = RecvFromErr | Received msg_info sockaddr_storage "char list"

definition recv_msg :: "msg_info \<Rightarrow> sockaddr_storage \<Rightarrow> char list \<Rightarrow> msg_info" where
  "recv_msg mem sa bytes =
     (let d = take (MSG_MAX - 1) bytes; rc = length d in
      mem\<lparr>mi_msg := d @ NUL # drop (rc + 1) (mi_msg mem), mi_addr := recv_addr (mi_addr mem) sa, mi_len := rc\<rparr>)"

definition udp_receive :: "int \<Rightarrow> recvfrom_event \<Rightarrow> server \<Rightarrow> server" where
  "udp_receive max_threads ev s =
     (case ev of
        RecvFromErr \<Rightarrow> s
      | Received mem sa bytes \<Rightarrow>
          if num_threads s \<ge> max_threads then s
          else s\<lparr>num_threads := num_threads s + 1, udp_new := Some (recv_msg mem sa bytes)\<rparr>)"

definition udp_create :: "bool \<Rightarrow> server \<Rightarrow> server" where
  "udp_create ok s =
     (case udp_new s of
        None \<Rightarrow> s
      | Some msg \<Rightarrow>
          if ok then s\<lparr>udp_new := None, workers := Dgram msg # workers s\<rparr>
          else s\<lparr>udp_new := None, lost := lost s + 1\<rparr>)"

text \<open>The end of a callback: it leaves the counter at \<open>n\<close>.\<close>

definition worker_exit :: "worker \<Rightarrow> int \<Rightarrow> server \<Rightarrow> server" where
  "worker_exit w n s = s\<lparr>num_threads := n, workers := remove1 w (workers s)\<rparr>"

inductive server_step :: "int \<Rightarrow> server \<Rightarrow> server \<Rightarrow> bool" for max_threads where
  init: "\<not> udp_up s \<Longrightarrow> udp_server_init (Some evs) s = (InitSock i, s') \<Longrightarrow> server_step max_threads s s'"
| accept: "tcp_new s = None \<Longrightarrow> server_step max_threads s (tcp_accept max_threads ev s)"
| create_tcp: "tcp_new s \<noteq> None \<Longrightarrow> server_step max_threads s (tcp_create ok s)"
| receive: "udp_up s \<Longrightarrow> udp_new s = None \<Longrightarrow> (\<forall>mem sa bytes. ev = Received mem sa bytes \<longrightarrow> length (mi_msg mem) = MSG_MAX) \<Longrightarrow>
    server_step max_threads s (udp_receive max_threads ev s)"
| create_udp: "udp_new s \<noteq> None \<Longrightarrow> server_step max_threads s (udp_create ok s)"
| exit: "w \<in> set (workers s) \<Longrightarrow> server_step max_threads s (worker_exit w (num_threads s - 1) s)"

abbreviation server_reach :: "int \<Rightarrow> server \<Rightarrow> server \<Rightarrow> bool" where
  "server_reach max_threads \<equiv> (server_step max_threads)\<^sup>*\<^sup>*"

lemmas server_ops = tcp_accept_def tcp_create_def udp_receive_def udp_create_def worker_exit_def udp_server_init_def Let_def

lemmas server_splits = accept_event.splits recvfrom_event.splits option.splits init_result.splits if_splits

inductive_cases server_stepE: "server_step mx s s'"

section \<open>Invariants\<close>

definition held :: "msg_info option \<Rightarrow> nat" where
  "held x = (if x = None then 0 else 1)"

text \<open>Every slot that is counted is a thread, a message on its way to one, or lost.\<close>

definition slots_ok :: "int \<Rightarrow> server \<Rightarrow> bool" where
  "slots_ok max_threads s \<longleftrightarrow>
     num_threads s = int (length (workers s) + held (tcp_new s) + held (udp_new s) + lost s) \<and>
     num_threads s \<le> max 0 max_threads \<and> udp_up s"

text \<open>A message buffer that holds a C string, whose length is the length field.\<close>

definition msg_ok :: "msg_info \<Rightarrow> bool" where
  "msg_ok mi \<longleftrightarrow> length (mi_msg mi) = MSG_MAX \<and> mi_len mi < MSG_MAX \<and> mi_msg mi ! mi_len mi = NUL"

definition dgrams_ok :: "server \<Rightarrow> bool" where
  "dgrams_ok s \<longleftrightarrow> (\<forall>mi. Dgram mi \<in> set (workers s) \<or> udp_new s = Some mi \<longrightarrow> msg_ok mi)"

lemma recv_msg_ok: "length (mi_msg mem) = MSG_MAX \<Longrightarrow> msg_ok (recv_msg mem sa bytes)"
  by (auto simp: msg_ok_def recv_msg_def Let_def MSG_MAX_def nth_append)

lemma slots_ok_step: "server_step mx s s' \<Longrightarrow> slots_ok mx s \<Longrightarrow> slots_ok mx s'"
proof (induction rule: server_step.induct)
  case (exit w s)
  then have "length (remove1 w (workers s)) + 1 = length (workers s)"
    by (simp add: length_remove1) (metis Suc_pred length_pos_if_in_set)
  then show ?case using exit by (auto simp: slots_ok_def worker_exit_def)
qed (auto simp: slots_ok_def held_def server_ops split: server_splits)

lemma dgrams_ok_step: "server_step mx s s' \<Longrightarrow> dgrams_ok s \<Longrightarrow> dgrams_ok s'"
proof (induction rule: server_step.induct)
  case (receive s ev)
  then show ?case
    by (auto simp: dgrams_ok_def udp_receive_def recv_msg_ok split: recvfrom_event.splits)
qed (auto simp: dgrams_ok_def server_ops dest: notin_set_remove1 set_remove1_subset [THEN subsetD] split: server_splits)

lemma reach_inv:
  assumes "server_reach mx s s'" and "\<And>a b. server_step mx a b \<Longrightarrow> P a \<Longrightarrow> P b" and "P s"
  shows "P s'"
  using assms(1,3) by (induction rule: rtranclp_induct) (auto intro: assms(2))

lemma dgrams_ok_reach: "server_reach mx boot s \<Longrightarrow> dgrams_ok s"
  by (erule reach_inv) (auto simp: dgrams_ok_step, simp add: dgrams_ok_def boot_def)


text \<open>A slot whose \<open>pthread_create\<close> failed is never given back: once all of them are lost, no
  connection and no datagram is served again.\<close>

lemma all_lost:
  assumes "server_reach mx s s'" "slots_ok mx s" "mx \<le> int (lost s)" "0 \<le> mx"
  shows "workers s' = [] \<and> tcp_new s' = None \<and> udp_new s' = None"
proof -
  have "slots_ok mx s' \<and> mx \<le> int (lost s')"
  proof (rule reach_inv [OF assms(1)])
    fix a b
    assume st: "server_step mx a b" and P: "slots_ok mx a \<and> mx \<le> int (lost a)"
    have "lost a \<le> lost b" using st by (elim server_stepE) (auto simp: server_ops split: server_splits)
    then show "slots_ok mx b \<and> mx \<le> int (lost b)" using slots_ok_step [OF st] P by auto
  qed (use assms in simp)
  then have "num_threads s' \<le> int (lost s')" "num_threads s' =
      int (length (workers s') + held (tcp_new s') + held (udp_new s') + lost s')"
    using assms(4) by (auto simp: slots_ok_def)
  then have "length (workers s') = 0" "held (tcp_new s') = 0" "held (udp_new s') = 0" by linarith+
  then show ?thesis by (auto simp: held_def split: if_splits)
qed

text \<open>Any number of connections up to the limit, and the end of all callbacks.\<close>

lemma accept_many:
  "tcp_new s = None \<Longrightarrow> num_threads s + int j \<le> mx \<Longrightarrow>
   server_reach mx s (s\<lparr>num_threads := num_threads s + int j, workers := replicate j (Conn (mem\<lparr>mi_addr := sa\<rparr>)) @ workers s\<rparr>)"
proof (induction j)
  case (Suc j)
  let ?w = "Conn (mem\<lparr>mi_addr := sa\<rparr>)"
  let ?s1 = "s\<lparr>num_threads := num_threads s + int j, workers := replicate j ?w @ workers s\<rparr>"
  let ?s2 = "tcp_accept mx (Accepted mem sa) ?s1"
  have "server_step mx ?s1 ?s2" by (rule server_step.accept) (use Suc.prems in simp)
  moreover have "server_step mx ?s2 (tcp_create True ?s2)"
    by (rule server_step.create_tcp) (use Suc.prems in \<open>simp add: tcp_accept_def Let_def\<close>)
  moreover have "server_reach mx s ?s1" using Suc by simp
  ultimately have "server_reach mx s (tcp_create True ?s2)" by (meson rtranclp.rtrancl_into_rtrancl)
  moreover have "tcp_create True ?s2 =
      s\<lparr>num_threads := num_threads s + int (Suc j), workers := replicate (Suc j) ?w @ workers s\<rparr>"
    using Suc.prems by (simp add: tcp_accept_def tcp_create_def Let_def)
  ultimately show ?case by simp
qed simp

lemma exit_all:
  "server_reach mx s (s\<lparr>num_threads := num_threads s - int (length (workers s)), workers := []\<rparr>)"
proof (induction "workers s" arbitrary: s)
  case Nil
  then have "s\<lparr>num_threads := num_threads s - int (length (workers s)), workers := []\<rparr> = s" by simp
  then show ?case by simp
next
  case (Cons w ws)
  let ?s1 = "worker_exit w (num_threads s - 1) s"
  have "server_step mx s ?s1" by (rule server_step.exit) (simp flip: Cons.hyps(2))
  moreover have ws: "workers ?s1 = ws" by (simp add: worker_exit_def flip: Cons.hyps(2))
  moreover have "?s1\<lparr>num_threads := num_threads ?s1 - int (length (workers ?s1)), workers := []\<rparr> =
      s\<lparr>num_threads := num_threads s - int (length (workers s)), workers := []\<rparr>"
    unfolding ws by (simp add: worker_exit_def flip: Cons.hyps(2))
  ultimately show ?case using Cons.hyps(1) [of ?s1] converse_rtranclp_into_rtranclp [of "server_step mx" s ?s1] by simp
qed

section \<open>Properties\<close>

text \<open>C37. When the datagram server has been set up before the first connection, the counter of threads
  is exact in every reachable state, whatever the interleaving of the two servers and the
  callbacks: it counts the running callbacks, the messages on their way to one and the slots lost
  to a failed \<open>pthread_create\<close>. So it is never negative and no more than \<open>max_threads\<close> callbacks
  run at a time; and every datagram handed to a callback is a C string that fits its buffer.\<close>

theorem server_thread_limit:
  assumes "server_reach max_threads (boot\<lparr>udp_up := True\<rparr>) s"
  shows "num_threads s = int (length (workers s) + held (tcp_new s) + held (udp_new s) + lost s) \<and>
    0 \<le> num_threads s \<and> int (length (workers s)) \<le> max 0 max_threads \<and>
    (\<forall>mi. Dgram mi \<in> set (workers s) \<longrightarrow> msg_ok mi)"
proof -
  have "slots_ok max_threads s"
    by (rule reach_inv [OF assms slots_ok_step]) (auto simp: slots_ok_def boot_def held_def)
  moreover have "dgrams_ok s"
    by (rule reach_inv [OF assms dgrams_ok_step]) (auto simp: dgrams_ok_def boot_def)
  ultimately show ?thesis by (auto simp: slots_ok_def dgrams_ok_def)
qed

definition blank_msg :: msg_info where
  "blank_msg = \<lparr>mi_socktype = SOCK_DGRAM, mi_len = 0,
     mi_addr = \<lparr>ss_family = AF_INET, sin_addr = 0, sin_port = 0, sin6_addr = 0, sin6_port = 0\<rparr>, mi_msg = replicate 512 NUL\<rparr>"

lemma server_thread_limit_witness:
  "\<exists>s mi. server_reach 1 (boot\<lparr>udp_up := True\<rparr>) s \<and> workers s = [Dgram mi] \<and> msg_ok mi \<and>
     take 3 (mi_msg mi) = ''hi'' @ [NUL] \<and> num_threads s = 1"
proof -
  let ?sa = "mi_addr blank_msg" and ?b = "boot\<lparr>udp_up := True\<rparr>"
  let ?s1 = "udp_receive 1 (Received blank_msg ?sa ''hi'') ?b"
  have "server_step 1 ?b ?s1" by (rule server_step.receive) (auto simp: boot_def blank_msg_def MSG_MAX_def)
  moreover have "server_step 1 ?s1 (udp_create True ?s1)"
    by (rule server_step.create_udp) (simp add: udp_receive_def boot_def)
  ultimately have r: "server_reach 1 ?b (udp_create True ?s1)" by (meson converse_rtranclp_into_rtranclp r_into_rtranclp)
  have "workers (udp_create True ?s1) = [Dgram (recv_msg blank_msg ?sa ''hi'')]" "num_threads (udp_create True ?s1) = 1"
    by (simp_all add: udp_create_def udp_receive_def boot_def)
  moreover have "take 3 (mi_msg (recv_msg blank_msg ?sa ''hi'')) = ''hi'' @ [NUL]"
    by (simp add: recv_msg_def Let_def MSG_MAX_def numeral_eq_Suc)
  ultimately show ?thesis using server_thread_limit [OF r] r by auto
qed

text \<open>C38. \<open>udp_server_init\<close> sets the counter to 0 again although the connection server may already
  run: when \<open>max_threads\<close> connections are accepted before it, as many again are accepted after
  it, so that twice the limit of callbacks run; when they have ended the counter is
  \<open>-max_threads\<close>.\<close>

theorem late_udp_init_doubles_limit:
  "\<exists>s s'. server_reach (int k) boot s \<and> length (workers s) = 2 * k \<and>
     server_reach (int k) s s' \<and> workers s' = [] \<and> num_threads s' = - int k"
proof -
  let ?ws = "\<lambda>n. replicate n (Conn (blank_msg\<lparr>mi_addr := mi_addr blank_msg\<rparr>))"
  let ?s1 = "boot\<lparr>num_threads := int k, workers := ?ws k\<rparr>"
  let ?s2 = "boot\<lparr>num_threads := 0, udp_up := True, workers := ?ws k\<rparr>"
  let ?s3 = "boot\<lparr>num_threads := int k, udp_up := True, workers := ?ws k @ ?ws k\<rparr>"
  have "server_reach (int k) boot ?s1"
    using accept_many [of boot k "int k" "mi_addr blank_msg" blank_msg] by (simp add: boot_def)
  moreover have "server_step (int k) ?s1 ?s2"
    by (rule server_step.init [of _ "[Binds]" 0]) (simp_all add: udp_server_init_def boot_def)
  moreover have "server_reach (int k) ?s2 ?s3"
    using accept_many [of ?s2 k "int k" "mi_addr blank_msg" blank_msg] by (simp add: boot_def)
  ultimately have "server_reach (int k) boot ?s3" by (meson rtranclp.rtrancl_into_rtrancl rtranclp_trans)
  moreover have "server_reach (int k) ?s3 (?s3\<lparr>num_threads := - int k, workers := []\<rparr>)"
    using exit_all [of "int k" ?s3] by simp
  ultimately show ?thesis by (intro exI [of _ ?s3] exI [of _ "?s3\<lparr>num_threads := - int k, workers := []\<rparr>"]) simp
qed

end
