(* ===== verification/Datagram_Safety.thy ===== *)
theory Datagram_Safety
  imports Jsmn_Forest Tracker_Service Router_Service Server
begin

text \<open>
  Robustness of the two services against what arrives on the network: for every datagram that the
  server hands to a callback, well formed or not, the callback returns without touching memory
  outside its buffers, and gives its thread back to the server.
\<close>

section \<open>Tables\<close>

text \<open>Updates and removals are defined on every table, also for the last of several elements, where
  they damage it.\<close>

context delta_table
begin

lemma delta_update_defined:
  assumes "rep t es" "valid d"
  shows "\<exists>rc t'. delta_update d t = Some (rc, t')"
proof (cases "hits_last equals d es")
  case True
  then obtain fs e where es: "es = fs @ [e]" "fs \<noteq> []" "equals (fst e) d"
    by (cases es rule: rev_cases) (auto simp: hits_last_def Suc_le_length_iff)
  have "rep t (fs @ [e])" using assms(1) es(1) by simp
  then obtain t' where "delta_update d t = Some (1, t')" by (rule delta_update_last [OF _ es(2,3)])
  then show ?thesis by blast
next
  case False
  then show ?thesis using assms delta_update_total [of t es d] by blast
qed

lemma delta_remove_defined:
  assumes "rep t es"
  shows "\<exists>rc t'. delta_remove d t = Some (rc, t')"
proof (cases "list_ex (\<lambda>e. equals (fst e) d) es")
  case False
  then show ?thesis using delta_remove_miss [OF assms] by blast
next
  case True
  obtain xs where xs: "core t xs []" "es = tbl_entries t xs" using assms by (rule repE)
  then obtain a where "a \<in> set xs" "equals (the (dat t a)) d" using True miss_keys [of d t xs] by blast
  then obtain as bs where "xs = as @ a # bs" by (auto dest: split_list)
  then obtain t' where "delta_delete d t = Some (0, t')"
    using xs(1) \<open>equals (the (dat t a)) d\<close> delta_delete_gen [of t as a bs d] by metis
  then show ?thesis by (simp add: delta_remove_def)
qed

end

lemma make_client_total:
  assumes "NUL \<in> set port"
  shows "\<exists>rc c. make_client addr port = Some (rc, c) \<and> (inet_family addr \<longrightarrow> inet_family c)"
proof -
  obtain v c e where "c_strtol port = Some (v, c # e)" using c_strtol_total [OF assms] by blast
  then show ?thesis by (auto simp: make_client_def rd_def inet_family_def set_in_port_def)
qed

lemma add_client_total:
  assumes "NUL \<in> set port" "client_rep T es" "inet_family addr"
  shows "\<exists>rc T'. add_client addr port T = Some (rc, T')"
proof -
  obtain rc c where c: "make_client addr port = Some (rc, c)" "inet_family c"
    using make_client_total [OF assms(1)] assms(3) by blast
  obtain u T' where "delta_update c T = Some (u, T')" using client.delta_update_defined [OF assms(2) c(2)] by blast
  then show ?thesis using c(1) by (auto simp: add_client_def)
qed

lemma remove_client_total:
  assumes "NUL \<in> set port" "client_rep T es"
  shows "\<exists>rc T'. remove_client addr port T = Some (rc, T')"
proof -
  obtain rc c where c: "make_client addr port = Some (rc, c)" using make_client_total [OF assms(1)] by blast
  obtain u T' where "delta_remove c T = Some (u, T')" using client.delta_remove_defined [OF assms(2)] by blast
  then show ?thesis using c by (auto simp: remove_client_def)
qed

section \<open>Requests\<close>

lemma parse_message_total:
  assumes nul: "NUL \<in> set msg" and tok: "ntok \<le> length tok" and c: "c \<in> set (cstr msg)" "\<not> sep_char c"
  shows "\<exists>m tok' n. parse_message msg tok ntok = Some (m, tok', n) \<and>
    (m = -1 \<or> 0 < m \<and> m < int n \<and> shaped (slen msg) n tok')"
proof -
  obtain r p toks where r: "jsmn_parse jsmn_init msg tok ntok = Some (r, p, toks)" "length toks = length tok"
    using jsmn_parse_defined [OF nul tok] by blast
  show ?thesis
  proof (cases "r = JSMN_SUCCESS")
    case False
    then show ?thesis using r by (simp add: parse_message_def)
  next
    case True
    have sh: "shaped (slen msg) (toknext p) toks" using jsmn_parse_shaped [OF nul tok] r True by simp
    have n: "0 < toknext p" using jsmn_parse_tokens [OF nul tok _ c] r True by simp
    have "toknext p \<le> length toks" using sh by (simp add: shaped_def)
    then have t: "rd_tok toks 0 = Some (toks ! 0)" using n by (auto simp: rd_tok_def)
    have e: "slen msg < length msg" "msg ! slen msg = NUL" using slen_less [OF nul] nth_slen [OF nul] by auto
    obtain v where "jsmn_get_value msg toks ''method'' = Some v" "v = -1 \<or> 0 < v \<and> v < int (toknext p)"
      using jsmn_get_value_total [OF sh n e, of "''method''"] by auto
    then show ?thesis using r True t sh by (auto simp: parse_message_def)
  qed
qed

text \<open>A buffer that has a NUL at \<open>e\<close>, with tokens that lie before it.\<close>

definition req_ok :: "nat \<Rightarrow> nat \<Rightarrow> jsmntok_t list \<Rightarrow> char list \<Rightarrow> bool" where
  "req_ok e n tok msg \<longleftrightarrow> shaped e n tok \<and> 0 < n \<and> e < length msg \<and> msg ! e = NUL"

lemma req_token:
  assumes "req_ok e n tok msg" "0 < m" "m < int n"
  obtains t where "rd_tok tok (nat m) = Some t" "0 \<le> tok_start t" "tok_start t \<le> tok_end t" "tok_end t \<le> int e"
proof -
  have "nat m < n" using assms by linarith
  then show ?thesis using assms(1) by (intro that [of "tok ! nat m"]) (auto simp: req_ok_def shaped_def rd_tok_def)
qed

lemma req_ptr:
  assumes "req_ok e n tok msg" "0 \<le> k" "k \<le> int e"
  obtains p where "ptr_at msg k = Some p" "p = drop (nat k) msg" "NUL \<in> set p"
proof -
  have "drop (nat k) msg ! (e - nat k) = NUL" "e - nat k < length (drop (nat k) msg)"
    using assms by (auto simp: req_ok_def)
  then have "NUL \<in> set (drop (nat k) msg)" by (metis nth_mem)
  then show ?thesis using assms by (intro that [of "drop (nat k) msg"]) (auto simp: ptr_at_def req_ok_def)
qed

lemma cmd_equal_total:
  assumes "req_ok e n tok (mi_msg mi)" "0 < m" "m < int n" "NUL \<notin> set cmd"
  shows "\<exists>b. cmd_equal mi tok m cmd = Some b"
proof -
  obtain t where t: "rd_tok tok (nat m) = Some t" "0 \<le> tok_start t" "tok_start t \<le> tok_end t" "tok_end t \<le> int e"
    using req_token [OF assms(1-3)] by blast
  obtain p where p: "ptr_at (mi_msg mi) (tok_start t) = Some p" "NUL \<in> set p"
    using req_ptr [OF assms(1) t(2)] t(3,4) by (metis order_trans)
  then obtain b where "strncmp_eq p cmd = Some b" using strncmp_total assms(4) by blast
  then show ?thesis using t(1) p by (auto simp: cmd_equal_def jsmn_tokeq_def)
qed

lemma get_value_req:
  assumes "req_ok e n tok msg" "NUL \<notin> set key"
  shows "\<exists>v. jsmn_get_value msg tok key = Some v \<and> (v = -1 \<or> 0 < v \<and> v < int n)"
  using jsmn_get_value_total [of e n tok msg key] assms by (simp add: req_ok_def)

lemma put_nul_total:
  assumes req: "req_ok e n tok (mi_msg mi)" and t: "0 \<le> tok_start t" "tok_start t \<le> tok_end t" "tok_end t \<le> int e"
  shows "\<exists>mi' p. put_nul t mi = Some mi' \<and> mi_addr mi' = mi_addr mi \<and> req_ok e n tok (mi_msg mi') \<and>
    ptr_at (mi_msg mi') (tok_start t) = Some p \<and> NUL \<in> set p \<and> length (mi_msg mi') = length (mi_msg mi)"
proof -
  let ?mi = "mi\<lparr>mi_msg := (mi_msg mi)[nat (tok_end t) := NUL]\<rparr>"
  have l: "nat (tok_end t) < length (mi_msg mi)" "\<not> tok_end t < 0" using req t unfolding req_ok_def by linarith+
  then have "put_nul t mi = Some ?mi" by (simp add: put_nul_def wr_def)
  moreover have r: "req_ok e n tok (mi_msg ?mi)" using req l by (auto simp: req_ok_def nth_list_update)
  moreover obtain p where "ptr_at (mi_msg ?mi) (tok_start t) = Some p" "NUL \<in> set p"
    using req_ptr [OF r t(1)] t by (metis order_trans)
  ultimately show ?thesis by auto
qed

text \<open>A number in a request: none, or a token that is made a C string in place.\<close>

lemma req_port:
  assumes req: "req_ok e n tok (mi_msg mi)" and key: "NUL \<notin> set key"
  shows "jsmn_get_value (mi_msg mi) tok key = Some (-1) \<or>
    (\<exists>m t mi' p. jsmn_get_value (mi_msg mi) tok key = Some m \<and> m \<noteq> -1 \<and> rd_tok tok (nat m) = Some t \<and>
      put_nul t mi = Some mi' \<and> mi_addr mi' = mi_addr mi \<and> ptr_at (mi_msg mi') (tok_start t) = Some p \<and> NUL \<in> set p \<and>
      req_ok e n tok (mi_msg mi') \<and> length (mi_msg mi') = length (mi_msg mi) \<and> 0 \<le> tok_start t \<and> tok_start t \<le> int e)"
proof -
  obtain m where m: "jsmn_get_value (mi_msg mi) tok key = Some m" "m = -1 \<or> 0 < m \<and> m < int n"
    using get_value_req [OF req key] by blast
  show ?thesis
  proof (cases "m = -1")
    case False
    then have m': "0 < m" "m < int n" using m by auto
    obtain t where t: "rd_tok tok (nat m) = Some t" "0 \<le> tok_start t" "tok_start t \<le> tok_end t" "tok_end t \<le> int e"
      using req_token [OF req m'] by blast
    have "tok_start t \<le> int e" using t(3,4) by linarith
    then show ?thesis using put_nul_total [OF req t(2-4)] m(1) False t(1,2) by blast
  qed (use m in simp)
qed

lemma tracker_methods_total:
  assumes req: "req_ok e n tok (mi_msg mi)" and rep: "client_rep T es" and fam: "inet_family (mi_addr mi)"
  shows "\<exists>r. Tracker_Service.process_connect mi tok T = Some r" "\<exists>r. process_disconnect mi tok T = Some r"
proof -
  have k: "NUL \<notin> set ''port''" by simp
  note P = req_port [OF req k]
  show "\<exists>r. Tracker_Service.process_connect mi tok T = Some r"
    using P
  proof (elim disjE exE conjE)
    fix m t mi' p
    assume a: "jsmn_get_value (mi_msg mi) tok ''port'' = Some m" "m \<noteq> -1" "rd_tok tok (nat m) = Some t"
      "put_nul t mi = Some mi'" "mi_addr mi' = mi_addr mi" "ptr_at (mi_msg mi') (tok_start t) = Some p" "NUL \<in> set p"
    obtain rc T' where "add_client (mi_addr mi) p T = Some (rc, T')" using add_client_total [OF a(7) rep fam] by blast
    then show ?thesis using a by (simp add: Tracker_Service.process_connect_def)
  qed (simp add: Tracker_Service.process_connect_def)
  show "\<exists>r. process_disconnect mi tok T = Some r"
    using P
  proof (elim disjE exE conjE)
    fix m t mi' p
    assume a: "jsmn_get_value (mi_msg mi) tok ''port'' = Some m" "m \<noteq> -1" "rd_tok tok (nat m) = Some t"
      "put_nul t mi = Some mi'" "mi_addr mi' = mi_addr mi" "ptr_at (mi_msg mi') (tok_start t) = Some p" "NUL \<in> set p"
    obtain rc T' where "remove_client (mi_addr mi) p T = Some (rc, T')" using remove_client_total [OF a(7) rep] by blast
    then show ?thesis using a by (simp add: process_disconnect_def)
  qed (simp add: process_disconnect_def)
qed

lemma tracker_message_total:
  assumes nul: "NUL \<in> set (mi_msg mi)" and c: "c \<in> set (cstr (mi_msg mi))" "\<not> sep_char c"
    and tok: "JSMN_NTOK \<le> length tok" and rep: "client_rep T es" and fam: "inet_family (mi_addr mi)"
  shows "\<exists>T'. Tracker_Service.serve_message tok mi T k = Some (T', k - 1)"
proof -
  obtain m tok' n where p: "parse_message (mi_msg mi) tok JSMN_NTOK = Some (m, tok', n)"
    "m = -1 \<or> 0 < m \<and> m < int n \<and> shaped (slen (mi_msg mi)) n tok'"
    using parse_message_total [OF nul tok c] by blast
  show ?thesis
  proof (cases "m = -1")
    case True
    then show ?thesis using p by (simp add: Tracker_Service.serve_message_def)
  next
    case False
    then have m: "0 < m" "m < int n" and sh: "shaped (slen (mi_msg mi)) n tok'" using p by auto
    have req: "req_ok (slen (mi_msg mi)) n tok' (mi_msg mi)"
      using sh m slen_less [OF nul] nth_slen [OF nul] by (auto simp: req_ok_def)
    obtain b1 where b1: "cmd_equal mi tok' m ''connect'' = Some b1" using cmd_equal_total [OF req m] by force
    obtain b2 where b2: "cmd_equal mi tok' m ''disconnect'' = Some b2" using cmd_equal_total [OF req m] by force
    show ?thesis using tracker_methods_total [OF req rep fam] p(1) False b1 b2
      by (auto simp: Tracker_Service.serve_message_def)
  qed
qed

lemma process_broadcast_total:
  assumes req: "req_ok e n tok (mi_msg mi)" and ms: "msg_rep (rs_cache st) ms" and es: "client_rep (rs_clients st) es"
    and len: "mi_len mi \<le> length (mi_msg mi)" and net: "length (rs_routers st) + length es \<le> length (udp_script w)"
  shows "\<exists>r. process_broadcast mi tok st w = Some r"
proof -
  obtain h where h: "jsmn_get_value (mi_msg mi) tok ''hops'' = Some h" "h = -1 \<or> 0 < h \<and> h < int n"
    using get_value_req [OF req, of "''hops''"] by auto
  obtain i where i: "jsmn_get_value (mi_msg mi) tok ''id'' = Some i" "i = -1 \<or> 0 < i \<and> i < int n"
    using get_value_req [OF req, of "''id''"] by auto
  show ?thesis
  proof (cases "h = -1 \<or> i = -1")
    case True
    then show ?thesis using h(1) i(1) by (auto simp: process_broadcast_def)
  next
    case False
    then have hi: "0 < h" "h < int n" "0 < i" "i < int n" using h i by auto
    obtain th where th: "rd_tok tok (nat h) = Some th" "0 \<le> tok_start th" "tok_start th \<le> int e"
      using req_token [OF req hi(1,2)] by (metis order_trans)
    obtain ti where ti: "rd_tok tok (nat i) = Some ti" "0 \<le> tok_start ti" "tok_start ti \<le> tok_end ti" "tok_end ti \<le> int e"
      using req_token [OF req hi(3,4)] by blast
    have el: "e < length (mi_msg mi)" using req by (simp add: req_ok_def)
    let ?a = "nat (tok_start th)"
    have f: "bcast_fields (mi_msg mi) tok ?a ti"
      using h(1) i(1) False th ti el by (auto simp: bcast_fields_def)
    have "\<exists>ident. jsmn_tokdup ((mi_msg mi)[?a := next_char (mi_msg mi ! ?a)]) ti = Some ident"
      using ti el by (auto simp: jsmn_tokdup_def ptr_at_def rd_bytes_def jsmn_toklen_def)
    then show ?thesis using process_broadcast_rep [OF f _ ms es len net] by blast
  qed
qed

lemma router_connect_total:
  assumes req: "req_ok e n tok (mi_msg mi)" and rep: "client_rep (rs_clients st) es" and fam: "inet_family (mi_addr mi)"
  shows "\<exists>r. Router_Service.process_connect mi tok st = Some r"
proof -
  have k: "NUL \<notin> set ''port''" by simp
  from req_port [OF req k] show ?thesis
  proof (elim disjE exE conjE)
    fix m t mi' p
    assume a: "jsmn_get_value (mi_msg mi) tok ''port'' = Some m" "m \<noteq> -1" "rd_tok tok (nat m) = Some t"
      "put_nul t mi = Some mi'" "mi_addr mi' = mi_addr mi" "ptr_at (mi_msg mi') (tok_start t) = Some p" "NUL \<in> set p"
    obtain rc T' where "add_client (mi_addr mi) p (rs_clients st) = Some (rc, T')" using add_client_total [OF a(7) rep fam] by blast
    then show ?thesis using a by (simp add: Router_Service.process_connect_def)
  qed (simp add: Router_Service.process_connect_def)
qed

lemma router_message_total:
  assumes nul: "NUL \<in> set (mi_msg mi)" and c: "c \<in> set (cstr (mi_msg mi))" "\<not> sep_char c"
    and tok: "JSMN_NTOK \<le> length tok" and ms: "msg_rep (rs_cache st) ms" and rep: "client_rep (rs_clients st) es"
    and fam: "inet_family (mi_addr mi)" and len: "mi_len mi \<le> length (mi_msg mi)"
    and net: "length (rs_routers st) + length es \<le> length (udp_script w)"
  shows "\<exists>st' w'. Router_Service.serve_message tok mi st w k = Some (st', w', k - 1)"
proof -
  obtain m tok' n where p: "parse_message (mi_msg mi) tok JSMN_NTOK = Some (m, tok', n)"
    "m = -1 \<or> 0 < m \<and> m < int n \<and> shaped (slen (mi_msg mi)) n tok'"
    using parse_message_total [OF nul tok c] by blast
  show ?thesis
  proof (cases "m = -1")
    case True
    then show ?thesis using p by (simp add: Router_Service.serve_message_def)
  next
    case False
    then have m: "0 < m" "m < int n" and sh: "shaped (slen (mi_msg mi)) n tok'" using p by auto
    have req: "req_ok (slen (mi_msg mi)) n tok' (mi_msg mi)"
      using sh m slen_less [OF nul] nth_slen [OF nul] by (auto simp: req_ok_def)
    obtain b1 where b1: "cmd_equal mi tok' m ''connect'' = Some b1" using cmd_equal_total [OF req m] by force
    obtain b2 where b2: "cmd_equal mi tok' m ''broadcast'' = Some b2" using cmd_equal_total [OF req m] by force
    show ?thesis using router_connect_total [OF req rep fam] process_broadcast_total [OF req ms rep len net] p(1) False b1 b2
      by (auto simp: Router_Service.serve_message_def)
  qed
qed

section \<open>Callbacks and the server\<close>

text \<open>What the servers rely on: a callback that returns has taken exactly one off the counter.\<close>

locale callback =
  fixes run :: "msg_info \<Rightarrow> 's \<Rightarrow> int \<Rightarrow> ('s \<times> int) option"
  assumes gives_back: "run mi s n = Some (s', n') \<Longrightarrow> n' = n - 1"
begin

lemma exit_step:
  assumes "wk \<in> set (workers srv)" "run mi s (num_threads srv) = Some (s', n')"
  shows "server_step mx srv (worker_exit wk n' srv)"
  using server_step.exit [OF assms(1), of mx] gives_back [OF assms(2)] by simp

lemma exit_keeps_slots:
  assumes "slots_ok mx srv" "wk \<in> set (workers srv)" "run mi s (num_threads srv) = Some (s', n')"
  shows "slots_ok mx (worker_exit wk n' srv)"
  using slots_ok_step [OF exit_step [OF assms(2,3)] assms(1)] .

end

interpretation tracker_msg: callback "Tracker_Service.handle_message psnetlog tok" for psnetlog tok
  by unfold_locales (auto simp: Tracker_Service.handle_message_def Tracker_Service.serve_message_def bind_eq_Some_iff split: if_splits)

interpretation tracker_conn: callback
    "\<lambda>mi (T, w) n. map_option (\<lambda>(w', n'). ((T, w'), n')) (Tracker_Service.handle_connection ntop tok mi T w n)" for ntop tok
  by unfold_locales (auto simp: Tracker_Service.handle_connection_def bind_eq_Some_iff)

interpretation router_msg: callback
    "\<lambda>mi (st, w) n. map_option (\<lambda>(st', w', n'). ((st', w'), n')) (Router_Service.handle_message psnetlog tok mi st w n)" for psnetlog tok
  by unfold_locales (auto simp: Router_Service.handle_message_def Router_Service.serve_message_def bind_eq_Some_iff split: if_splits)

interpretation router_conn: callback
    "\<lambda>mi (st, w) n. map_option (\<lambda>(st', w', n'). ((st', w'), n')) (Router_Service.handle_connection ntop others tok mi st w n)"
    for ntop others tok
  by unfold_locales (auto simp: Router_Service.handle_connection_def bind_eq_Some_iff)

section \<open>Properties\<close>

text \<open>C39. Robustness: in every state the server can reach, for every datagram that waits in a callback, of
  whatever contents, the callbacks of the tracker and of the router serve it: no access is out of
  bounds and no loop runs forever up to the point where they free the message. Without \<open>PSNETLOG\<close> they return then, and the server goes on
  with the thread given back. With it, as in the build of the makefile, they go on to read the message they have freed, on
  every datagram. The datagram has to have a character that is not a separator and an IPv4 or IPv6 sender; the tables have to be intact.\<close>

theorem datagrams_are_safe:
  assumes "server_reach mx boot srv" and "Dgram mi \<in> set (workers srv)" and "inet_family (mi_addr mi)"
    and "\<exists>c \<in> set (cstr (mi_msg mi)). \<not> sep_char c" and "JSMN_NTOK \<le> length tok"
    and "client_rep (rs_clients st) es" and "msg_rep (rs_cache st) ms"
    and "length (rs_routers st) + length es \<le> length (udp_script w)"
  shows "(\<exists>T' n'. Tracker_Service.serve_message tok mi (rs_clients st) (num_threads srv) = Some (T', n') \<and>
      Tracker_Service.handle_message False tok mi (rs_clients st) (num_threads srv) = Some (T', n') \<and>
      server_step mx srv (worker_exit (Dgram mi) n' srv)) \<and>
    (\<exists>st' w' n'. Router_Service.serve_message tok mi st w (num_threads srv) = Some (st', w', n') \<and>
      Router_Service.handle_message False tok mi st w (num_threads srv) = Some (st', w', n') \<and>
      server_step mx srv (worker_exit (Dgram mi) n' srv)) \<and>
    Tracker_Service.handle_message True tok mi (rs_clients st) (num_threads srv) = None \<and>
    Router_Service.handle_message True tok mi st w (num_threads srv) = None"
proof -
  have ok: "msg_ok mi" using dgrams_ok_reach [OF assms(1)] assms(2) by (auto simp: dgrams_ok_def)
  then have nul: "NUL \<in> set (mi_msg mi)" and len: "mi_len mi \<le> length (mi_msg mi)"
    by (auto simp: msg_ok_def in_set_conv_nth)
  obtain c where c: "c \<in> set (cstr (mi_msg mi))" "\<not> sep_char c" using assms(4) by blast
  obtain T' where T': "Tracker_Service.serve_message tok mi (rs_clients st) (num_threads srv) = Some (T', num_threads srv - 1)"
    using tracker_message_total [OF nul c assms(5,6,3)] by blast
  obtain st' w' where st': "Router_Service.serve_message tok mi st w (num_threads srv) = Some (st', w', num_threads srv - 1)"
    using router_message_total [OF nul c assms(5,7,6,3) len assms(8)] by blast
  have T'': "Tracker_Service.handle_message False tok mi (rs_clients st) (num_threads srv) = Some (T', num_threads srv - 1)"
    and st'': "Router_Service.handle_message False tok mi st w (num_threads srv) = Some (st', w', num_threads srv - 1)"
    using T' st' by (simp_all add: Tracker_Service.handle_message_def Router_Service.handle_message_def)
  have "server_step mx srv (worker_exit (Dgram mi) (num_threads srv - 1) srv)"
    by (rule tracker_msg.exit_step [OF assms(2) T''])
  then show ?thesis using T' st' T'' st''
    by (simp add: Tracker_Service.handle_message_def Router_Service.handle_message_def)
qed

lemma datagrams_are_safe_witness:
  \<open>\<exists>srv mi. server_reach 1 boot srv \<and> Dgram mi \<in> set (workers srv) \<and> take 6 (mi_msg mi) = ''}{][,x'' \<and>
    (\<exists>T' n'. Tracker_Service.handle_message False (replicate 256 (mk_tok JSMN_STRING 0 0 0)) mi client_table (num_threads srv) = Some (T', n') \<and>
      server_step 1 srv (worker_exit (Dgram mi) n' srv)) \<and>
    Tracker_Service.handle_message True (replicate 256 (mk_tok JSMN_STRING 0 0 0)) mi client_table (num_threads srv) = None\<close>
proof -
  let ?m = "recv_msg blank_msg (mi_addr blank_msg) ''}{][,x''"
  let ?b = "boot\<lparr>udp_up := True\<rparr>"
  let ?s1 = "udp_receive 1 (Received blank_msg (mi_addr blank_msg) ''}{][,x'') ?b"
  let ?st = "\<lparr>rs_clients = client_table, rs_cache = msg_cache, rs_routers = []\<rparr>"
  have "server_step 1 boot ?b" by (rule server_step.init [of _ "[Binds]" 0]) (simp_all add: udp_server_init_def boot_def)
  moreover have "server_step 1 ?b ?s1" by (rule server_step.receive) (auto simp: boot_def blank_msg_def MSG_MAX_def)
  moreover have "server_step 1 ?s1 (udp_create True ?s1)"
    by (rule server_step.create_udp) (simp add: udp_receive_def boot_def)
  ultimately have r: "server_reach 1 boot (udp_create True ?s1)"
    by (meson converse_rtranclp_into_rtranclp r_into_rtranclp)
  have w: "Dgram ?m \<in> set (workers (udp_create True ?s1))" by (simp add: udp_create_def udp_receive_def boot_def)
  have t: "take 6 (mi_msg ?m) = ''}{][,x''" by (simp add: recv_msg_def Let_def MSG_MAX_def numeral_eq_Suc)
  have c: "\<exists>c \<in> set (cstr (mi_msg ?m)). \<not> sep_char c"
    by (intro bexI [of _ "CHR ''x''"]) (simp_all add: recv_msg_def Let_def MSG_MAX_def cstr_def sep_char_def)
  have f: "inet_family (mi_addr ?m)" by (simp add: recv_msg_def Let_def recv_addr_def blank_msg_def inet_family_def AF_INET_def AF_INET6_def)
  show ?thesis
    using datagrams_are_safe [OF r w f c, of "replicate 256 (mk_tok JSMN_STRING 0 0 0)" ?st "[]" "[]" "udp_net []"]
      client_table_rep msg_cache_rep r w t by (auto simp: JSMN_NTOK_def)
qed

end
