(* ===== verification/Connection_Safety.thy ===== *)
theory Connection_Safety
  imports Datagram_Safety
begin

text \<open>
  Robustness of the connection callback of the tracker: whatever a peer sends, in whatever
  segments, and whether its side accepts the answers or breaks, \<open>handle_connection\<close> returns, as long
  as every message is shorter than the buffer and not blank. These two conditions are what the code
  relies on without checking it.
\<close>

section \<open>Sending\<close>

text \<open>A connection on which every \<open>send\<close> makes progress or fails, with results for \<open>n\<close> more bytes.\<close>

definition live_link :: "nat \<Rightarrow> net \<Rightarrow> bool" where
  "live_link n w \<longleftrightarrow> SendN 0 \<notin> set (send_script w) \<and> n \<le> length (send_script w)"

text \<open>What an answer of \<open>k\<close> bytes may change.\<close>

definition answers :: "nat \<Rightarrow> net \<Rightarrow> net \<Rightarrow> bool" where
  "answers k w w' \<longleftrightarrow> recv_script w' = recv_script w \<and> udp_script w' = udp_script w \<and> (\<forall>n. live_link (n + k) w \<longrightarrow> live_link n w')"

lemma answers_refl: "answers 0 w w"
  by (simp add: answers_def)

lemma answers_trans: "answers j u v \<Longrightarrow> answers k v w \<Longrightarrow> answers (j + k) u w"
  by (auto simp: answers_def) (metis add.assoc add.commute)

lemma live_link_mono: "live_link n w \<Longrightarrow> m \<le> n \<Longrightarrow> live_link m w"
  by (simp add: live_link_def)

lemma answers_mono:
  assumes "answers j u v" "j \<le> k"
  shows "answers k u v"
proof -
  have "live_link n v" if "live_link (n + k) u" for n
  proof -
    have "live_link (n + (k - j) + j) u" using that assms(2) by simp
    then have "live_link (n + (k - j)) v" using assms(1) unfolding answers_def by blast
    then show ?thesis by (rule live_link_mono) simp
  qed
  then show ?thesis using assms(1) by (simp add: answers_def)
qed

lemma send_loop_live:
  assumes "SendN 0 \<notin> set evs" and "len - bsent \<le> length evs" and "len \<le> length buf"
  shows "\<exists>rv k out'. tcp_send_loop evs buf len bsent out = Some (rv, drop k evs, out') \<and> k \<le> len - bsent"
  using assms
proof (induction evs arbitrary: bsent out)
  case Nil
  then show ?case by (simp add: tcp_send_loop.simps)
next
  case (Cons ev evs)
  show ?case
  proof (cases "bsent < len")
    case False
    then show ?thesis by (intro exI [of _ "int bsent"] exI [of _ 0]) (simp add: tcp_send_loop.simps)
  next
    case lt: True
    show ?thesis
    proof (cases ev)
      case (SendErr e)
      then show ?thesis using lt Cons.prems(3)
        by (intro exI [of _ "- int e"] exI [of _ 1]) (simp add: tcp_send_loop.simps)
    next
      case (SendN k)
      let ?r = "min k (len - bsent)"
      have r: "0 < ?r" using SendN Cons.prems(1) lt by auto
      have "len - (bsent + ?r) \<le> length evs" using Cons.prems(2) r by auto
      then obtain rv j out' where j: "tcp_send_loop evs buf len (bsent + ?r) (out @ take ?r (drop bsent buf)) =
          Some (rv, drop j evs, out')" "j \<le> len - (bsent + ?r)"
        using Cons.IH [of "bsent + ?r" "out @ take ?r (drop bsent buf)"] Cons.prems by auto
      have "tcp_send_loop (ev # evs) buf len bsent out = Some (rv, drop (Suc j) (ev # evs), out')"
        using j(1) SendN lt Cons.prems(3) by (subst tcp_send_loop.simps) (simp add: Let_def)
      moreover have "Suc j \<le> len - bsent" using j(2) r lt by auto
      ultimately show ?thesis by blast
    qed
  qed
qed

lemma send_bytes_live:
  assumes "live_link len w" and "len \<le> length buf"
  obtains rv w' where "tcp_send_bytes buf len w = Some (rv, w')" "answers len w w'"
proof -
  obtain rv k out where k: "tcp_send_loop (send_script w) buf len 0 (tcp_out w) = Some (rv, drop k (send_script w), out)" "k \<le> len"
    using send_loop_live [of "send_script w" len 0 buf "tcp_out w"] assms by (auto simp: live_link_def)
  let ?w = "w\<lparr>send_script := drop k (send_script w), tcp_out := out\<rparr>"
  have "answers len w ?w" using k(2) by (auto simp: answers_def live_link_def dest: in_set_dropD)
  then show ?thesis using k(1) by (intro that [of rv ?w]) (simp add: tcp_send_bytes_def)
qed

lemma send_response_live:
  assumes "nodes_ok head" and "live_link (length (response_bytes head)) w"
  shows "\<exists>rv w'. psnet_send_response head w = Some (rv, w') \<and> answers (length (response_bytes head)) w w'"
  using assms
proof (induction head arbitrary: w)
  case Nil
  then show ?case by (simp add: answers_refl response_bytes_def)
next
  case (Cons n head)
  have len: "rn_len n \<le> length (rn_data n)" and ok: "nodes_ok head" using Cons.prems(1) by (simp_all add: nodes_ok_def)
  have rb: "length (response_bytes (n # head)) = rn_len n + length (response_bytes head)"
    using len by (simp add: response_bytes_def)
  have l: "live_link (rn_len n) w" using Cons.prems(2) rb by (simp add: live_link_def)
  obtain rv w1 where w1: "tcp_send_bytes (rn_data n) (rn_len n) w = Some (rv, w1)" "answers (rn_len n) w w1"
    using send_bytes_live [OF l len] .
  have "live_link (length (response_bytes head)) w1"
    using w1(2) Cons.prems(2) rb by (simp add: answers_def add.commute)
  then obtain rv' w' where w': "psnet_send_response head w1 = Some (rv', w')" "answers (length (response_bytes head)) w1 w'"
    using Cons.IH [OF ok] by blast
  have a: "answers (length (response_bytes (n # head))) w w'" unfolding rb by (rule answers_trans [OF w1(2) w'(2)])
  have b: "answers (length (response_bytes (n # head))) w w1" unfolding rb by (rule answers_mono [OF w1(2)]) simp
  show ?case using w1(1) w'(1) a b by (cases "rv < 0") auto
qed

section \<open>Answers\<close>

text \<open>The most that one answer takes, for a table of \<open>n\<close> elements.\<close>

definition turn_bytes :: "nat \<Rightarrow> nat" where
  "turn_bytes n = 200 + 80 * n"

lemma sprintf_send_live:
  assumes "length s < n" and "length s \<le> k" and "live_link k w"
  obtains buf rv w' where "c_sprintf n s = Some (length s, buf)" "tcp_send_bytes buf (length s) w = Some (rv, w')" "answers k w w'"
proof -
  have l: "live_link (length s) w" by (rule live_link_mono [OF assms(3,2)])
  obtain rv w' where "tcp_send_bytes (s @ [NUL]) (length s) w = Some (rv, w')" "answers (length s) w w'"
    using send_bytes_live [OF l, of "s @ [NUL]"] by auto
  then show ?thesis using assms(1,2) by (intro that [of "s @ [NUL]" rv w']) (auto simp: c_sprintf_def answers_mono)
qed

lemma dir_error_live:
  assumes "live_link 100 w"
  obtains w' where "dir_error no w = Some w'" "answers 100 w w'"
proof -
  let ?s = "''{\"status\":\"error\",\"code\":'' @ dec (dir_code no) @ '',\"reason\":\"'' @ psdir_strerror no @ ''\"}'' @ DELIM"
  have "length (dec (dir_code no)) = 1" "length (psdir_strerror no) \<le> 30"
    by (cases no; simp add: dec.simps)+
  then have l: "length ?s < 42 + 3 + PSNET_ERRSTRLEN" "length ?s \<le> 100" by (simp_all add: PSNET_ERRSTRLEN_def)
  obtain buf rv w' where "c_sprintf (42 + 3 + PSNET_ERRSTRLEN) ?s = Some (length ?s, buf)"
    "tcp_send_bytes buf (length ?s) w = Some (rv, w')" "answers 100 w w'"
    using sprintf_send_live [OF l assms] .
  then show ?thesis by (intro that [of w']) (simp_all add: dir_error_def psnet_send_error_def)
qed

lemma hdr_ok_length: "length (hdr_ok_fmt (int k)) = 29 + length (dec k)"
  by (simp add: hdr_ok_fmt_def dec_int_def)

lemma signed_count: "n < 10 ^ 9 \<Longrightarrow> sint (of_nat n :: uint) = int n"
  by (simp add: signed_of_nat take_bit_eq_mod signed_take_bit_int_eq_self_iff sint_signed_drop_bit_eq)

lemma process_info_live:
  assumes rep: "client_rep T es" and n: "length es < 10 ^ 9" and link: "live_link 100 w"
  obtains w' where "Tracker_Service.process_info T w = Some w'" "answers 100 w w'"
proof -
  let ?s = "''{\"name\":\"generic psnet tracker\",\"routers\":'' @ dec (length es) @ ''}'' @ DELIM"
  have sz: "sint (client_list_size T) = int (length es)"
    using client.delta_size_rep [OF rep] n by (simp add: client_list_size_def signed_count)
  have "length (dec (length es)) \<le> 9" by (rule dec_length_le) (use n in simp_all)
  then have l: "length ?s < 47 + 10" "length ?s \<le> 56" by simp_all
  let ?h = "hdr_ok_fmt (int (length ?s))"
  have "length (dec (length ?s)) \<le> 2" by (rule dec_length_le) (use l in simp_all)
  then have lh: "length ?h < HDR_OK_STRLEN" "length ?h \<le> 31"
    unfolding hdr_ok_length HDR_OK_STRLEN_def by simp_all
  obtain hb rv w1 where w1: "c_sprintf HDR_OK_STRLEN ?h = Some (length ?h, hb)" "tcp_send_bytes hb (length ?h) w = Some (rv, w1)"
    "answers 31 w w1" using sprintf_send_live [OF lh live_link_mono [OF link]] by auto
  have "live_link (56 + 31) w" by (rule live_link_mono [OF link]) simp
  then have link1: "live_link 56 w1" using w1(3) unfolding answers_def by blast
  obtain sb rv' w2 where w2: "c_sprintf (47 + 10) ?s = Some (length ?s, sb)" "tcp_send_bytes sb (length ?s) w1 = Some (rv', w2)"
    "answers 56 w1 w2" using sprintf_send_live [OF l link1] by auto
  have "answers 100 w w2" by (rule answers_mono [OF answers_trans [OF w1(3) w2(3)]]) simp
  then show ?thesis using w1 w2 sz
    by (intro that [of w2]) (simp_all add: Tracker_Service.process_info_def send_two_def dec_int_def)
qed

lemma drop_separator_len: "sum_list (map rn_len (drop_separator h)) \<le> sum_list (map rn_len h)"
  by (cases h rule: rev_cases) (auto simp: drop_separator_def butlast_append)

lemma elem_node_len: "inet_ok ntop pton \<Longrightarrow> inet_family d \<Longrightarrow> rn_len (elem_node ntop d) \<le> 77"
  using node_fmt_length [OF ntop_buf_ok(2), of ntop pton d "ntohs (get_in_port d)" "ss_family d"]
  by (simp add: elem_node_def node_of_def sa_doc_def node_fmt_doc INET6_ADDRSTRLEN_def PORT_STRLEN_def)

lemma listing_nodes:
  assumes ok: "inet_ok ntop pton" and fam: "\<forall>d \<in> set ds. inet_family d" and k: "length ds \<le> k"
  defines "body \<equiv> drop_separator (node_of ''['' # map (elem_node ntop) ds) @ [node_of ('']'' @ DELIM)]"
  shows "nodes_ok body \<and> length (response_bytes body) \<le> 6 + 77 * k"
proof -
  have "sum_list (map rn_len (map (elem_node ntop) ds)) \<le> 77 * length ds"
    using fam elem_node_len [OF ok] by (induction ds) (auto intro!: add_mono)
  also have "\<dots> \<le> 77 * k" using k by simp
  finally have "sum_list (map rn_len body) \<le> 6 + 77 * k"
    using drop_separator_len [of "node_of ''['' # map (elem_node ntop) ds"] by (simp add: body_def node_of_def)
  then show ?thesis using elem_nodes_ok response_bytes_length [OF elem_nodes_ok] by (simp add: body_def)
qed

lemma clients_to_json_total:
  assumes rep: "client_rep T es" and ok: "inet_ok ntop pton" and p: "NUL \<in> set p"
  obtains rc body where "clients_to_json ntop [] ign p T = Some (rc, body)"
    "rc = CL_OK \<Longrightarrow> nodes_ok body \<and> length (response_bytes body) \<le> 6 + 77 * length es"
proof -
  obtain v c e where v: "c_strtol p = Some (v, c # e)" using c_strtol_total [OF p] by blast
  let ?num = "int_of_long v" let ?ds = "take (nat ?num) (filter (\<lambda>d. \<not> ignored ign d) (map fst es))"
  have fam: "\<forall>d \<in> set (map fst es). inet_family d" using client_rep_inet [OF rep] by auto
  show thesis
  proof (cases "?num < 0 \<or> c \<noteq> NUL")
    case True
    then show ?thesis using v by (intro that [of CL_BADNUM "[]"]) (auto simp: clients_to_json_def Let_def rd_def)
  next
    case False
    let ?body = "drop_separator (node_of ''['' # map (elem_node ntop) ?ds) @ [node_of ('']'' @ DELIM)]"
    obtain j where "spec_foreach (make_list ntop) (map fst es)
        (Some \<lparr>ml_list = [node_of ''[''], ml_ignore = ign, ml_i = 0, ml_n = ?num\<rparr>) =
      Some \<lparr>ml_list = [node_of ''[''] @ map (elem_node ntop) ?ds, ml_ignore = ign, ml_i = j, ml_n = ?num\<rparr>"
      using make_list_foreach [OF ok fam, of 0 ?num "[node_of ''['']" ign] False by auto
    then have j: "clients_to_json ntop [] ign p T = Some (CL_OK, ?body)" using v False
      by (simp add: clients_to_json_def client.delta_foreach_rep [OF rep] Let_def rd_def)
    have "length ?ds \<le> length (filter (\<lambda>d. \<not> ignored ign d) (map fst es))" by simp
    also have "\<dots> \<le> length (map fst es)" by (rule length_filter_le)
    finally have ds: "length ?ds \<le> length es" "\<forall>d \<in> set ?ds. inet_family d"
      using fam by (auto dest!: in_set_takeD)
    then show ?thesis using j listing_nodes [OF ok ds(2,1)] by (intro that [of CL_OK ?body]) simp_all
  qed
qed

lemma list_answer_live:
  assumes ok: "nodes_ok body" and len: "length (response_bytes body) \<le> 6 + 77 * k" and k: "k < 10 ^ 9"
    and link: "live_link (turn_bytes k) w"
  obtains rv w' where "psnet_send_response (make_response_with_body [] body) w = Some (rv, w')" "answers (turn_bytes k) w w'"
proof -
  let ?r = "response_bytes body"
  have l: "length ?r < 10 ^ 20" using len k by simp
  then have b: "length ?r < 2 ^ 64" using len k by simp
  note R = make_response_bytes [OF ok b]
  have "length (dec (length ?r)) \<le> 20" by (rule dec_length_le) (use l in simp_all)
  then have t: "length (response_bytes (make_response_with_body [] body)) \<le> turn_bytes k"
    unfolding R(2) using len by (simp add: header_doc_text turn_bytes_def)
  have "live_link (length (response_bytes (make_response_with_body [] body))) w" by (rule live_link_mono [OF link t])
  then obtain rv w' where "psnet_send_response (make_response_with_body [] body) w = Some (rv, w')"
    "answers (length (response_bytes (make_response_with_body [] body))) w w'"
    using send_response_live [OF R(1)] by blast
  then show ?thesis using t by (intro that [of rv w']) (auto intro: answers_mono)
qed

text \<open>A handler that answers: it returns, and keeps the size of the buffer.\<close>

definition served :: "nat \<Rightarrow> msg_info \<Rightarrow> net \<Rightarrow> (msg_info \<times> net) option \<Rightarrow> bool" where
  "served k mi w r \<longleftrightarrow> (\<exists>mi' w'. r = Some (mi', w') \<and> answers (turn_bytes k) w w' \<and> length (mi_msg mi') = length (mi_msg mi))"

lemma dir_error_served:
  assumes "live_link (turn_bytes k) w" and "length (mi_msg mi') = length (mi_msg mi)"
  shows "served k mi w (do { w \<leftarrow> dir_error no w; Some (mi', w) })"
proof -
  have "live_link 100 w" by (rule live_link_mono [OF assms(1)]) (simp add: turn_bytes_def)
  then obtain w' where w': "dir_error no w = Some w'" "answers 100 w w'" by (rule dir_error_live)
  have "answers (turn_bytes k) w w'" by (rule answers_mono [OF w'(2)]) (simp add: turn_bytes_def)
  then show ?thesis using w'(1) assms(2) by (simp add: served_def)
qed

lemma listing_served:
  assumes rep: "client_rep T es" and ok: "inet_ok ntop pton" and n: "length es < 10 ^ 9"
    and link: "live_link (turn_bytes (length es)) w" and p: "NUL \<in> set p" and len: "length (mi_msg mi') = length (mi_msg mi)"
  shows "served (length es) mi w (do {
      (rc, jlist) \<leftarrow> clients_to_json ntop [] ign p T;
      if rc \<noteq> CL_OK then do { w \<leftarrow> dir_error no w; Some (mi', w) }
      else do { (_, w) \<leftarrow> psnet_send_response (make_response_with_body [] jlist) w; Some (mi', w) }
    })"
proof -
  obtain rc body where b: "clients_to_json ntop [] ign p T = Some (rc, body)"
    "rc = CL_OK \<Longrightarrow> nodes_ok body \<and> length (response_bytes body) \<le> 6 + 77 * length es"
    using clients_to_json_total [OF rep ok p, of ign] by blast
  show ?thesis
  proof (cases "rc = CL_OK")
    case False
    then show ?thesis using b(1) dir_error_served [OF link len] by simp
  next
    case True
    then obtain rv w' where "psnet_send_response (make_response_with_body [] body) w = Some (rv, w')"
      "answers (turn_bytes (length es)) w w'" using b(2) list_answer_live [OF _ _ n link] by blast
    then show ?thesis using b(1) True len by (simp add: served_def)
  qed
qed

lemma process_list_served:
  assumes req: "req_ok e n tok (mi_msg mi)" and rep: "client_rep T es" and ok: "inet_ok ntop pton" and es: "length es < 10 ^ 9"
    and link: "live_link (turn_bytes (length es)) w"
  shows "served (length es) mi w (process_list ntop mi tok T w)"
proof -
  have k: "NUL \<notin> set ''num''" by simp
  from req_port [OF req k] show ?thesis
  proof (elim disjE exE conjE)
    assume "jsmn_get_value (mi_msg mi) tok ''num'' = Some (-1)"
    then show ?thesis using dir_error_served [OF link refl] by (simp add: process_list_def)
  next
    fix m t mi' p
    assume a: "jsmn_get_value (mi_msg mi) tok ''num'' = Some m" "m \<noteq> -1" "rd_tok tok (nat m) = Some t"
      "put_nul t mi = Some mi'" "ptr_at (mi_msg mi') (tok_start t) = Some p"
      and p: "NUL \<in> set p" and l: "length (mi_msg mi') = length (mi_msg mi)"
    show ?thesis using listing_served [OF rep ok es link p l, of None dir_errno.EBADNUM] a by (simp add: process_list_def)
  qed
qed

lemma process_discover_served:
  assumes req: "req_ok e n tok (mi_msg mi)" and rep: "client_rep T es" and ok: "inet_ok ntop pton" and es: "length es < 10 ^ 9"
    and link: "live_link (turn_bytes (length es)) w"
  shows "served (length es) mi w (Tracker_Service.process_discover ntop mi tok T w)"
proof -
  have k: "NUL \<notin> set ''num''" "NUL \<notin> set ''port''" by simp_all
  note D = Tracker_Service.process_discover_def
  from req_port [OF req k(1)] show ?thesis
  proof (elim disjE exE conjE)
    assume "jsmn_get_value (mi_msg mi) tok ''num'' = Some (-1)"
    then show ?thesis using dir_error_served [OF link refl] by (simp add: D)
  next
    fix m t mi' p
    assume a: "jsmn_get_value (mi_msg mi) tok ''num'' = Some m" "m \<noteq> -1" "rd_tok tok (nat m) = Some t" "put_nul t mi = Some mi'"
      and r1: "req_ok e n tok (mi_msg mi')" and l1: "length (mi_msg mi') = length (mi_msg mi)"
      and s: "0 \<le> tok_start t" "tok_start t \<le> int e"
    from req_port [OF r1 k(2)] show ?thesis
    proof (elim disjE exE conjE)
      assume "jsmn_get_value (mi_msg mi') tok ''port'' = Some (-1)"
      then show ?thesis using dir_error_served [OF link l1] a by (simp add: D)
    next
      fix m' t' mi'' p'
      assume b: "jsmn_get_value (mi_msg mi') tok ''port'' = Some m'" "m' \<noteq> -1" "rd_tok tok (nat m') = Some t'"
        "put_nul t' mi' = Some mi''" "ptr_at (mi_msg mi'') (tok_start t') = Some p'" "NUL \<in> set p'"
        and r2: "req_ok e n tok (mi_msg mi'')" and l2: "length (mi_msg mi'') = length (mi_msg mi')"
      obtain q where q: "ptr_at (mi_msg mi'') (tok_start t) = Some q" "NUL \<in> set q" using req_ptr [OF r2 s] by blast
      obtain v where v: "c_atoi p' = Some v" using c_strtol_total [OF b(6)] by (auto simp: c_atoi_def)
      let ?mi = "mi''\<lparr>mi_addr := set_in_port (htons (word_of_int v)) (mi_addr mi'')\<rparr>"
      have l: "length (mi_msg mi'') = length (mi_msg mi)" "length (mi_msg ?mi) = length (mi_msg mi)" using l1 l2 by simp_all
      show ?thesis
        using listing_served [OF rep ok es link q(2) l(2), of "Some (mi_addr ?mi)" dir_errno.EBADNUM]
          dir_error_served [OF link l(1), of EBADPORT] a b v q(1)
        by (cases "v < PORT_MIN \<or> v > PORT_MAX") (simp_all add: D Let_def)
    qed
  qed
qed

section \<open>Reading\<close>

text \<open>The first message of a stream, as the delimiter matcher of \<open>tcp_read_msg\<close> sees it, and the rest.\<close>

fun first_msg :: "nat \<Rightarrow> char list \<Rightarrow> (char list \<times> char list) option" where
  "first_msg dpos [] = None"
| "first_msg dpos (c # cs) =
     (if dstep dpos c = length DELIM then Some ([c], cs)
      else map_option (\<lambda>(m, rest). (c # m, rest)) (first_msg (dstep dpos c) cs))"

lemma first_msg_split: "first_msg d s = Some (m, rest) \<Longrightarrow> s = m @ rest \<and> m \<noteq> []"
  by (induction d s arbitrary: m rule: first_msg.induct) (auto split: if_splits)

lemma first_msg_takes: "first_msg d s = Some (m, rest) \<Longrightarrow> d < length DELIM \<Longrightarrow> length m \<le> n \<Longrightarrow> takes d n m"
proof (induction d s arbitrary: m n rule: first_msg.induct)
  case (2 d c cs)
  show ?case
  proof (cases "dstep d c = length DELIM")
    case True
    then show ?thesis using 2 by auto
  next
    case False
    moreover have "dstep d c \<le> length DELIM" using 2(3) by (simp add: dstep_def)
    ultimately show ?thesis using 2 by (auto simp: less_le)
  qed
qed simp

text \<open>A script that closes or breaks the connection after its data.\<close>

definition closes :: "recv_event list \<Rightarrow> bool" where
  "closes evs \<longleftrightarrow> (\<exists>ev \<in> set evs. \<forall>cs. ev \<noteq> RecvData cs)"

lemma closes_recv:
  assumes "closes evs" "segments_ok evs" "stream evs = []"
  obtains e evs' where "c_recv 1 evs = Some (Inl e, evs')" | evs' where "c_recv 1 evs = Some (Inr [], evs')"
  using assms by (cases evs rule: stream.cases) (auto simp: closes_def segments_ok_def)

lemma recv_closes: "closes evs \<Longrightarrow> c_recv 1 evs = Some (Inr (c # cs), evs') \<Longrightarrow> closes evs'"
  by (cases evs rule: stream.cases) (auto simp: closes_def split: if_splits)

lemma read_unfinished:
  assumes "first_msg d s = None" and "d < length DELIM" and "i + length s < len" and "len \<le> length buf"
    and "segments_ok evs" and "closes evs" and "stream evs = s"
  shows "\<exists>rv i' buf' evs'. read_msg_loop evs buf len i d = Some (Some rv, i', buf', evs') \<and> rv \<le> 0"
  using assms
proof (induction s arbitrary: d i buf evs)
  case Nil
  have "i < len" using Nil.prems by simp
  then show ?case using Nil.prems by (rule_tac closes_recv [OF Nil.prems(6,5,7)]; subst read_msg_loop.simps) simp_all
next
  case (Cons c s)
  obtain evs' where rc: "c_recv 1 evs = Some (Inr [c], evs')" "stream evs' = s" "segments_ok evs'"
    using c_recv_one [OF Cons.prems(5,7)] .
  have d: "dstep d c < length DELIM" "first_msg (dstep d c) s = None"
    using Cons.prems(1,2) by (auto simp: dstep_def split: if_splits)
  have "read_msg_loop evs buf len i d = read_msg_loop evs' (buf[i := c]) len (i + 1) (dstep d c)"
    using rc(1) Cons.prems by (subst read_msg_loop.simps) (simp add: wr_def dstep_def Let_def)
  then show ?case using Cons.IH [OF d(2,1) _ _ rc(3) recv_closes [OF Cons.prems(6) rc(1)] rc(2), of "i + 1" "buf[i := c]"]
      Cons.prems by simp
qed

lemma read_closes:
  "read_msg_loop evs buf len i d = Some (None, i', buf', evs') \<Longrightarrow> closes evs \<Longrightarrow> closes evs'"
proof (induction evs buf len i d rule: read_msg_loop.induct)
  case (1 evs buf len i d)
  show ?case
  proof (cases "i < len \<and> d < length DELIM")
    case False
    then show ?thesis using 1(2,3) by (auto simp: read_msg_loop.simps [of evs])
  next
    case True
    then have "(case c_recv 1 evs of None \<Rightarrow> None
        | Some (Inl e, evs') \<Rightarrow> Some (Some (- int e), i, buf, evs') | Some (Inr [], evs') \<Rightarrow> Some (Some 0, i, buf, evs')
        | Some (Inr (c # _), evs') \<Rightarrow> (case wr buf i c of None \<Rightarrow> None
            | Some buf' \<Rightarrow> read_msg_loop evs' buf' len (i + 1) (dstep d c))) = Some (None, i', buf', evs')"
      using 1(2) unfolding read_msg_loop.simps [of evs buf len i d] Let_def dstep_def by simp
    then obtain c cs evs1 b where c: "c_recv 1 evs = Some (Inr (c # cs), evs1)" "wr buf i c = Some b"
      "read_msg_loop evs1 b len (i + 1) (dstep d c) = Some (None, i', buf', evs')"
      by (auto split: option.splits sum.splits list.splits)
    show ?thesis using 1(1) [OF _ c(1) refl refl refl refl c(2)] True c(3) recv_closes [OF 1(3) c(1)] by (auto simp: dstep_def)
  qed
qed

lemma read_first_msg:
  assumes m: "first_msg 0 (stream (recv_script w)) = Some (m, rest)" and len: "length m < len" "len \<le> length buf"
    and evs: "segments_ok (recv_script w)" "closes (recv_script w)"
  obtains evs' where "tcp_read_msg buf len w = Some (int (length m), m @ NUL # drop (length m + 1) buf, w\<lparr>recv_script := evs'\<rparr>)"
    "stream evs' = rest" "segments_ok evs'" "closes evs'"
proof -
  have t: "takes 0 (len - 0) m" by (rule first_msg_takes [OF m]) (use len in simp_all)
  obtain evs' where r: "read_msg_loop (recv_script w) buf len 0 0 = Some (None, length m, m @ drop (length m) buf, evs')"
    "stream evs' = rest" "segments_ok evs'"
    using read_msg_loop_takes [OF t evs(1), of rest buf] first_msg_split [OF m] len by auto
  have "(m @ drop (length m) buf)[length m := NUL] = m @ NUL # drop (length m + 1) buf"
    using len Cons_nth_drop_Suc [of "length m" buf] by (simp add: list_update_append Cons_nth_drop_Suc [symmetric])
  then show ?thesis using r read_closes [OF r(1) evs(2)] len
    by (intro that [of evs']) (simp_all add: tcp_read_msg_def Let_def wr_def)
qed

section \<open>Connections\<close>

text \<open>A peer that keeps every message below the size of the buffer and sends no blank message.\<close>

inductive peer_ok :: "char list \<Rightarrow> bool" where
  stop: "first_msg 0 s = None \<Longrightarrow> length s < MSG_MAX \<Longrightarrow> peer_ok s"
| msg: "first_msg 0 s = Some (m, rest) \<Longrightarrow> length m < MSG_MAX \<Longrightarrow> c \<in> set (cstr (m @ [NUL])) \<Longrightarrow> \<not> sep_char c \<Longrightarrow>
    peer_ok rest \<Longrightarrow> peer_ok s"

definition conn_ok :: "conn \<Rightarrow> bool" where
  "conn_ok c \<longleftrightarrow> length (mi_msg (c_mi c)) = MSG_MAX \<and> c_ntok c \<le> length (c_tok c) \<and>
     segments_ok (recv_script (c_net c)) \<and> closes (recv_script (c_net c))"

lemma conn_step_stop:
  assumes "conn_ok c" and "first_msg 0 (stream (recv_script (c_net c))) = None" and "length (stream (recv_script (c_net c))) < MSG_MAX"
  shows "\<exists>c'. Tracker_Service.conn_step ntop T c = Some (False, c')"
proof -
  obtain rv i buf evs where "read_msg_loop (recv_script (c_net c)) (mi_msg (c_mi c)) MSG_MAX 0 0 = Some (Some rv, i, buf, evs)" "rv \<le> 0"
    using read_unfinished [OF assms(2), of 0 MSG_MAX "mi_msg (c_mi c)" "recv_script (c_net c)"] assms(1,3)
    by (auto simp: conn_ok_def)
  then show ?thesis by (simp add: Tracker_Service.conn_step_def tcp_read_msg_def Let_def)
qed

text \<open>The next request of a connection, read and tokenized.\<close>

lemma conn_request:
  assumes c: "conn_ok c" and m: "first_msg 0 (stream (recv_script (c_net c))) = Some (m, rest)" "length m < MSG_MAX"
    and ch: "ch \<in> set (cstr (m @ [NUL]))" "\<not> sep_char ch"
  obtains buf evs mt tok n where
    "tcp_read_msg (mi_msg (c_mi c)) MSG_MAX (c_net c) = Some (int (length m), buf, (c_net c)\<lparr>recv_script := evs\<rparr>)"
    "stream evs = rest" "segments_ok evs" "closes evs" "\<not> int (length m) \<le> 0" "length buf = MSG_MAX"
    "parse_message buf (c_tok c) (c_ntok c) = Some (mt, tok, n)"
    "mt = -1 \<or> 0 < mt \<and> mt < int n \<and> n \<le> length tok \<and> req_ok (slen buf) n tok buf"
proof -
  let ?buf = "m @ NUL # drop (length m + 1) (mi_msg (c_mi c))"
  obtain evs where evs: "tcp_read_msg (mi_msg (c_mi c)) MSG_MAX (c_net c) = Some (int (length m), ?buf, (c_net c)\<lparr>recv_script := evs\<rparr>)"
    "stream evs = rest" "segments_ok evs" "closes evs"
    using read_first_msg [OF m, of "mi_msg (c_mi c)"] c by (auto simp: conn_ok_def)
  have pos: "\<not> int (length m) \<le> 0" using first_msg_split [OF m(1)] by simp
  have nul: "NUL \<in> set ?buf" and ch': "ch \<in> set (cstr ?buf)" using ch(1) by (simp_all add: cstr_def takeWhile_tail)
  have lb: "length ?buf = MSG_MAX" using c m(2) by (simp add: conn_ok_def)
  obtain mt tok n where p: "parse_message ?buf (c_tok c) (c_ntok c) = Some (mt, tok, n)"
    "mt = -1 \<or> 0 < mt \<and> mt < int n \<and> shaped (slen ?buf) n tok"
    using parse_message_total [OF nul _ ch' ch(2), of "c_ntok c" "c_tok c"] c by (auto simp: conn_ok_def)
  have "mt = -1 \<or> 0 < mt \<and> mt < int n \<and> n \<le> length tok \<and> req_ok (slen ?buf) n tok ?buf"
    using p(2) slen_less [OF nul] nth_slen [OF nul] by (auto simp: req_ok_def shaped_def)
  with evs pos lb p(1) show ?thesis by (rule that)
qed

lemma conn_step_msg:
  assumes c: "conn_ok c" and m: "first_msg 0 (stream (recv_script (c_net c))) = Some (m, rest)" "length m < MSG_MAX"
    and ch: "ch \<in> set (cstr (m @ [NUL]))" "\<not> sep_char ch"
    and rep: "client_rep T es" and ok: "inet_ok ntop pton" and es: "length es < 10 ^ 9"
    and link: "live_link (turn_bytes (length es)) (c_net c)"
  shows "\<exists>go c'. Tracker_Service.conn_step ntop T c = Some (go, c') \<and>
    (go \<longrightarrow> conn_ok c' \<and> stream (recv_script (c_net c')) = rest \<and>
      (\<forall>n. live_link (n + turn_bytes (length es)) (c_net c) \<longrightarrow> live_link n (c_net c')))"
proof -
  let ?k = "turn_bytes (length es)"
  obtain buf evs mt tok n where evs: "tcp_read_msg (mi_msg (c_mi c)) MSG_MAX (c_net c) = Some (int (length m), buf, (c_net c)\<lparr>recv_script := evs\<rparr>)"
    "stream evs = rest" "segments_ok evs" "closes evs" and pos: "\<not> int (length m) \<le> 0" and lb: "length buf = MSG_MAX"
    and p: "parse_message buf (c_tok c) (c_ntok c) = Some (mt, tok, n)"
      "mt = -1 \<or> 0 < mt \<and> mt < int n \<and> n \<le> length tok \<and> req_ok (slen buf) n tok buf"
    using conn_request [OF c m ch] .
  let ?w = "(c_net c)\<lparr>recv_script := evs\<rparr>" and ?mi = "(c_mi c)\<lparr>mi_msg := buf\<rparr>"
  have link': "live_link ?k ?w" using link by (simp add: live_link_def)
  show ?thesis
  proof (cases "mt = -1")
    case True
    have "live_link 100 ?w" by (rule live_link_mono [OF link']) (simp add: turn_bytes_def)
    then obtain w' where "dir_error dir_errno.ENOMETHOD ?w = Some w'" by (rule dir_error_live)
    then show ?thesis using evs(1) p(1) pos True
      by (intro exI [of _ False]) (simp add: Tracker_Service.conn_step_def Let_def)
  next
    case False
    then have mt: "0 < mt" "mt < int n" and ntok: "n \<le> length tok" and req: "req_ok (slen buf) n tok (mi_msg ?mi)" using p(2) by auto
    obtain b1 where b1: "cmd_equal ?mi tok mt ''list'' = Some b1" using cmd_equal_total [OF req mt] by force
    obtain b2 where b2: "cmd_equal ?mi tok mt ''discover'' = Some b2" using cmd_equal_total [OF req mt] by force
    obtain b3 where b3: "cmd_equal ?mi tok mt ''info'' = Some b3" using cmd_equal_total [OF req mt] by force
    obtain mi1 w1 where l: "process_list ntop ?mi tok T ?w = Some (mi1, w1)" "answers ?k ?w w1" "length (mi_msg mi1) = MSG_MAX"
      using process_list_served [OF req rep ok es link'] lb by (auto simp: served_def)
    obtain mi2 w2 where d: "Tracker_Service.process_discover ntop ?mi tok T ?w = Some (mi2, w2)" "answers ?k ?w w2"
      "length (mi_msg mi2) = MSG_MAX" using process_discover_served [OF req rep ok es link'] lb by (auto simp: served_def)
    have link100: "live_link 100 ?w" by (rule live_link_mono [OF link']) (simp add: turn_bytes_def)
    obtain w3 where i: "Tracker_Service.process_info T ?w = Some w3" "answers 100 ?w w3"
      using process_info_live [OF rep es link100] .
    have i': "answers ?k ?w w3" by (rule answers_mono [OF i(2)]) (simp add: turn_bytes_def)
    obtain w4 where w4: "dir_error dir_errno.EBADMETHOD ?w = Some w4" using dir_error_live [OF link100] .
    have next_ok: "conn_ok c' \<and> stream (recv_script (c_net c')) = rest \<and> (\<forall>n. live_link (n + ?k) (c_net c) \<longrightarrow> live_link n (c_net c'))"
      if "c' = c\<lparr>c_mi := mi', c_tok := tok, c_ntok := n, c_net := w'\<rparr>" "answers ?k ?w w'" "length (mi_msg mi') = MSG_MAX" for c' mi' w'
      using that evs ntok by (auto simp: conn_ok_def answers_def live_link_def)
    have "Tracker_Service.conn_step ntop T c =
      (if b1 then Some (True, c\<lparr>c_mi := mi1, c_tok := tok, c_ntok := n, c_net := w1\<rparr>)
       else if b2 then Some (True, c\<lparr>c_mi := mi2, c_tok := tok, c_ntok := n, c_net := w2\<rparr>)
       else if b3 then Some (True, c\<lparr>c_mi := ?mi, c_tok := tok, c_ntok := n, c_net := w3\<rparr>)
       else Some (False, c\<lparr>c_mi := ?mi, c_tok := tok, c_ntok := n, c_net := w4\<rparr>))"
      using evs(1) p(1) pos False b1 b2 b3 l(1) d(1) i(1) w4 by (simp add: Tracker_Service.conn_step_def Let_def)
    then show ?thesis
      using next_ok [OF refl l(2,3)] next_ok [OF refl d(2,3)] next_ok [OF refl i', of ?mi] lb
      by (intro exI [of _ "b1 \<or> b2 \<or> b3"], cases b1; cases b2; cases b3) simp_all
  qed
qed

lemma conn_loop_total:
  assumes rep: "client_rep T es" and ok: "inet_ok ntop pton" and es: "length es < 10 ^ 9"
  shows "peer_ok s \<Longrightarrow> conn_ok c \<Longrightarrow> stream (recv_script (c_net c)) = s \<Longrightarrow>
    live_link (turn_bytes (length es) * length s) (c_net c) \<Longrightarrow> \<exists>c'. Tracker_Service.conn_loop ntop T c = Some c'"
proof (induction arbitrary: c rule: peer_ok.induct)
  case (stop s)
  then obtain c' where "Tracker_Service.conn_step ntop T c = Some (False, c')" using conn_step_stop [OF stop.prems(1), of ntop T] by auto
  then show ?case by (simp add: Tracker_Service.conn_loop.simps)
next
  case (msg s m rest ch)
  let ?k = "turn_bytes (length es)"
  have "length s = length m + length rest" "0 < length m" using first_msg_split [OF msg.hyps(1)] by auto
  then have "?k * length rest + ?k \<le> ?k * length s" by (cases "length m") (simp_all add: algebra_simps)
  then have link: "live_link (?k * length rest + ?k) (c_net c)" using msg.prems(3) by (rule live_link_mono [rotated])
  have link': "live_link ?k (c_net c)" by (rule live_link_mono [OF link]) simp
  have fm: "first_msg 0 (stream (recv_script (c_net c))) = Some (m, rest)" using msg.hyps(1) msg.prems(2) by simp
  obtain go c' where st: "Tracker_Service.conn_step ntop T c = Some (go, c')"
    "go \<Longrightarrow> conn_ok c' \<and> stream (recv_script (c_net c')) = rest \<and> live_link (?k * length rest) (c_net c')"
    using conn_step_msg [OF msg.prems(1) fm msg.hyps(2-4) rep ok es link'] link by blast
  show ?case
  proof (cases go)
    case True
    then show ?thesis using msg.IH [of c'] st by (simp add: Tracker_Service.conn_loop.simps [of _ _ c])
  next
    case False
    then show ?thesis using st(1) by (simp add: Tracker_Service.conn_loop.simps [of _ _ c])
  qed
qed

section \<open>Properties\<close>

text \<open>C7. Robustness of connections: whatever the bytes a peer sends, well-formed requests or not, however they
  are cut into segments and whenever the connection closes or breaks in either direction,
  \<open>handle_connection\<close> of the tracker returns: every turn of its loop stays within its buffers, the loop
  ends, and the server goes on with the thread given back. The peer has to keep every message
  shorter than the buffer and to send no blank message, and the table has to be intact.\<close>

theorem connections_are_safe:
  assumes "Conn mi \<in> set (workers srv)" and "length (mi_msg mi) = MSG_MAX" and "JSMN_NTOK \<le> length tok"
    and "peer_ok (stream (recv_script w))" and "segments_ok (recv_script w)" and "closes (recv_script w)"
    and "live_link (turn_bytes (length es) * length (stream (recv_script w))) w"
    and "client_rep T es" and "length es < 10 ^ 9" and "inet_ok ntop pton"
  shows "\<exists>w' n'. Tracker_Service.handle_connection ntop tok mi T w (num_threads srv) = Some (w', n') \<and>
    server_step mx srv (worker_exit (Conn mi) n' srv)"
proof -
  let ?c = "\<lparr>c_mi = mi, c_tok = tok, c_ntok = JSMN_NTOK, c_net = w\<rparr>"
  have "conn_ok ?c" using assms(2,3,5,6) by (simp add: conn_ok_def)
  then obtain c' where "Tracker_Service.conn_loop ntop T ?c = Some c'"
    using conn_loop_total [OF assms(8,10,9,4), of ?c] assms(7) by auto
  then have run: "Tracker_Service.handle_connection ntop tok mi T w (num_threads srv) = Some (c_net c', num_threads srv - 1)"
    by (simp add: Tracker_Service.handle_connection_def)
  then have "server_step mx srv (worker_exit (Conn mi) (num_threads srv - 1) srv)"
    by (intro tracker_conn.exit_step [OF assms(1), where s = "(T, w)" and mi = mi and ntop = ntop and tok = tok]) simp
  then show ?thesis using run by blast
qed

lemma connections_are_safe_witness:
  \<open>\<exists>w' n'. Tracker_Service.handle_connection text_ntop (replicate 256 (mk_tok JSMN_STRING 0 0 0)) blank_msg client_table
      (net_of (replicate 6000 (SendN 1)) [RecvData (''{"method":"x"}'' @ DELIM @ ''}{''), RecvData (''1'' @ DELIM), RecvErr 5]) 1 = Some (w', n')\<close>
proof -
  let ?w = "net_of (replicate 6000 (SendN 1)) [RecvData (''{\"method\":\"x\"}'' @ DELIM @ ''}{''), RecvData (''1'' @ DELIM), RecvErr 5]"
  have s: "stream (recv_script ?w) = ''{\"method\":\"x\"}'' @ DELIM @ ''}{1'' @ DELIM" by (simp add: net_of_def)
  have f: "first_msg 0 (''{\"method\":\"x\"}'' @ DELIM @ ''}{1'' @ DELIM) = Some (''{\"method\":\"x\"}'' @ DELIM, ''}{1'' @ DELIM)"
    "first_msg 0 (''}{1'' @ DELIM) = Some (''}{1'' @ DELIM, [])"
    by (simp_all add: DELIM_def dstep_def numeral_eq_Suc)
  have p: "peer_ok []" by (rule peer_ok.stop) (simp_all add: MSG_MAX_def)
  have p: "peer_ok (''}{1'' @ DELIM)"
    by (rule peer_ok.msg [OF f(2) _ _ _ p, of "CHR ''1''"]) (simp_all add: MSG_MAX_def cstr_def sep_char_def)
  have p: "peer_ok (stream (recv_script ?w))" unfolding s
    by (rule peer_ok.msg [OF f(1) _ _ _ p, of "CHR ''x''"]) (simp_all add: MSG_MAX_def cstr_def sep_char_def)
  have l: "live_link (turn_bytes (length ([] :: (sockaddr_storage \<times> nat) list)) * length (stream (recv_script ?w))) ?w"
    unfolding s by (simp add: live_link_def turn_bytes_def net_of_def)
  have e: "segments_ok (recv_script ?w)" "closes (recv_script ?w)" by (simp_all add: net_of_def segments_ok_def closes_def)
  show ?thesis
    using connections_are_safe [of blank_msg "boot\<lparr>workers := [Conn blank_msg], num_threads := 1\<rparr>",
      OF _ _ _ p e l client_table_rep _ text_inet_ok, of "replicate 256 (mk_tok JSMN_STRING 0 0 0)" 1]
    by (auto simp: blank_msg_def MSG_MAX_def JSMN_NTOK_def)
qed

end
