(* ===== verification/Router_Connections.thy ===== *)
theory Router_Connections
  imports Connection_Safety
begin

text \<open>
  Robustness of the connection callback of the router. It differs from that of the tracker in that its requests change
  the state that the threads of the router share: a broadcast enters its identifier in the message cache. An identifier
  that is the last of several there damages the cache, and this is the only way in which a connection can go wrong.
\<close>

section \<open>Answers\<close>

lemma node_error_live:
  assumes "live_link 100 w"
  obtains w' where "node_error no w = Some w'" "answers 100 w w'"
proof -
  let ?s = "''{\"status\":\"error\",\"code\":'' @ dec (node_code no) @ '',\"reason\":\"'' @ psnode_strerror no @ ''\"}'' @ DELIM"
  have "length (dec (node_code no)) = 1" "length (psnode_strerror no) \<le> 30"
    by (cases no; simp add: dec.simps)+
  then have l: "length ?s < 42 + 3 + PSNET_ERRSTRLEN" "length ?s \<le> 100" by (simp_all add: PSNET_ERRSTRLEN_def)
  obtain buf rv w' where "c_sprintf (42 + 3 + PSNET_ERRSTRLEN) ?s = Some (length ?s, buf)"
    "tcp_send_bytes buf (length ?s) w = Some (rv, w')" "answers 100 w w'"
    using sprintf_send_live [OF l assms] .
  then show ?thesis by (intro that [of w']) (simp_all add: node_error_def psnet_send_error_def)
qed

lemma router_ip_live:
  assumes ok: "inet_ok ntop pton" and fam: "inet_family (mi_addr mi)" and link: "live_link 100 w"
  obtains w' where "process_ip ntop mi w = Some w'" "answers 100 w w'"
proof -
  note N = ntop_buf_ok [OF ok fam]
  let ?a = "the (ntop (ss_family (mi_addr mi)) (get_in_addr (mi_addr mi)))"
  let ?s = "''{\"ip\":\"'' @ ?a @ ''\"}'' @ DELIM"
  have l: "length ?s < 13 + INET6_ADDRSTRLEN" "length ?s \<le> 58" using N(2) by (simp_all add: INET6_ADDRSTRLEN_def)
  have d: "length (dec (length ?s)) \<le> 2" by (rule dec_length_le) (use l in simp_all)
  let ?h = "hdr_ok_fmt (int (length ?s))"
  have lh: "length ?h < HDR_OK_STRLEN" "length ?h \<le> 31" using d unfolding hdr_ok_length HDR_OK_STRLEN_def by simp_all
  obtain hb rv w1 where w1: "c_sprintf HDR_OK_STRLEN ?h = Some (length ?h, hb)" "tcp_send_bytes hb (length ?h) w = Some (rv, w1)"
    "answers 31 w w1" using sprintf_send_live [OF lh live_link_mono [OF link]] by auto
  have "live_link (58 + 31) w" by (rule live_link_mono [OF link]) simp
  then have link1: "live_link 58 w1" using w1(3) unfolding answers_def by blast
  obtain sb rv' w2 where w2: "c_sprintf (13 + INET6_ADDRSTRLEN) ?s = Some (length ?s, sb)"
    "tcp_send_bytes sb (length ?s) w1 = Some (rv', w2)" "answers 58 w1 w2" using sprintf_send_live [OF l link1] by auto
  have "answers 100 w w2" by (rule answers_mono [OF answers_trans [OF w1(3) w2(3)]]) simp
  then show ?thesis using N(1) w1 w2 by (intro that [of w2]) (simp_all add: process_ip_def send_two_def)
qed

lemma router_info_live:
  assumes rep: "client_rep (rs_clients st) es" "msg_rep (rs_cache st) ms" and n: "length es < 10 ^ 9" "length ms < 10 ^ 9"
    and link: "live_link (100 + 31) w"
  obtains w' where "Router_Service.process_info st w = Some w'" "answers (100 + 31) w w'"
proof -
  let ?s = "''{\"name\":\"generic psnet router\",\"clients\":'' @ dec (length es) @ '',\"cache-load\":'' @ dec (length ms) @ ''}'' @ DELIM"
  have sz: "sint (client_list_size (rs_clients st)) = int (length es)" "sint (msg_cache_size (rs_cache st)) = int (length ms)"
    using client.delta_size_rep [OF rep(1)] msg.delta_size_rep [OF rep(2)] n
    by (simp_all add: client_list_size_def msg_cache_size_def signed_count)
  have "length (dec (length es)) \<le> 9" "length (dec (length ms)) \<le> 9" using n by (auto intro!: dec_length_le)
  then have l: "length ?s < 60 + 10 + 10" "length ?s \<le> 100" by simp_all
  then have "length (dec (length ?s)) \<le> 2" by (intro dec_length_le) simp_all
  let ?h = "hdr_ok_fmt (int (length ?s))"
  have lh: "length ?h < HDR_OK_STRLEN" "length ?h \<le> 31"
    using \<open>length (dec (length ?s)) \<le> 2\<close> unfolding hdr_ok_length HDR_OK_STRLEN_def by simp_all
  obtain hb rv w1 where w1: "c_sprintf HDR_OK_STRLEN ?h = Some (length ?h, hb)" "tcp_send_bytes hb (length ?h) w = Some (rv, w1)"
    "answers 31 w w1" using sprintf_send_live [OF lh live_link_mono [OF link]] by auto
  have link1: "live_link 100 w1" using w1(3) link unfolding answers_def by blast
  obtain sb rv' w2 where w2: "c_sprintf (60 + 10 + 10) ?s = Some (length ?s, sb)" "tcp_send_bytes sb (length ?s) w1 = Some (rv', w2)"
    "answers 100 w1 w2" using sprintf_send_live [OF l link1] by auto
  have "answers (100 + 31) w w2" by (rule answers_mono [OF answers_trans [OF w1(3) w2(3)]]) simp
  then show ?thesis using w1 w2 sz
    by (intro that [of w2]) (simp_all add: Router_Service.process_info_def send_two_def dec_int_def)
qed

lemma router_ping_live:
  assumes link: "live_link 100 w"
  obtains w' where "process_ping w = Some w'" "answers 100 w w'"
proof -
  let ?s = "''{\"status\":\"okay\"}'' @ DELIM @ [NUL]"
  have l: "live_link 21 w" by (rule live_link_mono [OF link]) simp
  obtain rv w' where "tcp_send_bytes ?s 21 w = Some (rv, w')" "answers 21 w w'"
    using send_bytes_live [OF l, of ?s] by auto
  then show ?thesis by (intro that [of w']) (auto simp: process_ping_def psnet_send_ok_def intro: answers_mono)
qed

lemma router_discover_live:
  assumes req: "req_ok e n tok (mi_msg mi)" and ok: "inet_ok ntop pton" and fam: "\<forall>r \<in> set (rs_routers st). inet_family r"
    and k: "length (rs_routers st) < 10 ^ 9" and link: "live_link (turn_bytes (length (rs_routers st))) w"
  obtains w' where "Router_Service.process_discover ntop mi tok st w = Some w'" "answers (turn_bytes (length (rs_routers st))) w w'"
proof -
  let ?k = "length (rs_routers st)"
  have l100: "100 \<le> turn_bytes ?k" by (simp add: turn_bytes_def)
  note err = node_error_live [OF live_link_mono [OF link l100]]
  note D = Router_Service.process_discover_def
  obtain m where m: "jsmn_get_value (mi_msg mi) tok ''num'' = Some m" "m = -1 \<or> 0 < m \<and> m < int n"
    using get_value_req [OF req, of "''num''"] by auto
  show thesis
  proof (cases "m = -1")
    case True
    obtain w' where "node_error node_errno.ENONUM w = Some w'" "answers 100 w w'" by (rule err)
    then show ?thesis using m(1) True answers_mono [OF _ l100] by (intro that [of w']) (simp_all add: D)
  next
    case False
    then have m': "0 < m" "m < int n" using m(2) by auto
    obtain t where t: "rd_tok tok (nat m) = Some t" "0 \<le> tok_start t" "tok_start t \<le> tok_end t" "tok_end t \<le> int e"
      using req_token [OF req m'] .
    have te: "tok_start t \<le> int e" using t(3,4) by linarith
    obtain p where p: "ptr_at (mi_msg mi) (tok_start t) = Some p" "NUL \<in> set p" using req_ptr [OF req t(2) te] by blast
    obtain v where v: "c_atoi p = Some v" using c_strtol_total [OF p(2)] by (auto simp: c_atoi_def)
    show ?thesis
    proof (cases "v = 0")
      case True
      obtain w' where "node_error node_errno.EBADNUM w = Some w'" "answers 100 w w'" by (rule err)
      then show ?thesis using m(1) False t(1) p(1) v True answers_mono [OF _ l100] by (intro that [of w']) (simp_all add: D)
    next
      case nz: False
      let ?body = "drop_separator (node_of ''['' # map (elem_node ntop) (rs_routers st)) @ [node_of ('']'' @ DELIM)]"
      have j: "routers_to_json ntop [] v (rs_routers st) = Some ?body"
        using router_nodes_ok [OF ok fam] by (simp add: routers_to_json_def Let_def)
      have b: "nodes_ok ?body" "length (response_bytes ?body) \<le> 6 + 77 * ?k" using listing_nodes [OF ok fam order_refl] by simp_all
      obtain rv w' where "psnet_send_response (make_response_with_body [] ?body) w = Some (rv, w')" "answers (turn_bytes ?k) w w'"
        using list_answer_live [OF b k link] .
      then show ?thesis using m(1) False t(1) p(1) v nz j by (intro that [of w']) (simp_all add: D)
    qed
  qed
qed

section \<open>Broadcasts\<close>

text \<open>An identifier that is the last of several in the cache has been mentioned: \<open>delta_update\<close> loses it.\<close>

definition forgets :: "msg_tbl \<Rightarrow> msg_tbl \<Rightarrow> bool" where
  "forgets M M' \<longleftrightarrow> (\<exists>ms ident. msg_rep M ms \<and> hits_last msg_delta_equals ident ms \<and> cache_msg ident M = Some (1, M'))"

text \<open>What is left of the state: the same routers and clients, and a cache with at most one identifier more, or one that has forgotten one.\<close>

definition passed :: "(char list \<times> nat) list \<Rightarrow> router_state \<Rightarrow> router_state \<Rightarrow> bool" where
  "passed ms st st' \<longleftrightarrow> rs_clients st' = rs_clients st \<and> rs_routers st' = rs_routers st \<and>
     ((\<exists>ms'. msg_rep (rs_cache st') ms' \<and> length ms' \<le> Suc (length ms)) \<or> forgets (rs_cache st) (rs_cache st'))"

lemma passed_refl: "msg_rep (rs_cache st) ms \<Longrightarrow> passed ms st st"
  by (auto simp: passed_def)

lemma spec_update_length: "length (spec_update equals iv d es) \<le> Suc (length es)"
  by (auto simp: spec_update_def spec_remove_def split: option.splits)

lemma cache_msg_outcome:
  assumes ms: "msg_rep (rs_cache st) ms" and ident: "NUL \<in> set ident"
  obtains dup M where "cache_msg ident (rs_cache st) = Some (dup, M)" "passed ms st (st\<lparr>rs_cache := M\<rparr>)"
proof -
  obtain M where M: "cache_msg ident (rs_cache st) = Some (if list_ex (\<lambda>e. msg_delta_equals (fst e) ident) ms then 1 else 0, M)"
    "\<not> hits_last msg_delta_equals ident ms \<longrightarrow> msg_rep M (spec_update msg_delta_equals 10 ident ms)"
    using cache_msg_rc [OF ms ident] by blast
  have "passed ms st (st\<lparr>rs_cache := M\<rparr>)"
  proof (cases "hits_last msg_delta_equals ident ms")
    case True
    then have "list_ex (\<lambda>e. msg_delta_equals (fst e) ident) ms"
      by (cases ms rule: rev_cases) (auto simp: hits_last_def)
    then have "forgets (rs_cache st) M" using M(1) ms True unfolding forgets_def by auto
    then show ?thesis by (simp add: passed_def)
  next
    case False
    then have "\<exists>ms'. msg_rep M ms' \<and> length ms' \<le> Suc (length ms)"
      using M(2) spec_update_length [of msg_delta_equals 10 ident ms] by blast
    then show ?thesis by (simp add: passed_def)
  qed
  with M(1) show ?thesis by (rule that)
qed

lemma broadcast_outcome:
  assumes req: "req_ok e n tok (mi_msg mi)" and ms: "msg_rep (rs_cache st) ms" and es: "client_rep (rs_clients st) es"
    and len: "mi_len mi \<le> length (mi_msg mi)" and net: "length (rs_routers st) + length es \<le> length (udp_script w)"
  obtains buf st' w' where "process_broadcast mi tok st w = Some (mi\<lparr>mi_msg := buf\<rparr>, st', w')" "length buf = length (mi_msg mi)"
    "passed ms st st'" "recv_script w' = recv_script w" "send_script w' = send_script w"
    "length (udp_script w) \<le> length (udp_script w') + length (rs_routers st) + length es"
proof -
  obtain h where h: "jsmn_get_value (mi_msg mi) tok ''hops'' = Some h" "h = -1 \<or> 0 < h \<and> h < int n"
    using get_value_req [OF req, of "''hops''"] by auto
  obtain i where i: "jsmn_get_value (mi_msg mi) tok ''id'' = Some i" "i = -1 \<or> 0 < i \<and> i < int n"
    using get_value_req [OF req, of "''id''"] by auto
  note unchanged = that [of "mi_msg mi" st w]
  have same: thesis if "process_broadcast mi tok st w = Some (mi, st, w)"
    using that passed_refl [OF ms] by (intro unchanged) simp_all
  show thesis
  proof (cases "h = -1 \<or> i = -1")
    case True
    then show ?thesis using h(1) i(1) by (intro same) (auto simp: process_broadcast_def)
  next
    case False
    then have hi: "0 < h" "h < int n" "0 < i" "i < int n" using h i by auto
    obtain th where th: "rd_tok tok (nat h) = Some th" "0 \<le> tok_start th" "tok_start th \<le> int e"
      using req_token [OF req hi(1,2)] by (metis order_trans)
    obtain ti where ti: "rd_tok tok (nat i) = Some ti" "0 \<le> tok_start ti" "tok_start ti \<le> tok_end ti" "tok_end ti \<le> int e"
      using req_token [OF req hi(3,4)] by blast
    have el: "e < length (mi_msg mi)" using req by (simp add: req_ok_def)
    let ?a = "nat (tok_start th)" let ?buf = "(mi_msg mi)[?a := next_char (mi_msg mi ! ?a)]" let ?mi = "mi\<lparr>mi_msg := ?buf\<rparr>"
    have f: "bcast_fields (mi_msg mi) tok ?a ti"
      using h(1) i(1) False th ti el by (auto simp: bcast_fields_def)
    show ?thesis
    proof (cases "may_hop (mi_msg mi ! ?a)")
      case False
      then show ?thesis by (intro same process_broadcast_dropped [OF f])
    next
      case hop: True
      obtain ident where id: "jsmn_tokdup ?buf ti = Some ident"
        using ti el by (auto simp: jsmn_tokdup_def ptr_at_def rd_bytes_def jsmn_toklen_def)
      obtain dup M where M: "cache_msg ident (rs_cache st) = Some (dup, M)" "passed ms st (st\<lparr>rs_cache := M\<rparr>)"
        using cache_msg_outcome [OF ms jsmn_tokdup_NUL [OF id]] .
      obtain w' where w': "flood_message ?mi (rs_routers st) (rs_clients st) w = Some w'" "recv_script w' = recv_script w"
        "send_script w' = send_script w" "length (udp_script w) \<le> length (udp_script w') + length (rs_routers st) + length es"
        using flood_message_rep [OF es, of ?mi "rs_routers st" w] len net by auto
      show ?thesis
        using process_broadcast_hop [OF f hop id M(1), of w] w' M(2)
        by (intro that [of ?buf "st\<lparr>rs_cache := M\<rparr>" "if dup \<noteq> 0 then w else w'"]) auto
    qed
  qed
qed

section \<open>Turns\<close>

definition conn_start :: "conn \<Rightarrow> bool" where
  "conn_start c \<longleftrightarrow> conn_ok c \<and> mi_len (c_mi c) \<le> MSG_MAX \<and> inet_family (mi_addr (c_mi c))"

text \<open>What a turn that goes on leaves: a connection at the rest of the stream, with at most one answer and one datagram for each router and
  client less to come.\<close>

definition turn_ok ::
  "nat \<Rightarrow> (char list \<times> nat) list \<Rightarrow> char list \<Rightarrow> router_state \<Rightarrow> conn \<Rightarrow> router_state \<Rightarrow> conn \<Rightarrow> bool" where
  "turn_ok k ms rest st c st' c' \<longleftrightarrow> conn_start c' \<and> stream (recv_script (c_net c')) = rest \<and> passed ms st st' \<and>
     (\<forall>n. live_link (n + turn_bytes (length (rs_routers st))) (c_net c) \<longrightarrow> live_link n (c_net c')) \<and>
     length (udp_script (c_net c)) \<le> length (udp_script (c_net c')) + length (rs_routers st) + k"

lemma router_step_stop:
  assumes "conn_ok c" and "first_msg 0 (stream (recv_script (c_net c))) = None" and "length (stream (recv_script (c_net c))) < MSG_MAX"
  shows "\<exists>c'. Router_Service.conn_step ntop st c = Some (False, st, c')"
proof -
  obtain rv i buf evs where "read_msg_loop (recv_script (c_net c)) (mi_msg (c_mi c)) MSG_MAX 0 0 = Some (Some rv, i, buf, evs)" "rv \<le> 0"
    using read_unfinished [OF assms(2), of 0 MSG_MAX "mi_msg (c_mi c)" "recv_script (c_net c)"] assms(1,3)
    by (auto simp: conn_ok_def)
  then show ?thesis by (simp add: Router_Service.conn_step_def tcp_read_msg_def Let_def)
qed

text \<open>A router whose tables are intact, with room in the scripts for one more turn.\<close>

definition turn_ready :: "(sockaddr_storage \<times> nat) list \<Rightarrow> (char list \<times> nat) list \<Rightarrow> router_state \<Rightarrow> net \<Rightarrow> bool" where
  "turn_ready es ms st w \<longleftrightarrow> client_rep (rs_clients st) es \<and> msg_rep (rs_cache st) ms \<and>
     (\<forall>r \<in> set (rs_routers st). inet_family r) \<and> length es < 10 ^ 9 \<and> length ms < 10 ^ 9 \<and> length (rs_routers st) < 10 ^ 9 \<and>
     live_link (turn_bytes (length (rs_routers st))) w \<and> length (rs_routers st) + length es \<le> length (udp_script w)"

lemma router_requests:
  assumes req: "req_ok e n tok (mi_msg mi)" and ready: "turn_ready es ms st w" and ok: "inet_ok ntop pton"
    and mi: "mi_len mi \<le> length (mi_msg mi)" "inet_family (mi_addr mi)"
  defines "k \<equiv> turn_bytes (length (rs_routers st))"
  obtains wip winf wping wdis werr where "process_ip ntop mi w = Some wip" "answers k w wip"
    "Router_Service.process_info st w = Some winf" "answers k w winf" "process_ping w = Some wping" "answers k w wping"
    "Router_Service.process_discover ntop mi tok st w = Some wdis" "answers k w wdis"
    "node_error node_errno.EBADMETHOD w = Some werr"
proof -
  have link: "live_link k w" and l: "100 \<le> k" "100 + 31 \<le> k"
    using ready by (simp_all add: turn_ready_def k_def turn_bytes_def)
  note l100 = live_link_mono [OF link l(1)] and l131 = live_link_mono [OF link l(2)]
  obtain wip where "process_ip ntop mi w = Some wip" "answers 100 w wip" using router_ip_live [OF ok mi(2) l100] .
  moreover obtain winf where "Router_Service.process_info st w = Some winf" "answers (100 + 31) w winf"
    using router_info_live [OF _ _ _ _ l131, of st es ms] ready unfolding turn_ready_def by blast
  moreover obtain wping where "process_ping w = Some wping" "answers 100 w wping" using router_ping_live [OF l100] .
  moreover obtain wdis where "Router_Service.process_discover ntop mi tok st w = Some wdis" "answers k w wdis"
    using router_discover_live [OF req ok, of st w] ready unfolding turn_ready_def k_def by blast
  moreover obtain werr where "node_error node_errno.EBADMETHOD w = Some werr" using node_error_live [OF l100] .
  ultimately show ?thesis using that answers_mono [OF _ l(1)] answers_mono [OF _ l(2)] by blast
qed

lemma router_step_msg:
  assumes c: "conn_start c" and m: "first_msg 0 (stream (recv_script (c_net c))) = Some (m, rest)" "length m < MSG_MAX"
    and ch: "ch \<in> set (cstr (m @ [NUL]))" "\<not> sep_char ch"
    and ready: "turn_ready es ms st (c_net c)" and ok: "inet_ok ntop pton"
  shows "\<exists>go st' c'. Router_Service.conn_step ntop st c = Some (go, st', c') \<and> (go \<longrightarrow> turn_ok (length es) ms rest st c st' c')"
proof -
  let ?k = "turn_bytes (length (rs_routers st))"
  have cok: "conn_ok c" using c by (simp add: conn_start_def)
  obtain buf0 evs mt tok n where evs: "tcp_read_msg (mi_msg (c_mi c)) MSG_MAX (c_net c) = Some (int (length m), buf0, (c_net c)\<lparr>recv_script := evs\<rparr>)"
    "stream evs = rest" "segments_ok evs" "closes evs" and pos: "\<not> int (length m) \<le> 0" and lb: "length buf0 = MSG_MAX"
    and p: "parse_message buf0 (c_tok c) (c_ntok c) = Some (mt, tok, n)"
      "mt = -1 \<or> 0 < mt \<and> mt < int n \<and> n \<le> length tok \<and> req_ok (slen buf0) n tok buf0"
    using conn_request [OF cok m ch] .
  let ?w = "(c_net c)\<lparr>recv_script := evs\<rparr>" and ?mi = "(c_mi c)\<lparr>mi_msg := buf0\<rparr>"
  have ready': "turn_ready es ms st ?w" using ready by (simp add: turn_ready_def live_link_def)
  have len: "mi_len ?mi \<le> length (mi_msg ?mi)" and fam: "inet_family (mi_addr ?mi)" using c lb by (simp_all add: conn_start_def)
  show ?thesis
  proof (cases "mt = -1")
    case True
    have "live_link 100 ?w" using ready' by (auto simp: turn_ready_def turn_bytes_def intro: live_link_mono)
    then obtain w' where "node_error node_errno.ENOMETHOD ?w = Some w'" by (rule node_error_live)
    then show ?thesis using evs(1) p(1) pos True
      by (intro exI [of _ False]) (simp add: Router_Service.conn_step_def Let_def)
  next
    case False
    then have mt: "0 < mt" "mt < int n" and ntok: "n \<le> length tok" and req: "req_ok (slen buf0) n tok (mi_msg ?mi)" using p(2) by auto
    have eq: "NUL \<notin> set cmd \<Longrightarrow> \<exists>b. cmd_equal ?mi tok mt cmd = Some b" for cmd using cmd_equal_total [OF req mt] .
    obtain bb bi bn bp bd where b: "cmd_equal ?mi tok mt ''broadcast'' = Some bb" "cmd_equal ?mi tok mt ''ip'' = Some bi"
      "cmd_equal ?mi tok mt ''info'' = Some bn" "cmd_equal ?mi tok mt ''ping'' = Some bp" "cmd_equal ?mi tok mt ''discover'' = Some bd"
      using eq [of "''broadcast''"] eq [of "''ip''"] eq [of "''info''"] eq [of "''ping''"] eq [of "''discover''"] by auto
    have reps: "msg_rep (rs_cache st) ms" "client_rep (rs_clients st) es" "length (rs_routers st) + length es \<le> length (udp_script ?w)"
      using ready' unfolding turn_ready_def by blast+
    obtain buf st' w' where br: "process_broadcast ?mi tok st ?w = Some (?mi\<lparr>mi_msg := buf\<rparr>, st', w')" "length buf = length (mi_msg ?mi)"
      "passed ms st st'" "recv_script w' = recv_script ?w" "send_script w' = send_script ?w"
      "length (udp_script ?w) \<le> length (udp_script w') + length (rs_routers st) + length es"
      using broadcast_outcome [OF req reps(1,2) len reps(3)] .
    obtain wip winf wping wdis werr where r: "process_ip ntop ?mi ?w = Some wip" "answers ?k ?w wip"
      "Router_Service.process_info st ?w = Some winf" "answers ?k ?w winf" "process_ping ?w = Some wping" "answers ?k ?w wping"
      "Router_Service.process_discover ntop ?mi tok st ?w = Some wdis" "answers ?k ?w wdis"
      "node_error node_errno.EBADMETHOD ?w = Some werr"
      using router_requests [OF req ready' ok len fam] .
    let ?c = "\<lambda>mi w. c\<lparr>c_mi := mi, c_tok := tok, c_ntok := n, c_net := w\<rparr>"
    have next_ok: "turn_ok (length es) ms rest st c st (?c ?mi w')" if "answers ?k ?w w'" for w'
      using that evs ntok c lb passed_refl [OF reps(1)] m(2)
      by (auto simp: turn_ok_def conn_start_def conn_ok_def answers_def live_link_def)
    have link: "live_link j w'" if "live_link (j + ?k) (c_net c)" for j
      using that br(5) by (simp add: live_link_def)
    then have br_ok: "turn_ok (length es) ms rest st c st' (?c (?mi\<lparr>mi_msg := buf\<rparr>) w')"
      using br(2-4,6) evs ntok c lb by (simp add: turn_ok_def conn_start_def conn_ok_def)
    have "Router_Service.conn_step ntop st c =
      (if bb then Some (True, st', ?c (?mi\<lparr>mi_msg := buf\<rparr>) w') else if bi then Some (True, st, ?c ?mi wip)
       else if bn then Some (True, st, ?c ?mi winf) else if bp then Some (True, st, ?c ?mi wping)
       else if bd then Some (True, st, ?c ?mi wdis) else Some (False, st, ?c ?mi werr))"
      using evs(1) p(1) pos False b br(1) r(1,3,5,7,9) by (simp add: Router_Service.conn_step_def Let_def)
    then show ?thesis using br_ok next_ok [OF r(2)] next_ok [OF r(4)] next_ok [OF r(6)] next_ok [OF r(8)]
      by (auto simp del: mult_Suc)
  qed
qed

text \<open>Whatever a turn reads: it changes the state only by a broadcast, and damages nothing but a cache that it makes forget an identifier.\<close>

lemma broadcast_passes:
  assumes "process_broadcast mi tok st w = Some (mi', st', w')" and ms: "msg_rep (rs_cache st) ms"
  shows "passed ms st st'"
proof (cases "st' = st")
  case True
  then show ?thesis using passed_refl [OF ms] by simp
next
  case False
  then obtain ident dup M t buf where id: "jsmn_tokdup buf t = Some ident" "cache_msg ident (rs_cache st) = Some (dup, M)" "st' = st\<lparr>rs_cache := M\<rparr>"
    using assms(1) by (auto simp: process_broadcast_def bind_eq_Some_iff Let_def split: if_splits)
  show ?thesis using cache_msg_outcome [OF ms jsmn_tokdup_NUL [OF id(1)]] id(2,3) by auto
qed

lemma turn_passes:
  assumes "Router_Service.conn_step ntop st c = Some (go, st', c')" and "msg_rep (rs_cache st) ms"
  shows "passed ms st st'"
  using assms(1) passed_refl [OF assms(2)] broadcast_passes [OF _ assms(2)]
  by (auto simp: Router_Service.conn_step_def bind_eq_Some_iff Let_def split: if_splits)

section \<open>Connections\<close>

text \<open>A router whose tables are intact and hold at most \<open>N\<close> elements each.\<close>

definition intact :: "nat \<Rightarrow> router_state \<Rightarrow> bool" where
  "intact N st \<longleftrightarrow> (\<exists>es ms. client_rep (rs_clients st) es \<and> msg_rep (rs_cache st) ms \<and> length es \<le> N \<and> length ms \<le> N) \<and>
     (\<forall>r \<in> set (rs_routers st). inet_family r) \<and> length (rs_routers st) \<le> N"

lemma turn_keeps_intact:
  assumes "Router_Service.conn_step ntop st c = Some (go, st', c')" and "intact N st"
  shows "intact (Suc N) st' \<or> forgets (rs_cache st) (rs_cache st')"
proof -
  obtain es ms where t: "client_rep (rs_clients st) es" "msg_rep (rs_cache st) ms" "length es \<le> N" "length ms \<le> N"
    using assms(2) by (auto simp: intact_def)
  have p: "rs_clients st' = rs_clients st" "rs_routers st' = rs_routers st"
    "(\<exists>ms'. msg_rep (rs_cache st') ms' \<and> length ms' \<le> Suc (length ms)) \<or> forgets (rs_cache st) (rs_cache st')"
    using turn_passes [OF assms(1) t(2)] unfolding passed_def by blast+
  show ?thesis using p(3)
  proof
    assume "\<exists>ms'. msg_rep (rs_cache st') ms' \<and> length ms' \<le> Suc (length ms)"
    then obtain ms' where "msg_rep (rs_cache st') ms'" "length ms' \<le> Suc N" using t(4) by auto
    moreover have "client_rep (rs_clients st') es" "length es \<le> Suc N" using t(1,3) p(1) by simp_all
    moreover have "\<forall>r \<in> set (rs_routers st'). inet_family r" "length (rs_routers st') \<le> Suc N" using assms(2) p(2) by (simp_all add: intact_def)
    ultimately show ?thesis unfolding intact_def by blast
  qed simp
qed

text \<open>The turns of the loop of \<open>handle_connection\<close>: the state and the connection at which the turn \<open>k\<close> waits for its message.\<close>

inductive turns ::
  "ntop \<Rightarrow> (nat \<Rightarrow> router_state \<Rightarrow> router_state) \<Rightarrow> nat \<Rightarrow> router_state \<Rightarrow> conn \<Rightarrow> nat \<Rightarrow> router_state \<Rightarrow> conn \<Rightarrow> bool"
  for ntop others where
  start: "turns ntop others k st c k st c"
| turn: "Router_Service.conn_step ntop (others k st) c = Some (True, st', c') \<Longrightarrow> turns ntop others (k + 1) st' c' k'' st'' c'' \<Longrightarrow>
    turns ntop others k st c k'' st'' c''"

text \<open>Room for as many turns as the stream has characters.\<close>

definition conn_room :: "nat \<Rightarrow> nat \<Rightarrow> net \<Rightarrow> bool" where
  "conn_room N k w \<longleftrightarrow> live_link (turn_bytes N * k) w \<and> 2 * N * k \<le> length (udp_script w)"

lemma conn_room_mono: "conn_room N k w \<Longrightarrow> j \<le> k \<Longrightarrow> conn_room N j w"
  unfolding conn_room_def by (auto intro: live_link_mono le_trans [OF mult_le_mono2])

lemma intact_ready:
  assumes "intact N st" and "conn_room N (Suc k) w" and "N < 10 ^ 9"
  obtains es ms where "turn_ready es ms st w" "length es \<le> N"
proof -
  obtain es ms where t: "client_rep (rs_clients st) es" "msg_rep (rs_cache st) ms" "length es \<le> N" "length ms \<le> N"
    using assms(1) by (auto simp: intact_def)
  have r: "\<forall>r \<in> set (rs_routers st). inet_family r" "length (rs_routers st) \<le> N" using assms(1) by (auto simp: intact_def)
  have "turn_bytes (length (rs_routers st)) \<le> turn_bytes N * Suc k" using r(2) by (simp add: turn_bytes_def)
  then have "live_link (turn_bytes (length (rs_routers st))) w" using assms(2) by (auto simp: conn_room_def intro: live_link_mono)
  moreover have "length (rs_routers st) + length es \<le> length (udp_script w)" using t(3) r(2) assms(2) by (simp add: conn_room_def)
  ultimately show ?thesis using t r assms(3) by (intro that [of es ms]) (simp_all add: turn_ready_def)
qed

lemma conn_room_next:
  assumes "conn_room N (Suc k) (c_net c)" and "turn_ok l ms rest st c st' c'" and "length (rs_routers st) \<le> N" and "l \<le> N"
  shows "conn_room N k (c_net c')"
proof -
  have "turn_bytes N * k + turn_bytes (length (rs_routers st)) \<le> turn_bytes N * Suc k" using assms(3) by (simp add: turn_bytes_def)
  then have "live_link (turn_bytes N * k + turn_bytes (length (rs_routers st))) (c_net c)"
    using assms(1) by (auto simp: conn_room_def intro: live_link_mono)
  moreover have "2 * N * k \<le> length (udp_script (c_net c'))" using assms unfolding conn_room_def turn_ok_def by simp
  ultimately show ?thesis using assms(2) unfolding conn_room_def turn_ok_def by blast
qed

lemma router_loop_total:
  assumes ok: "inet_ok ntop pton" and N: "N < 10 ^ 9"
  shows "peer_ok s \<Longrightarrow> conn_start c \<Longrightarrow> stream (recv_script (c_net c)) = s \<Longrightarrow> conn_room N (length s) (c_net c) \<Longrightarrow>
    (\<exists>st' c'. Router_Service.conn_loop ntop others k st c = Some (st', c')) \<or>
    (\<exists>k' st' c'. turns ntop others k st c k' st' c' \<and> \<not> intact N (others k' st'))"
proof (induction arbitrary: k st c rule: peer_ok.induct)
  case (stop s)
  have "conn_ok c" using stop.prems(1) by (simp add: conn_start_def)
  then obtain c' where "Router_Service.conn_step ntop (others k st) c = Some (False, others k st, c')"
    using router_step_stop [of c ntop "others k st"] stop by auto
  then show ?case by (simp add: Router_Service.conn_loop.simps)
next
  case (msg s m rest ch)
  show ?case
  proof (cases "intact N (others k st)")
    case False
    then show ?thesis by (blast intro: turns.start)
  next
    case True
    have "length rest < length s" using first_msg_split [OF msg.hyps(1)] by auto
    then have room: "conn_room N (Suc (length rest)) (c_net c)" by (intro conn_room_mono [OF msg.prems(3)]) simp
    have fm: "first_msg 0 (stream (recv_script (c_net c))) = Some (m, rest)" using msg.hyps(1) msg.prems(2) by simp
    obtain es ms where ready: "turn_ready es ms (others k st) (c_net c)" "length es \<le> N" using intact_ready [OF True room N] .
    obtain go st' c' where st: "Router_Service.conn_step ntop (others k st) c = Some (go, st', c')"
      "go \<Longrightarrow> turn_ok (length es) ms rest (others k st) c st' c'"
      using router_step_msg [OF msg.prems(1) fm msg.hyps(2-4) ready(1) ok] by blast
    show ?thesis
    proof (cases go)
      case False
      then show ?thesis using st(1) by (simp add: Router_Service.conn_loop.simps [of _ _ _ _ c])
    next
      case go: True
      have "conn_room N (length rest) (c_net c')"
        using conn_room_next [OF room st(2) [OF go] _ ready(2)] True by (simp add: intact_def)
      moreover have "conn_start c'" "stream (recv_script (c_net c')) = rest" using st(2) [OF go] by (simp_all add: turn_ok_def)
      ultimately consider st'' c'' where "Router_Service.conn_loop ntop others (k + 1) st' c' = Some (st'', c'')"
        | k'' st'' c'' where "turns ntop others (k + 1) st' c' k'' st'' c''" "\<not> intact N (others k'' st'')"
        using msg.IH [of c' "k + 1" st'] by blast
      then show ?thesis
      proof cases
        case 1
        then show ?thesis using st(1) go by (simp add: Router_Service.conn_loop.simps [of _ _ _ _ c])
      next
        case 2
        have "turns ntop others k st c k'' st'' c''" by (rule turns.turn [OF _ 2(1)]) (use st(1) go in simp)
        then show ?thesis using 2(2) by blast
      qed
    qed
  qed
qed

section \<open>Properties\<close>

text \<open>C8. Robustness of connections to the router, beside the other threads: whatever the bytes a peer sends, however they are cut into
  segments and whenever the connection closes or breaks in either direction, and whatever the clock threads, the datagrams and other
  connections make of the tables and the list of routers between its turns (\<open>others\<close>), \<open>handle_connection\<close> returns with its thread given back,
  or some turn finds tables that are damaged or have more than \<open>N\<close> elements. As long as that does not happen every turn
  stays within its buffers, whatever broadcasts it floods, and the loop ends. A turn of the connection itself that finds the tables intact leaves
  them so, or has made the message cache forget an identifier, the defect that C6 describes. The peer has to keep every message
  shorter than the buffer and to send no blank message, and \<open>mi->len\<close>, which \<open>tcp_server_main\<close> never sets, must not exceed the buffer.\<close>

theorem router_connections_are_safe:
  assumes "Conn mi \<in> set (workers srv)" and "length (mi_msg mi) = MSG_MAX" and "mi_len mi \<le> MSG_MAX" and "inet_family (mi_addr mi)"
    and "JSMN_NTOK \<le> length tok" and "peer_ok (stream (recv_script w))" and "segments_ok (recv_script w)" and "closes (recv_script w)"
    and "conn_room N (length (stream (recv_script w))) w" and "N < 10 ^ 9" and "inet_ok ntop pton"
    and "c = \<lparr>c_mi = mi, c_tok = tok, c_ntok = JSMN_NTOK, c_net = w\<rparr>"
  shows "((\<exists>st' w' n'. Router_Service.handle_connection ntop others tok mi st w (num_threads srv) = Some (st', w', n') \<and>
        server_step mx srv (worker_exit (Conn mi) n' srv)) \<or>
      (\<exists>k st' c'. turns ntop others 0 st c k st' c' \<and> \<not> intact N (others k st'))) \<and>
    (\<forall>k st' c' go st'' c''. turns ntop others 0 st c k st' c' \<and> intact N (others k st') \<and>
        Router_Service.conn_step ntop (others k st') c' = Some (go, st'', c'') \<longrightarrow>
      intact (Suc N) st'' \<or> forgets (rs_cache (others k st')) (rs_cache st''))"
proof
  have "conn_start c" using assms by (simp add: conn_start_def conn_ok_def)
  then consider st' c' where "Router_Service.conn_loop ntop others 0 st c = Some (st', c')"
    | "\<exists>k st' c'. turns ntop others 0 st c k st' c' \<and> \<not> intact N (others k st')"
    using router_loop_total [OF assms(11,10,6), of c others 0 st] assms(9,12) by auto
  then show "(\<exists>st' w' n'. Router_Service.handle_connection ntop others tok mi st w (num_threads srv) = Some (st', w', n') \<and>
        server_step mx srv (worker_exit (Conn mi) n' srv)) \<or>
      (\<exists>k st' c'. turns ntop others 0 st c k st' c' \<and> \<not> intact N (others k st'))"
  proof cases
    case 1
    then have run: "Router_Service.handle_connection ntop others tok mi st w (num_threads srv) = Some (st', c_net c', num_threads srv - 1)"
      using assms(12) by (simp add: Router_Service.handle_connection_def)
    then have "server_step mx srv (worker_exit (Conn mi) (num_threads srv - 1) srv)"
      by (intro router_conn.exit_step [OF assms(1), where s = "(st, w)" and mi = mi and ntop = ntop and others = others and tok = tok]) simp
    then show ?thesis using run by blast
  qed simp
  show "\<forall>k st' c' go st'' c''. turns ntop others 0 st c k st' c' \<and> intact N (others k st') \<and>
        Router_Service.conn_step ntop (others k st') c' = Some (go, st'', c'') \<longrightarrow>
      intact (Suc N) st'' \<or> forgets (rs_cache (others k st')) (rs_cache st'')"
    using turn_keeps_intact by blast
qed

text \<open>A broadcast over a connection, while the other threads let everything expire and put a router back in the list.\<close>

lemma router_connections_are_safe_witness:
  \<open>\<exists>st' w' n'. Router_Service.handle_connection text_ntop (\<lambda>k st. bstate) (replicate 256 (mk_tok JSMN_STRING 0 0 0)) blank_msg bstate
      (\<lparr>send_script = replicate 13000 (SendN 1), recv_script = [RecvData (bmsg @ [CR]), RecvData [LF, CR, LF], RecvErr 5],
        udp_script = replicate 99 (UdpSendErr 1), tcp_out = [], dgrams = []\<rparr>) 1 = Some (st', w', n')\<close>
proof -
  let ?w = "\<lparr>send_script = replicate 13000 (SendN 1), recv_script = [RecvData (bmsg @ [CR]), RecvData [LF, CR, LF], RecvErr 5],
        udp_script = replicate 99 (UdpSendErr 1), tcp_out = [], dgrams = []\<rparr>"
  let ?tok = "replicate 256 (mk_tok JSMN_STRING 0 0 0)" and ?srv = "boot\<lparr>workers := [Conn blank_msg], num_threads := 1\<rparr>"
  have s: "stream (recv_script ?w) = bmsg @ DELIM" by (simp add: DELIM_def)
  have l: "length (bmsg @ DELIM) = 45" by (simp add: bmsg_def)
  have f: "first_msg 0 (bmsg @ DELIM) = Some (bmsg @ DELIM, [])" by (simp add: bmsg_def DELIM_def dstep_def numeral_eq_Suc)
  have ch: "CHR ''m'' \<in> set (cstr ((bmsg @ DELIM) @ [NUL]))" "\<not> sep_char CHR ''m''"
    by (simp_all add: bmsg_def DELIM_def cstr_def sep_char_def)
  have m: "length (bmsg @ DELIM) < MSG_MAX" unfolding l by (simp add: MSG_MAX_def)
  have "peer_ok []" by (rule peer_ok.stop) (simp_all add: MSG_MAX_def)
  then have p: "peer_ok (stream (recv_script ?w))" unfolding s by (rule peer_ok.msg [OF f m ch])
  have e: "segments_ok (recv_script ?w)" "closes (recv_script ?w)" by (simp_all add: segments_ok_def closes_def bmsg_def)
  have room: "conn_room 1 (length (stream (recv_script ?w))) ?w"
    unfolding s l by (simp add: conn_room_def live_link_def turn_bytes_def)
  have fam: "inet_family (mi_addr blank_msg)" by (simp add: blank_msg_def inet_family_def AF_INET_def AF_INET6_def)
  have b: "length (mi_msg blank_msg) = MSG_MAX" "mi_len blank_msg \<le> MSG_MAX" by (simp_all add: blank_msg_def MSG_MAX_def)
  have tok: "JSMN_NTOK \<le> length ?tok" by (simp add: JSMN_NTOK_def)
  have "client_rep (rs_clients bstate) []" "msg_rep (rs_cache bstate) []" using client_table_rep msg_cache_rep by simp_all
  then have "intact 1 bstate" by (auto simp: intact_def inet_family_def sa4_def intro!: exI [of _ "[]"])
  moreover have "Conn blank_msg \<in> set (workers ?srv)" "num_threads ?srv = 1" by simp_all
  ultimately show ?thesis
    using router_connections_are_safe [OF _ b fam tok p e room _ text_inet_ok refl, of ?srv "\<lambda>k st. bstate" bstate 1] by auto
qed

end
