(* ===== verification/Exchange.thy ===== *)
theory Exchange
  imports Tracker_Service
begin

text \<open>
  The answer to a discovery on its way back: the bytes that the connection callback of the tracker sends, taken from the
  stream by \<open>tcp_read_msg\<close>, \<open>parse_header\<close>, \<open>tcp_read_bytes\<close> and \<open>parse_node_list\<close>. These are the functions the
  library has for it, and the ones that \<open>psnet_request\<close> names after its first jump; since that jump is not part of
  its condition (\<open>Protocol\<close>) the statements that call them never run, and no definition stands for them.
  \<open>tcp_read_bytes_stream\<close> is what \<open>tcp_read_bytes\<close> does on a stream that holds what is asked for, however it is cut into segments.
\<close>

section \<open>Reading the body\<close>

lemma c_recv_some:
  assumes "segments_ok evs" and "stream evs = r @ rest" and "0 < length r"
  obtains data r' evs' where "c_recv (length r) evs = Some (Inr data, evs')" "data \<noteq> []" "r = data @ r'"
    "stream evs' = r' @ rest" "segments_ok evs'"
proof -
  obtain ds evs1 where evs: "evs = RecvData ds # evs1" "ds \<noteq> []" and st: "r @ rest = ds @ stream evs1"
    using assms by (cases evs rule: stream.cases) (auto simp: segments_ok_def)
  let ?data = "take (length r) ds" and ?evs = "if length ds \<le> length r then evs1 else RecvData (drop (length r) ds) # evs1"
  have data: "?data = take (length ds) r"
    using arg_cong [OF st, of "\<lambda>s. take (min (length r) (length ds)) s"] by (simp add: min_def split: if_splits)
  have "stream ?evs = drop (length ds) r @ rest"
  proof (cases "length ds \<le> length r")
    case True
    then show ?thesis using arg_cong [OF st, of "drop (length ds)"] by simp
  next
    case False
    then have "rest = drop (length r) (ds @ stream evs1)" using arg_cong [OF st, of "drop (length r)"] by simp
    then show ?thesis using False by simp
  qed
  moreover have "segments_ok ?evs" using assms(1) evs by (auto simp: segments_ok_def)
  moreover have "r = ?data @ drop (length ds) r" using data by simp
  moreover have "?data \<noteq> []" using evs(2) assms(3) by auto
  ultimately show ?thesis using evs(1) by (intro that [of ?data ?evs "drop (length ds) r"]) simp_all
qed

lemma read_bytes_loop_stream:
  assumes "segments_ok evs" and "stream evs = r @ rest" and "bread + length r = bytes" and "bytes \<le> length buf"
  shows "\<exists>evs'. read_bytes_loop evs buf bytes bread = Some (int bytes, take bread buf @ r @ drop bytes buf, evs') \<and>
    stream evs' = rest \<and> segments_ok evs'"
  using assms
proof (induction r arbitrary: evs buf bread rule: length_induct)
  case (1 r)
  show ?case
  proof (cases "r = []")
    case True
    then show ?thesis using "1.prems" by (subst read_bytes_loop.simps) simp
  next
    case False
    then obtain data r' evs' where d: "c_recv (length r) evs = Some (Inr data, evs')" "data \<noteq> []" "r = data @ r'"
      "stream evs' = r' @ rest" "segments_ok evs'"
      using "1.prems"(1,2) by - (rule c_recv_some, assumption+, use False in simp, blast)
    let ?buf = "take bread buf @ data @ drop (bread + length data) buf"
    have w: "wr_bytes buf bread data = Some ?buf" using "1.prems"(3,4) d(3) by (simp add: wr_bytes_def)
    have "length ?buf = length buf" using "1.prems"(3,4) d(3) by simp
    moreover have "length r' < length r" "bread + length data + length r' = bytes" using d(2,3) "1.prems"(3) by simp_all
    ultimately obtain evs'' where e: "read_bytes_loop evs' ?buf bytes (bread + length data) =
        Some (int bytes, take (bread + length data) ?buf @ r' @ drop bytes ?buf, evs'')" "stream evs'' = rest" "segments_ok evs''"
      using "1.IH" [rule_format, of r' evs' "bread + length data" ?buf] d(4,5) "1.prems"(4) by auto
    have "take (bread + length data) ?buf @ r' @ drop bytes ?buf = take bread buf @ r @ drop bytes buf"
      using "1.prems"(3,4) d(3) by simp
    moreover have "bytes - bread = length r" "bread < bytes" using "1.prems"(3) False by auto
    ultimately show ?thesis using d(1,2) w e by (subst read_bytes_loop.simps) simp
  qed
qed

lemma tcp_read_bytes_stream:
  assumes "segments_ok (recv_script w)" and "stream (recv_script w) = r @ rest" and "length r \<le> length buf"
  shows "\<exists>evs. tcp_read_bytes buf (length r) w = Some (int (length r), r @ drop (length r) buf, w\<lparr>recv_script := evs\<rparr>) \<and>
    stream evs = rest \<and> segments_ok evs"
  using read_bytes_loop_stream [OF assms(1,2), of 0 "length r" buf] assms(3) by (auto simp: tcp_read_bytes_def)

text \<open>A framed response of fewer than ten thousand bytes, read with the functions of the library.\<close>

lemma read_framed:
  assumes "256 \<le> length tok" and "64 \<le> cap" "cap \<le> length hdr" and "length body \<le> length buf"
    and "segments_ok (recv_script w)" and "stream (recv_script w) = framed body @ rest" and "length body < 10000"
  shows "\<exists>k hdr' size w1 w2. tcp_read_msg hdr cap w = Some (k, hdr', w1) \<and> 0 < k \<and> k < int cap \<and>
    parse_header tok hdr' = Some (Some (PSNET_OKAY, size)) \<and> unat size = length body \<and>
    tcp_read_bytes buf (unat size) w1 = Some (int (unat size), body @ drop (unat size) buf, w2) \<and>
    stream (recv_script w2) = rest"
proof -
  let ?m = "render (header_doc (length body))" and ?n = "length body"
  have dl: "length (dec ?n) \<le> 4" using assms(7) by (intro dec_length_le) simp_all
  then have ml: "length ?m + 4 < cap" using assms(2) by (simp add: header_doc_text)
  have cr: "CR \<notin> set ?m" using digits_no_CR by (simp add: header_doc_text)
  obtain evs1 where r: "tcp_read_msg hdr cap w =
      Some (int (length ?m + 4), ?m @ DELIM @ NUL # drop (length ?m + 5) hdr, w\<lparr>recv_script := evs1\<rparr>)"
    "stream evs1 = body @ rest" "segments_ok evs1"
    using tcp_read_msg_frame [OF cr ml assms(3), of w "body @ rest"] assms(5,6) by (auto simp: framed_def)
  have h: "parse_header tok (?m @ DELIM @ NUL # drop (length ?m + 5) hdr) = Some (Some (PSNET_OKAY, of_nat ?n))"
    using parse_header_small [OF assms(1,7)] by simp
  have un: "unat (of_nat ?n :: ulong) = ?n" using assms(7) by (simp add: unat_of_nat)
  obtain evs2 where b: "tcp_read_bytes buf ?n (w\<lparr>recv_script := evs1\<rparr>) =
      Some (int ?n, body @ drop ?n buf, w\<lparr>recv_script := evs2\<rparr>)" "stream evs2 = rest"
    using tcp_read_bytes_stream [of "w\<lparr>recv_script := evs1\<rparr>" body rest buf] r(2,3) assms(4) by auto
  show ?thesis
    by (rule exI, rule exI, rule exI [of _ "of_nat ?n"], rule exI, rule exI [of _ "w\<lparr>recv_script := evs2\<rparr>"])
      (use r(1) h un b ml in \<open>auto intro!: exI\<close>)
qed

lemma read_node_list:
  assumes "inet_ok ntop pton" and "\<forall>sa \<in> set sas. inet_family sa" and "length sas \<le> n"
    and "body = render (list_doc (map (sa_doc ntop) sas)) @ DELIM" and "length body < 10000"
    and "256 \<le> length htok" and "64 \<le> cap" and "cap \<le> length hdr" and "length body < length buf" and "1 + 10 * n \<le> length tok"
    and "segments_ok (recv_script w)" and "stream (recv_script w) = framed body @ rest'"
  shows "\<exists>k hdr' size w1 m resp w2 resp'. tcp_read_msg hdr cap w = Some (k, hdr', w1) \<and> 0 < k \<and> k < int cap \<and>
    parse_header htok hdr' = Some (Some (PSNET_OKAY, size)) \<and>
    tcp_read_bytes buf (unat size) w1 = Some (int m, resp, w2) \<and> m = unat size \<and> wr resp m NUL = Some resp' \<and>
    stream (recv_script w2) = rest' \<and> parse_node_list pton tok [] resp' n = Some (0, map norm_sa sas)"
proof -
  obtain k hdr' size w1 w2 where r: "tcp_read_msg hdr cap w = Some (k, hdr', w1)" "0 < k" "k < int cap"
    "parse_header htok hdr' = Some (Some (PSNET_OKAY, size))" "unat size = length body"
    "tcp_read_bytes buf (unat size) w1 = Some (int (unat size), body @ drop (unat size) buf, w2)" "stream (recv_script w2) = rest'"
    using read_framed [OF assms(6-8) less_imp_le [OF assms(9)] assms(11,12,5)] by blast
  obtain c junk where d: "drop (length body) buf = c # junk" using assms(9) by (cases "drop (length body) buf") auto
  then have wr: "wr (body @ drop (unat size) buf) (unat size) NUL = Some (body @ NUL # junk)" using r(5) by (simp add: wr_def)
  have "parse_node_list pton tok [] (body @ NUL # junk) n = Some (0, map norm_sa sas)"
    using parse_node_list_doc [OF assms(1-3,10), of "[]" junk] unfolding assms(4) by simp
  then show ?thesis using r wr by blast
qed

section \<open>Properties\<close>

text \<open>C14. Discovery round trip, from the addresses in the tracker's table to the ones that come out of \<open>parse_node_list\<close>: the
  request that \<open>psnet_raw_request_discover\<close> formats, once it arrives first on a connection of the tracker whose
  array of tokens has at least seven elements left, is answered; and \<open>tcp_read_msg\<close>, \<open>parse_header\<close>, \<open>tcp_read_bytes\<close> and
  \<open>parse_node_list\<close>, applied one after the other to that answer, return the registered addresses and ports, in order, at most
  as many as were asked for and without the one that asks, and leave what follows on the stream. The two ends may cut the streams into any segments; the
  table is intact, the link accepts the answer and the answer has fewer than ten thousand bytes (C22).
  It is a statement about these functions: \<open>psnet_request\<close>, which would call them, never gets that far (C27).\<close>

theorem discovery_roundtrip:
  assumes "client_rep T es" and "inet_ok ntop pton" and "n < 2 ^ 31" and "p < 65536"
    and "length (mi_msg (c_mi c)) = MSG_MAX" and "7 \<le> c_ntok c" "c_ntok c \<le> length (c_tok c)"
    and "(len, msg) = c_snprintf (40 + 40 + 5) (discover_msg (int n) (int p))"
    and "segments_ok (recv_script (c_net c))" and "stream (recv_script (c_net c)) = take len msg @ rest"
    and "sas = take n (filter (\<lambda>d. \<not> delta_equals d (set_in_port (htons (of_nat p)) (mi_addr (c_mi c)))) (map fst es))"
    and "body = render (list_doc (map (sa_doc ntop) sas)) @ DELIM"
    and "length body < 10000" and "good_link (length (framed body)) (c_net c)"
  shows "(\<exists>c'. conn_step ntop T c = Some (True, c') \<and> tcp_out (c_net c') = tcp_out (c_net c) @ framed body \<and>
      stream (recv_script (c_net c')) = rest) \<and>
    (\<forall>htok hdr cap buf tok w rest'. 256 \<le> length htok \<and> 64 \<le> cap \<and> cap \<le> length hdr \<and> length body < length buf \<and>
        1 + 10 * n \<le> length tok \<and> segments_ok (recv_script w) \<and> stream (recv_script w) = framed body @ rest' \<longrightarrow>
      (\<exists>k hdr' size w1 m resp w2 resp'. tcp_read_msg hdr cap w = Some (k, hdr', w1) \<and> 0 < k \<and> k < int cap \<and>
        parse_header htok hdr' = Some (Some (PSNET_OKAY, size)) \<and>
        tcp_read_bytes buf (unat size) w1 = Some (int m, resp, w2) \<and> m = unat size \<and> wr resp m NUL = Some resp' \<and>
        stream (recv_script w2) = rest' \<and> parse_node_list pton tok [] resp' n = Some (0, map norm_sa sas)))"
proof -
  have ten: "length (dec n) \<le> 10" "length (dec p) \<le> 5" using assms(3,4) by (auto intro!: dec_length_le)
  then have short: "length (discover_msg (int n) (int p)) < 85" by (simp add: discover_msg_def dec_int_def)
  then have msg: "take len msg = discover_msg (int n) (int p)" using assms(8) by (auto simp: c_snprintf_def)
  have "length body < 2 ^ 64" using assms(13) by simp
  then have step: "\<exists>c'. conn_step ntop T c = Some (True, c') \<and> tcp_out (c_net c') = tcp_out (c_net c) @ framed body \<and>
      stream (recv_script (c_net c')) = rest"
    using discover_step [OF assms(1-7,9)] assms(10,14) unfolding assms(11,12) msg by blast
  have fam: "\<forall>sa \<in> set sas. inet_family sa"
    using client_rep_inet [OF assms(1)] unfolding assms(11) by (auto dest!: in_set_takeD)
  have n: "length sas \<le> n" unfolding assms(11) by simp
  show ?thesis
    by (intro conjI allI impI step, elim conjE, rule read_node_list [OF assms(2) fam n assms(12,13)]) assumption+
qed

lemma discovery_roundtrip_witness:
  \<open>\<exists>T c' k hdr size w1 resp w2 resp'. conn_step text_ntop T
      \<lparr>c_mi = \<lparr>mi_socktype = SOCK_STREAM, mi_len = 0, mi_addr = sa4 9 1, mi_msg = replicate 512 NUL\<rparr>,
        c_tok = replicate 256 (mk_tok JSMN_STRING 0 0 0), c_ntok = 256,
        c_net = net_of (replicate 99 (SendN 1))
          [RecvData ''{"method":"disc'', RecvData (''over","num":2,"port":7}'' @ DELIM)]\<rparr> = Some (True, c') \<and>
    tcp_out (c_net c') = ''{"status":"okay","size":42}'' @ DELIM @ ''[{"ip":"127.0.0.1","port":80,"ipv":4}]'' @ DELIM \<and>
    tcp_read_msg (replicate 512 CR) 512
      (net_of [] [RecvData ''{"status":"okay","size":42}'', RecvData DELIM,
         RecvData ''[{"ip":"127.0.0.1",'', RecvData (''"port":80,"ipv":4}]'' @ DELIM)]) = Some (k, hdr, w1) \<and>
    parse_header (replicate 256 (mk_tok JSMN_STRING 0 0 0)) hdr = Some (Some (PSNET_OKAY, size)) \<and>
    tcp_read_bytes (replicate 43 CR) (unat size) w1 = Some (int (unat size), resp, w2) \<and> wr resp (unat size) NUL = Some resp' \<and>
    parse_node_list text_pton (replicate 21 (mk_tok JSMN_STRING 0 0 0)) [] resp' 2 = Some (0, [sa4 16777343 80])\<close>
proof -
  let ?mi = "\<lparr>mi_socktype = SOCK_STREAM, mi_len = 0, mi_addr = sa4 9 1, mi_msg = replicate 512 NUL\<rparr>"
  let ?w = "net_of (replicate 99 (SendN 1))
      [RecvData ''{\"method\":\"disc'', RecvData (''over\",\"num\":2,\"port\":7}'' @ DELIM)]"
  let ?c = "\<lparr>c_mi = ?mi, c_tok = replicate 256 (mk_tok JSMN_STRING 0 0 0), c_ntok = 256, c_net = ?w\<rparr>"
  let ?body = "''[{\"ip\":\"127.0.0.1\",\"port\":80,\"ipv\":4}]'' @ DELIM"
  let ?v = "net_of [] [RecvData ''{\"status\":\"okay\",\"size\":42}'', RecvData DELIM,
         RecvData ''[{\"ip\":\"127.0.0.1\",'', RecvData (''\"port\":80,\"ipv\":4}]'' @ DELIM)]"
  let ?msg = "''{\"method\":\"discover\",\"num\":2,\"port\":7}'' @ DELIM @ [NUL]"
  let ?es = "[(sa4 16777343 80, 10), (sa4 9 7, 10)]"
  obtain T1 where T1: "client_rep T1 [(sa4 16777343 80, 10)]"
    using client_update [OF client_table_rep, of "sa4 16777343 80"] by (auto simp: hits_last_def spec_update_def)
  obtain T where T: "client_rep T ?es"
    using client_update [OF T1, of "sa4 9 7"] by (auto simp: hits_last_def spec_update_def)
  have snp: "(42, ?msg) = c_snprintf (40 + 40 + 5) (discover_msg (int 2) (int 7))"
    by (simp add: c_snprintf_def discover_msg_def dec_int_def dec.simps digit_chars DELIM_def)
  have sas: "[sa4 16777343 80] = take 2 (filter
      (\<lambda>d. \<not> delta_equals d (set_in_port (htons (of_nat 7)) (mi_addr (c_mi ?c)))) (map fst ?es))" by simp
  have doc: "render (list_doc (map (sa_doc text_ntop) [sa4 16777343 80])) @ DELIM = ?body"
    by (simp add: sa_doc_def node_doc_def list_doc_def) (simp add: sa4_def get_in_addr_def get_in_port_def
        dotted_def Let_def dec.simps digit_chars)
  have fr: "framed ?body = ''{\"status\":\"okay\",\"size\":42}'' @ DELIM @ ?body"
    by (simp add: framed_def header_doc_text dec.simps digit_chars)
  have norm: "norm_sa (sa4 16777343 80) = sa4 16777343 80"
    by (simp add: norm_sa_def sa4_def zero_sa_def set_in_port_def get_in_port_def get_in_addr_def)
  have out: "tcp_out (c_net ?c) = []" by (simp add: net_of_def)
  have sas1: "length (mi_msg (c_mi ?c)) = MSG_MAX" "7 \<le> c_ntok ?c" "c_ntok ?c \<le> length (c_tok ?c)" by (simp_all add: MSG_MAX_def)
  have rcv: "segments_ok (recv_script (c_net ?c))" "stream (recv_script (c_net ?c)) = take 42 ?msg @ []"
    by (simp_all add: net_of_def segments_ok_def DELIM_def)
  have link: "good_link (length (framed ?body)) (c_net ?c)" unfolding fr by (simp add: good_link_def net_of_def list_all_length)
  have w: "segments_ok (recv_script ?v)" "stream (recv_script ?v) = framed ?body @ []"
    unfolding fr by (simp_all add: net_of_def segments_ok_def DELIM_def)
  have l: "length ?body < 10000" "length ?body < length (replicate 43 CR)" by simp_all
  note D = discovery_roundtrip [OF T text_inet_ok _ _ sas1 snp rcv sas doc [symmetric] l(1) link]
  obtain c' where c: "conn_step text_ntop T ?c = Some (True, c')" "tcp_out (c_net c') = framed ?body"
    using D unfolding out by auto
  obtain k hdr size w1 resp w2 resp' where r: "tcp_read_msg (replicate 512 CR) 512 ?v = Some (k, hdr, w1)"
    "parse_header (replicate 256 (mk_tok JSMN_STRING 0 0 0)) hdr = Some (Some (PSNET_OKAY, size))"
    "tcp_read_bytes (replicate 43 CR) (unat size) w1 = Some (int (unat size), resp, w2)" "wr resp (unat size) NUL = Some resp'"
    "parse_node_list text_pton (replicate 21 (mk_tok JSMN_STRING 0 0 0)) [] resp' 2 = Some (0, [sa4 16777343 80])"
    using conjunct2 [OF D, rule_format, of "replicate 256 (mk_tok JSMN_STRING 0 0 0)" 512 "replicate 512 CR" "replicate 43 CR"
      "replicate 21 (mk_tok JSMN_STRING 0 0 0)" ?v "[]"] w l(2) norm by auto
  show ?thesis using c r unfolding fr by blast
qed

end
