(* ===== verification/Answers.thy ===== *)
theory Answers
  imports Router_Connections Exchange
begin

text \<open>
  The requests without arguments, \<open>ip\<close>, \<open>info\<close> and \<open>ping\<close>, end to end: from the bytes on the connection to the bytes
  of the answer, and for \<open>info\<close> on to the text that the one who asks gets.
\<close>

section \<open>Requests\<close>

definition plain_req :: "string \<Rightarrow> kids" where
  "plain_req m = KCons [] (JStr ''method'') (KCons '':'' (JStr m) (KNil []))"

lemma plain_req_text: "render (JCont True (plain_req m)) = ''{\"method\":\"'' @ m @ ''\"}''"
  by (simp add: plain_req_def)

lemma plain_req_tokens: "toks_of 0 (JCont True (plain_req m)) =
    [mk_tok JSMN_OBJECT 0 (13 + length m) 2, mk_tok JSMN_STRING 2 8 0, mk_tok JSMN_STRING 11 (11 + length m) 0]"
  by (simp add: plain_req_def mk_tok_def)

lemma plain_request:
  assumes "request_on c (plain_req m) rest" and "3 \<le> c_ntok c"
  obtains buf evs tok where
    "tcp_read_msg (mi_msg (c_mi c)) MSG_MAX (c_net c) = Some (int (length m + 17), buf, (c_net c)\<lparr>recv_script := evs\<rparr>)"
    "stream evs = rest" "parse_message buf (c_tok c) (c_ntok c) = Some (2, tok, 3)"
    "\<forall>cmd. cmd_equal ((c_mi c)\<lparr>mi_msg := buf\<rparr>) tok 2 cmd = Some (m = cmd)"
    "\<forall>key \<in> {''num'', ''hops'', ''id''}. jsmn_get_value buf tok key = Some (-1)"
proof -
  let ?d = "render (JCont True (plain_req m))" and ?tok = "toks_of 0 (JCont True (plain_req m)) @ drop 3 (c_tok c)"
  let ?buf = "?d @ DELIM @ NUL # drop (length ?d + 5) (mi_msg (c_mi c))"
  have l: "length ?d + 4 = length m + 17" unfolding plain_req_text by simp
  obtain evs where "tcp_read_msg (mi_msg (c_mi c)) MSG_MAX (c_net c) = Some (int (length ?d + 4), ?buf, (c_net c)\<lparr>recv_script := evs\<rparr>)"
    "stream evs = rest"
    using tcp_read_msg_frame [of ?d MSG_MAX "mi_msg (c_mi c)" "c_net c" rest] assms(1) unfolding request_on_def by auto
  moreover have n: "length (toks_of 0 (JCont True (plain_req m))) = 3" unfolding plain_req_tokens by simp
  have "obj_lookup ''method'' 1 (plain_req m) = 2" by (simp add: plain_req_def)
  then have "parse_message ?buf (c_tok c) (c_ntok c) = Some (2, ?tok, 3)"
    using parse_message_doc [of "plain_req m" DELIM "c_ntok c" "c_tok c"] seps_DELIM assms n
    by (simp add: request_on_def del: render.simps toks_of.simps)
  moreover have "cmd_equal ((c_mi c)\<lparr>mi_msg := ?buf\<rparr>) ?tok 2 cmd = Some (m = cmd)" for cmd
    by (rule cmd_equal_req) (simp_all only: plain_req_text plain_req_tokens, simp_all add: rd_tok_def)
  moreover have "jsmn_get_value ?buf ?tok key = Some (-1)" if "key \<in> {''num'', ''hops'', ''id''}" for key
  proof -
    have "jsmn_get_value ?buf ?tok key = Some (obj_lookup key 1 (plain_req m))"
      using that by (intro jsmn_get_value_doc [where pre = "[]" and ob = True]) (auto simp del: render.simps toks_of.simps)
    then show ?thesis using that by (auto simp: plain_req_def)
  qed
  ultimately show ?thesis using that l by metis
qed

section \<open>Answers\<close>

lemma send_two_framed:
  assumes "length body < n" and "length body < 10000" and "good_link (length (framed body)) w"
  obtains rsp hdr evs where "c_sprintf n body = Some rsp" "c_sprintf HDR_OK_STRLEN (hdr_ok_fmt (int (fst rsp))) = Some hdr"
    "send_two hdr rsp w = Some (w\<lparr>send_script := evs, tcp_out := tcp_out w @ framed body\<rparr>)"
proof -
  let ?h = "hdr_ok_fmt (int (length body))"
  have h: "framed body = ?h @ body" by (simp add: framed_def header_doc_text hdr_ok_fmt_def dec_int_def)
  have "length (dec (length body)) \<le> 4" by (rule dec_length_le) (use assms(2) in simp_all)
  then have lh: "length ?h < HDR_OK_STRLEN" by (simp add: hdr_ok_length HDR_OK_STRLEN_def)
  have g: "good_link (length ?h + length body) w" using assms(3) h by simp
  obtain evs where s1: "tcp_send_bytes (?h @ [NUL]) (length ?h) w = Some (int (length ?h), w\<lparr>send_script := evs, tcp_out := tcp_out w @ ?h\<rparr>)"
    "good_link (length body + 0) (w\<lparr>send_script := evs, tcp_out := tcp_out w @ ?h\<rparr>)"
    using tcp_send_bytes_good [OF g, of "?h @ [NUL]"] by auto
  obtain evs' where "tcp_send_bytes (body @ [NUL]) (length body) (w\<lparr>send_script := evs, tcp_out := tcp_out w @ ?h\<rparr>) =
      Some (int (length body), w\<lparr>send_script := evs', tcp_out := tcp_out w @ ?h @ body\<rparr>)"
    using tcp_send_bytes_good [OF s1(2), of "body @ [NUL]"] by auto
  then show ?thesis using s1(1) assms(1) lh h
    by (intro that [of "(length body, body @ [NUL])" "(length ?h, ?h @ [NUL])" evs']) (simp_all add: c_sprintf_def send_two_def)
qed

text \<open>A call that sends \<open>ans\<close>, and nothing else.\<close>

definition says :: "string \<Rightarrow> net \<Rightarrow> net option \<Rightarrow> bool" where
  "says ans w r \<longleftrightarrow> (\<exists>evs. r = Some (w\<lparr>send_script := evs, tcp_out := tcp_out w @ ans\<rparr>))"

lemma says_framed:
  assumes "length body < n" and "length body < 10000" and "good_link (length (framed body)) w"
  shows "says (framed body) w (do { rsp \<leftarrow> c_sprintf n body; hdr \<leftarrow> c_sprintf HDR_OK_STRLEN (hdr_ok_fmt (int (fst rsp))); send_two hdr rsp w })"
  by (rule send_two_framed [OF assms]) (auto simp: says_def)

definition ip_body :: "string \<Rightarrow> string" where
  \<open>ip_body a = ''{"ip":"'' @ a @ ''"}'' @ DELIM\<close>

definition router_info_body :: "nat \<Rightarrow> nat \<Rightarrow> string" where
  \<open>router_info_body clients load = ''{"name":"generic psnet router","clients":'' @ dec clients @ '',"cache-load":'' @ dec load @ ''}'' @ DELIM\<close>

definition tracker_info_body :: "nat \<Rightarrow> string" where
  \<open>tracker_info_body routers = ''{"name":"generic psnet tracker","routers":'' @ dec routers @ ''}'' @ DELIM\<close>

lemma info_body_length:
  "a < 10 ^ 9 \<Longrightarrow> b < 10 ^ 9 \<Longrightarrow> length (router_info_body a b) < 60 + 10 + 10"
  "a < 10 ^ 9 \<Longrightarrow> length (tracker_info_body a) < 47 + 10"
proof -
  have d: "length (dec n) \<le> 9" if "n < 10 ^ 9" for n by (rule dec_length_le) (use that in simp_all)
  show "a < 10 ^ 9 \<Longrightarrow> b < 10 ^ 9 \<Longrightarrow> length (router_info_body a b) < 60 + 10 + 10"
    using d [of a] d [of b] by (simp add: router_info_body_def)
  show "a < 10 ^ 9 \<Longrightarrow> length (tracker_info_body a) < 47 + 10" using d [of a] by (simp add: tracker_info_body_def)
qed

lemma framed_length: "length body < 10000 \<Longrightarrow> length (framed body) \<le> 33 + length body"
  using dec_length_le [of "length body" 4] by (simp add: framed_def header_doc_text)

definition error_text :: "nat \<Rightarrow> string \<Rightarrow> string" where
  \<open>error_text code reason = ''{"status":"error","code":'' @ dec code @ '',"reason":"'' @ reason @ ''"}'' @ DELIM\<close>

lemma good_link_mono: "good_link n w \<Longrightarrow> k \<le> n \<Longrightarrow> good_link k w"
  by (simp add: good_link_def)

lemma send_error_says:
  assumes "code < 10" and "length reason \<le> 30" and "good_link 80 w"
  shows "says (error_text code reason) w (psnet_send_error code reason w)"
proof -
  let ?t = "error_text code reason"
  have "length (dec code) \<le> 1" by (rule dec_length_le) (use assms(1) in simp_all)
  then have l: "length ?t \<le> 80" using assms(2) by (simp add: error_text_def)
  then have "good_link (length ?t + 0) w" using assms(3) by (simp add: good_link_def)
  then obtain evs where "tcp_send_bytes (?t @ [NUL]) (length ?t) w = Some (int (length ?t), w\<lparr>send_script := evs, tcp_out := tcp_out w @ ?t\<rparr>)"
    using tcp_send_bytes_good [of "length ?t" 0 w "?t @ [NUL]"] by auto
  moreover have "c_sprintf (42 + 3 + PSNET_ERRSTRLEN) ?t = Some (length ?t, ?t @ [NUL])" using l by (simp add: c_sprintf_def PSNET_ERRSTRLEN_def)
  ultimately show ?thesis unfolding says_def psnet_send_error_def error_text_def [symmetric] by (intro exI [of _ evs]) simp
qed

lemma errors_say:
  assumes "good_link 80 w"
  shows "says (error_text (node_code no) (psnode_strerror no)) w (node_error no w)"
    and "says (error_text (dir_code no') (psdir_strerror no')) w (dir_error no' w)"
proof -
  have "node_code no < 10 \<and> length (psnode_strerror no) \<le> 30" by (cases no) simp_all
  then show "says (error_text (node_code no) (psnode_strerror no)) w (node_error no w)"
    unfolding node_error_def using send_error_says [OF _ _ assms] by blast
  have "dir_code no' < 10 \<and> length (psdir_strerror no') \<le> 30" by (cases no') simp_all
  then show "says (error_text (dir_code no') (psdir_strerror no')) w (dir_error no' w)"
    unfolding dir_error_def using send_error_says [OF _ _ assms] by blast
qed

lemma infos_say:
  assumes "client_rep (rs_clients st) es" "msg_rep (rs_cache st) ms" "length es < 10 ^ 9" "length ms < 10 ^ 9" "good_link 120 w"
  shows "says (framed (router_info_body (length es) (length ms))) w (Router_Service.process_info st w)"
    and "says (framed (tracker_info_body (length es))) w (Tracker_Service.process_info (rs_clients st) w)"
proof -
  have sz: "sint (client_list_size (rs_clients st)) = int (length es)" "sint (msg_cache_size (rs_cache st)) = int (length ms)"
    using client.delta_size_rep [OF assms(1)] msg.delta_size_rep [OF assms(2)] assms(3,4)
    by (simp_all add: client_list_size_def msg_cache_size_def signed_count)
  have l: "length (router_info_body (length es) (length ms)) < 60 + 10 + 10" "length (tracker_info_body (length es)) < 47 + 10"
    using info_body_length assms(3,4) by blast+
  have g: "good_link (length (framed b)) w" if "length b < 60 + 10 + 10" for b
    using framed_length [of b] that by (intro good_link_mono [OF assms(5)]) simp
  let ?r = "router_info_body (length es) (length ms)" and ?t = "tracker_info_body (length es)"
  have "Router_Service.process_info st w = do { rsp \<leftarrow> c_sprintf (60 + 10 + 10) ?r;
      hdr \<leftarrow> c_sprintf HDR_OK_STRLEN (hdr_ok_fmt (int (fst rsp))); send_two hdr rsp w }"
    by (simp add: Router_Service.process_info_def sz dec_int_def router_info_body_def)
  moreover have "length ?r < 10000" "good_link (length (framed ?r)) w" using l(1) g by simp_all
  ultimately show "says (framed ?r) w (Router_Service.process_info st w)" using says_framed [OF l(1)] by simp
  have "Tracker_Service.process_info (rs_clients st) w = do { rsp \<leftarrow> c_sprintf (47 + 10) ?t;
      hdr \<leftarrow> c_sprintf HDR_OK_STRLEN (hdr_ok_fmt (int (fst rsp))); send_two hdr rsp w }"
    by (simp add: Tracker_Service.process_info_def sz dec_int_def tracker_info_body_def)
  moreover have "length ?t < 10000" "good_link (length (framed ?t)) w" using l(2) g by simp_all
  ultimately show "says (framed ?t) w (Tracker_Service.process_info (rs_clients st) w)" using says_framed [OF l(2)] by simp
qed

lemma ip_says:
  assumes "inet_ok ntop pton" "inet_family (mi_addr mi)" "good_link 120 w"
  shows "says (framed (ip_body (the (ntop (ss_family (mi_addr mi)) (get_in_addr (mi_addr mi)))))) w (process_ip ntop mi w)"
proof -
  note N = ntop_buf_ok [OF assms(1,2)]
  let ?b = "ip_body (the (ntop (ss_family (mi_addr mi)) (get_in_addr (mi_addr mi))))"
  have l: "length ?b < 13 + INET6_ADDRSTRLEN" using N(2) by (simp add: ip_body_def)
  then have s: "length ?b < 60" by (simp add: INET6_ADDRSTRLEN_def)
  then have g: "good_link (length (framed ?b)) w" using framed_length [of ?b] by (intro good_link_mono [OF assms(3)]) simp
  then have "says (framed ?b) w (do { rsp \<leftarrow> c_sprintf (13 + INET6_ADDRSTRLEN) ?b;
      hdr \<leftarrow> c_sprintf HDR_OK_STRLEN (hdr_ok_fmt (int (fst rsp))); send_two hdr rsp w })"
    using says_framed [OF l _ g] s by simp
  moreover have "process_ip ntop mi w = do { rsp \<leftarrow> c_sprintf (13 + INET6_ADDRSTRLEN) ?b;
      hdr \<leftarrow> c_sprintf HDR_OK_STRLEN (hdr_ok_fmt (int (fst rsp))); send_two hdr rsp w }"
    using N(1) by (simp add: process_ip_def ip_body_def)
  ultimately show ?thesis by simp
qed

lemma ping_says:
  assumes "good_link 120 w"
  shows "says (''{\"status\":\"okay\"}'' @ DELIM) w (process_ping w)"
proof -
  let ?b = "''{\"status\":\"okay\"}'' @ DELIM @ [NUL]"
  have "good_link (21 + 0) w" by (rule good_link_mono [OF assms]) simp
  then obtain evs where "tcp_send_bytes ?b 21 w = Some (int 21, w\<lparr>send_script := evs, tcp_out := tcp_out w @ take 21 ?b\<rparr>)"
    using tcp_send_bytes_good [of 21 0 w ?b] by auto
  moreover have "take 21 ?b = ''{\"status\":\"okay\"}'' @ DELIM" by (simp add: DELIM_def)
  ultimately show ?thesis unfolding says_def process_ping_def psnet_send_ok_def by (intro exI [of _ evs]) simp
qed

text \<open>Whether a connection goes on after a request without arguments, and the answer.\<close>

definition router_answer :: "string \<Rightarrow> nat \<Rightarrow> nat \<Rightarrow> string \<Rightarrow> bool \<times> string" where
  \<open>router_answer a clients load m =
     (if m = ''broadcast'' then (True, [])
      else if m = ''ip'' then (True, framed (ip_body a))
      else if m = ''info'' then (True, framed (router_info_body clients load))
      else if m = ''ping'' then (True, ''{"status":"okay"}'' @ DELIM)
      else if m = ''discover'' then (True, error_text 1 (''missing argument '' @ [CHR 0x27] @ ''num'' @ [CHR 0x27]))
      else (False, error_text 2 ''unrecognized method''))\<close>

definition tracker_answer :: "nat \<Rightarrow> string \<Rightarrow> bool \<times> string" where
  "tracker_answer routers m =
     (if m = ''list'' \<or> m = ''discover'' then (True, error_text 1 (''missing argument '' @ [CHR 0x27] @ ''num'' @ [CHR 0x27]))
      else if m = ''info'' then (True, framed (tracker_info_body routers))
      else (False, error_text 3 ''unrecognized method''))"

lemma router_plain:
  assumes ok: "inet_ok ntop pton" and fam: "inet_family (mi_addr (c_mi c))"
    and reps: "client_rep (rs_clients st) es" "msg_rep (rs_cache st) ms" "length es < 10 ^ 9" "length ms < 10 ^ 9"
    and req: "request_on c (plain_req m) rest" "3 \<le> c_ntok c" and link: "good_link 120 (c_net c)"
  defines "a \<equiv> the (ntop (ss_family (mi_addr (c_mi c))) (get_in_addr (mi_addr (c_mi c))))"
  defines "ans \<equiv> router_answer a (length es) (length ms) m"
  shows "\<exists>c'. Router_Service.conn_step ntop st c = Some (fst ans, st, c') \<and> tcp_out (c_net c') = tcp_out (c_net c) @ snd ans \<and>
    stream (recv_script (c_net c')) = rest"
proof -
  obtain buf evs tok where rd: "tcp_read_msg (mi_msg (c_mi c)) MSG_MAX (c_net c) = Some (int (length m + 17), buf, (c_net c)\<lparr>recv_script := evs\<rparr>)"
    "stream evs = rest" "parse_message buf (c_tok c) (c_ntok c) = Some (2, tok, 3)"
    and eq: "\<forall>cmd. cmd_equal ((c_mi c)\<lparr>mi_msg := buf\<rparr>) tok 2 cmd = Some (m = cmd)"
    and no: "\<forall>key \<in> {''num'', ''hops'', ''id''}. jsmn_get_value buf tok key = Some (-1)"
    by (rule plain_request [OF req])
  let ?w = "(c_net c)\<lparr>recv_script := evs\<rparr>" and ?mi = "(c_mi c)\<lparr>mi_msg := buf\<rparr>"
  have g: "good_link 120 ?w" "good_link 80 ?w" using link by (simp_all add: good_link_def)
  have br: "process_broadcast ?mi tok st ?w = Some (?mi, st, ?w)" using no by (simp add: process_broadcast_def)
  have ip: "says (framed (ip_body a)) ?w (process_ip ntop ?mi ?w)" using ip_says [OF ok _ g(1), of ?mi] fam by (simp add: a_def)
  have dis: "says (error_text 1 (psnode_strerror node_errno.ENONUM)) ?w (Router_Service.process_discover ntop ?mi tok st ?w)"
    using errors_say(1) [OF g(2), of node_errno.ENONUM] no by (simp add: Router_Service.process_discover_def)
  note A = ip ping_says [OF g(1)] infos_say(1) [OF reps g(1)] dis errors_say(1) [OF g(2), of node_errno.EBADMETHOD]
  obtain e1 e2 e3 e4 e5 where "process_ip ntop ?mi ?w = Some (?w\<lparr>send_script := e1, tcp_out := tcp_out ?w @ framed (ip_body a)\<rparr>)"
    "process_ping ?w = Some (?w\<lparr>send_script := e2, tcp_out := tcp_out ?w @ ''{\"status\":\"okay\"}'' @ DELIM\<rparr>)"
    "Router_Service.process_info st ?w = Some (?w\<lparr>send_script := e3, tcp_out := tcp_out ?w @ framed (router_info_body (length es) (length ms))\<rparr>)"
    "Router_Service.process_discover ntop ?mi tok st ?w =
      Some (?w\<lparr>send_script := e4, tcp_out := tcp_out ?w @ error_text 1 (psnode_strerror node_errno.ENONUM)\<rparr>)"
    "node_error node_errno.EBADMETHOD ?w = Some (?w\<lparr>send_script := e5, tcp_out := tcp_out ?w @ error_text 2 ''unrecognized method''\<rparr>)"
    using A unfolding says_def node_code.simps psnode_strerror.simps(3) by metis
  then show ?thesis using rd eq br by (auto simp: Router_Service.conn_step_def Let_def ans_def router_answer_def)
qed

lemma tracker_plain:
  fixes st :: router_state
  assumes reps: "client_rep (rs_clients st) es" "msg_rep (rs_cache st) ms" "length es < 10 ^ 9" "length ms < 10 ^ 9"
    and req: "request_on c (plain_req m) rest" "3 \<le> c_ntok c" and link: "good_link 120 (c_net c)"
  defines "ans \<equiv> tracker_answer (length es) m"
  shows "\<exists>c'. Tracker_Service.conn_step ntop (rs_clients st) c = Some (fst ans, c') \<and> tcp_out (c_net c') = tcp_out (c_net c) @ snd ans \<and>
    stream (recv_script (c_net c')) = rest"
proof -
  obtain buf evs tok where rd: "tcp_read_msg (mi_msg (c_mi c)) MSG_MAX (c_net c) = Some (int (length m + 17), buf, (c_net c)\<lparr>recv_script := evs\<rparr>)"
    "stream evs = rest" "parse_message buf (c_tok c) (c_ntok c) = Some (2, tok, 3)"
    and eq: "\<forall>cmd. cmd_equal ((c_mi c)\<lparr>mi_msg := buf\<rparr>) tok 2 cmd = Some (m = cmd)"
    and no: "\<forall>key \<in> {''num'', ''hops'', ''id''}. jsmn_get_value buf tok key = Some (-1)"
    by (rule plain_request [OF req])
  let ?w = "(c_net c)\<lparr>recv_script := evs\<rparr>" and ?mi = "(c_mi c)\<lparr>mi_msg := buf\<rparr>"
  have g: "good_link 120 ?w" "good_link 80 ?w" using link by (simp_all add: good_link_def)
  obtain e1 e2 e3 where "dir_error dir_errno.ENONUM ?w = Some (?w\<lparr>send_script := e1, tcp_out := tcp_out ?w @ error_text 1 (psdir_strerror dir_errno.ENONUM)\<rparr>)"
    "Tracker_Service.process_info (rs_clients st) ?w = Some (?w\<lparr>send_script := e2, tcp_out := tcp_out ?w @ framed (tracker_info_body (length es))\<rparr>)"
    "dir_error dir_errno.EBADMETHOD ?w = Some (?w\<lparr>send_script := e3, tcp_out := tcp_out ?w @ error_text 3 ''unrecognized method''\<rparr>)"
    using infos_say(2) [OF reps g(1)] errors_say(2) [OF g(2), of dir_errno.ENONUM] errors_say(2) [OF g(2), of dir_errno.EBADMETHOD]
    unfolding says_def dir_code.simps psdir_strerror.simps(4) by metis
  then show ?thesis using rd eq no
    by (auto simp: Tracker_Service.conn_step_def Let_def ans_def tracker_answer_def process_list_def Tracker_Service.process_discover_def)
qed

section \<open>Properties\<close>

text \<open>C24. The requests without arguments, for every method name: the text \<open>{"method":"\<dots>"}\<close> as the next message on a connection, however it is cut into
  segments, makes the router and the tracker answer what \<open>router_answer\<close> and \<open>tracker_answer\<close> list, with a size in each header that
  is the number of bytes that follow it. The router answers \<open>ip\<close>, \<open>info\<close> and \<open>ping\<close> with their data and \<open>discover\<close> with the error of the missing
  number, gives no answer to a broadcast without hops and identifier, and reads on after each of them; to every other method, \<open>list\<close> among them, it
  answers that it does not know it and ends the connection. The tracker answers \<open>info\<close> with its data, \<open>list\<close> and \<open>discover\<close> with the error of the missing
  number, and reads on; every other method, \<open>ip\<close>, \<open>ping\<close> and \<open>broadcast\<close> among them, is unknown to it and ends the connection. Nothing changes
  in the tables, which are intact, have fewer than \<open>10 ^ 9\<close> elements, and the link accepts the answer. (The manual page \<open>psnet_protocol\<close> has routers
  answer \<open>list\<close>, and the \<open>info\<close> of a tracker without \<open>routers\<close>.)\<close>

theorem plain_requests:
  fixes st :: router_state
  assumes "inet_ok ntop pton" and "inet_family (mi_addr (c_mi c))"
    and "client_rep (rs_clients st) es" and "msg_rep (rs_cache st) ms" and "length es < 10 ^ 9" and "length ms < 10 ^ 9"
    and "request_on c (plain_req m) rest" and "3 \<le> c_ntok c" and "good_link 120 (c_net c)"
    and "r = router_answer (the (ntop (ss_family (mi_addr (c_mi c))) (get_in_addr (mi_addr (c_mi c))))) (length es) (length ms) m"
    and "t = tracker_answer (length es) m"
  shows "(\<exists>c'. Router_Service.conn_step ntop st c = Some (fst r, st, c') \<and> tcp_out (c_net c') = tcp_out (c_net c) @ snd r \<and>
      stream (recv_script (c_net c')) = rest) \<and>
    (\<exists>c'. Tracker_Service.conn_step ntop (rs_clients st) c = Some (fst t, c') \<and> tcp_out (c_net c') = tcp_out (c_net c) @ snd t \<and>
      stream (recv_script (c_net c')) = rest)"
  using router_plain [OF assms(1-9)] tracker_plain [OF assms(3-9)] unfolding assms(10,11) by blast

lemma plain_requests_witness:
  \<open>\<exists>c' d'. Router_Service.conn_step text_ntop bstate
      \<lparr>c_mi = blank_msg, c_tok = replicate 256 (mk_tok JSMN_STRING 0 0 0), c_ntok = 256,
        c_net = net_of (replicate 120 (SendN 7)) [RecvData ''{"method":"in'', RecvData (''fo"}'' @ DELIM)]\<rparr> = Some (True, bstate, c') \<and>
    tcp_out (c_net c') = ''{"status":"okay","size":62}'' @ DELIM @ ''{"name":"generic psnet router","clients":0,"cache-load":0}'' @ DELIM \<and>
    Tracker_Service.conn_step text_ntop client_table
      \<lparr>c_mi = blank_msg, c_tok = replicate 256 (mk_tok JSMN_STRING 0 0 0), c_ntok = 256,
        c_net = net_of (replicate 120 (SendN 7)) [RecvData ''{"method":"in'', RecvData (''fo"}'' @ DELIM)]\<rparr> = Some (True, d') \<and>
    tcp_out (c_net d') = ''{"status":"okay","size":48}'' @ DELIM @ ''{"name":"generic psnet tracker","routers":0}'' @ DELIM\<close>
proof -
  let ?c = "\<lparr>c_mi = blank_msg, c_tok = replicate 256 (mk_tok JSMN_STRING 0 0 0), c_ntok = 256,
        c_net = net_of (replicate 120 (SendN 7)) [RecvData ''{\"method\":\"in'', RecvData (''fo\"}'' @ DELIM)]\<rparr>"
  have req: "request_on ?c (plain_req ''info'') []"
    by (simp add: request_on_def plain_req_def blank_msg_def MSG_MAX_def net_of_def segments_ok_def sep_char_def)
  have fam: "inet_family (mi_addr (c_mi ?c))" by (simp add: blank_msg_def inet_family_def AF_INET_def AF_INET6_def)
  have link: "good_link 120 (c_net ?c)" by (simp add: good_link_def net_of_def list_all_length)
  have out: "tcp_out (c_net ?c) = []" by (simp add: net_of_def)
  have reps: "client_rep (rs_clients bstate) []" "msg_rep (rs_cache bstate) []" using client_table_rep msg_cache_rep by simp_all
  have r: "router_answer a 0 0 ''info'' =
      (True, ''{\"status\":\"okay\",\"size\":62}'' @ DELIM @ ''{\"name\":\"generic psnet router\",\"clients\":0,\"cache-load\":0}'' @ DELIM)" for a
    by (simp add: router_answer_def router_info_body_def framed_def header_doc_text dec.simps digit_chars)
  have t: "tracker_answer 0 ''info'' =
      (True, ''{\"status\":\"okay\",\"size\":48}'' @ DELIM @ ''{\"name\":\"generic psnet tracker\",\"routers\":0}'' @ DELIM)"
    by (simp add: tracker_answer_def tracker_info_body_def framed_def header_doc_text dec.simps digit_chars)
  have "3 \<le> c_ntok ?c" "length [] < (10 :: nat) ^ 9" by simp_all
  note R = plain_requests [OF text_inet_ok fam reps this(2,2) req this(1) link refl refl, unfolded list.size r t out fst_conv snd_conv append_Nil]
  then show ?thesis by auto
qed

end
