(* ===== verification/Daemon.thy ===== *)
theory Daemon
  imports Client Msgcache
begin

text \<open>
  Output and daemon mode: \<open>daemonize\<close> of \<^verbatim>\<open>src/common/misc.c\<close> on what it changes of a process, with the results of
  the system calls as arguments, and the lines that the tables log under \<open>PSNETLOG\<close> when an element expires, in the
  colours of \<^verbatim>\<open>src/include/misc.h\<close>.
\<close>

section \<open>Daemon mode\<close>

text \<open>A standard stream: closed, what the process was started with, or a file of its own at an offset.\<close>

datatype stdio = Closed | Inherited | Opened string nat

record process =
  p_umask :: nat
  p_stdin :: stdio
  p_stdout :: stdio
  p_stderr :: stdio
  p_session :: int
  p_cwd :: string

definition EXIT_SUCCESS :: int where "EXIT_SUCCESS = 0"
definition EXIT_FAILURE :: int where "EXIT_FAILURE = 1"

text \<open>\<open>freopen (path, \"w\", stream)\<close>: the stream is closed in any case, and open again if the call succeeds.\<close>

definition freopen_w :: "bool \<Rightarrow> string \<Rightarrow> stdio" where
  "freopen_w opens path = (if opens then Opened path 0 else Closed)"

text \<open>The results of \<open>fork\<close>, of the two calls of \<open>freopen\<close>, of \<open>setsid\<close> and of \<open>chdir\<close>. The process exits with a status or
  goes on as the child.\<close>

definition daemonize :: "int \<Rightarrow> bool \<Rightarrow> bool \<Rightarrow> int \<Rightarrow> int \<Rightarrow> string \<Rightarrow> process \<Rightarrow> int + process" where
  "daemonize fork_rv out_opens err_opens setsid_rv chdir_rv log_file p =
     (let pid = fork_rv in
      if pid = -1 then Inl EXIT_FAILURE
      else if pid > 0 then Inl EXIT_SUCCESS
      else
        let p = p\<lparr>p_umask := 0\<rparr>;
            p = p\<lparr>p_stdout := freopen_w out_opens log_file\<rparr>;
            p = p\<lparr>p_stderr := freopen_w err_opens log_file\<rparr>;
            p = p\<lparr>p_stdin := Closed\<rparr>;
            sid = setsid_rv
        in if sid = -1 then Inl EXIT_FAILURE
           else
             let p = p\<lparr>p_session := sid\<rparr>
             in if chdir_rv = -1 then Inl EXIT_FAILURE
                else Inr (p\<lparr>p_cwd := ''/''\<rparr>))"

text \<open>Only the child whose session and directory are its own goes on; it does so also when the log cannot be opened, and
  otherwise with two streams that both write from the start of the log.\<close>

lemma daemonize_child:
  "daemonize fork_rv oo eo sid cd lf p = Inr q \<longleftrightarrow>
    fork_rv \<le> 0 \<and> fork_rv \<noteq> -1 \<and> sid \<noteq> -1 \<and> cd \<noteq> -1 \<and>
    q = \<lparr>p_umask = 0, p_stdin = Closed, p_stdout = (if oo then Opened lf 0 else Closed), p_stderr = (if eo then Opened lf 0 else Closed),
      p_session = sid, p_cwd = ''/'', \<dots> = process.more p\<rparr>"
  by (cases p) (auto simp: daemonize_def freopen_w_def Let_def)

lemma daemonize_exit:
  "daemonize fork_rv oo eo sid cd lf p = Inl s \<longleftrightarrow>
    (if fork_rv > 0 then s = EXIT_SUCCESS else s = EXIT_FAILURE \<and> (fork_rv = -1 \<or> sid = -1 \<or> cd = -1))"
  by (auto simp: daemonize_def Let_def)

section \<open>Log lines\<close>

definition ANSI_RED :: "bool \<Rightarrow> string" where
  "ANSI_RED daemon = (if daemon then [] else CHR 0x1B # ''[31m'')"

definition ANSI_RESET :: "bool \<Rightarrow> string" where
  "ANSI_RESET daemon = (if daemon then [] else CHR 0x1B # ''[0m'')"

text \<open>\<open>delta_act\<close> of the clients; the result of \<open>inet_ntop\<close> is not looked at, and its buffer not initialised.\<close>

definition client_act :: "bool \<Rightarrow> ntop \<Rightarrow> sockaddr_storage \<Rightarrow> string option" where
  "client_act daemon ntop client = do {
     addr \<leftarrow> ntop_buf ntop (ss_family client) (get_in_addr client) INET6_ADDRSTRLEN;
     Some (ANSI_RED daemon @ ''X '' @ addr @ '' '' @ dec (unat (ntohs (get_in_port client))) @ [LF] @ ANSI_RESET daemon)
   }"

text \<open>\<open>delta_act\<close> of the message cache: the identifier is printed up to its NUL.\<close>

definition msg_act :: "bool \<Rightarrow> char list \<Rightarrow> string option" where
  "msg_act daemon ident =
     (if NUL \<in> set ident then Some (ANSI_RED daemon @ ''X '' @ cstr ident @ [LF] @ ANSI_RESET daemon) else None)"

text \<open>Every element that the tables hold can be logged.\<close>

lemma log_lines_defined:
  assumes "inet_ok ntop pton"
  shows "client_rep T es \<Longrightarrow> e \<in> set es \<Longrightarrow> client_act daemon ntop (fst e) \<noteq> None"
    and "msg_rep M ms \<Longrightarrow> m \<in> set ms \<Longrightarrow> msg_act daemon (fst m) \<noteq> None"
  using client_rep_inet ntop_buf_ok(1) [OF assms] by (fastforce simp: client_act_def, auto simp: msg_act_def dest: msg.rep_valid)

end
