(* ===== verification/Linked_List_Props.thy ===== *)
theory Linked_List_Props
  imports List_Entry
begin

text \<open>
  Correctness of the linked lists: a specification in terms of a map from heads to lists of
  entries, and the proof that every operation implements it on a heap that holds any number of
  lists, whatever else it holds.
\<close>

section \<open>Families of lists\<close>

type_synonym lists = "addr \<rightharpoonup> addr list"

definition members :: "lists \<Rightarrow> addr set" where
  "members L = {a. \<exists>l xs. L l = Some xs \<and> a \<in> set (l # xs)}"

definition lists_rep :: "lheap \<Rightarrow> lists \<Rightarrow> bool" where
  "lists_rep h L \<longleftrightarrow> (\<forall>l xs. L l = Some xs \<longrightarrow> dlist h l xs) \<and>
     (\<forall>l l' xs xs'. L l = Some xs \<longrightarrow> L l' = Some xs' \<longrightarrow> l \<noteq> l' \<longrightarrow> set (l # xs) \<inter> set (l' # xs') = {})"

lemma rep_dlist: "lists_rep h L \<Longrightarrow> L l = Some xs \<Longrightarrow> dlist h l xs"
  by (simp add: lists_rep_def)

lemma rep_disjoint: "lists_rep h L \<Longrightarrow> L l = Some xs \<Longrightarrow> L l' = Some xs' \<Longrightarrow> l \<noteq> l' \<Longrightarrow>
    set (l # xs) \<inter> set (l' # xs') = {}"
  unfolding lists_rep_def by blast

lemma membersI: "L l = Some xs \<Longrightarrow> set (l # xs) \<subseteq> members L"
  by (auto simp: members_def)

lemma rep_drop: "lists_rep h L \<Longrightarrow> lists_rep h (L(l := None))"
  by (simp add: lists_rep_def)

lemma members_drop: "lists_rep h L \<Longrightarrow> L l = Some xs \<Longrightarrow> set (l # xs) \<inter> members (L(l := None)) = {}"
  using rep_disjoint [of h L l xs] by (fastforce simp: members_def split: if_splits)

lemma members_drop_sub: "members (L(l := None)) \<subseteq> members L"
  by (auto simp: members_def split: if_splits)

lemma rep_keeps: "lists_rep h L \<Longrightarrow> keeps S h h' \<Longrightarrow> S \<inter> members L = {} \<Longrightarrow> lists_rep h' L"
proof -
  assume a: "lists_rep h L" "keeps S h h'" "S \<inter> members L = {}"
  have "dlist h' l xs" if "L l = Some xs" for l xs
    by (rule dlist_keeps [OF rep_dlist [OF a(1) that] a(2)]) (use a(3) membersI [of L, OF that] in blast)
  then show ?thesis using a(1) by (simp add: lists_rep_def)
qed

lemma rep_add:
  assumes "lists_rep h L" "dlist h l xs" "set (l # xs) \<inter> members (L(l := None)) = {}"
  shows "lists_rep h (L(l \<mapsto> xs))"
proof -
  have new: "set (l # xs) \<inter> set (l' # xs') = {}" if "L l' = Some xs'" "l' \<noteq> l" for l' xs'
    using assms(3) membersI [of "L(l := None)" l' xs'] that by auto
  have "set (a # as) \<inter> set (b # bs) = {}"
    if ab: "(L(l \<mapsto> xs)) a = Some as" "(L(l \<mapsto> xs)) b = Some bs" "a \<noteq> b" for a b as bs
  proof -
    consider "a = l" | "b = l" | "a \<noteq> l" "b \<noteq> l" by blast
    then show ?thesis
    proof cases
      case 1
      then show ?thesis using new [of b bs] ab by simp
    next
      case 2
      then show ?thesis using new [of a as] ab by (simp add: Int_commute)
    next
      case 3
      then show ?thesis using rep_disjoint [OF assms(1), of a as b bs] ab by simp
    qed
  qed
  moreover have "dlist h a as" if "(L(l \<mapsto> xs)) a = Some as" for a as
    using that assms(2) rep_dlist [OF assms(1)] by (simp split: if_splits)
  ultimately show ?thesis unfolding lists_rep_def by blast
qed

text \<open>A change of the list at \<open>l\<close> that uses only its own cells and cells of no list.\<close>

lemma rep_change:
  assumes "lists_rep h L" "L l = Some xs" "keeps (set (l # xs) \<union> F) h h'" "dlist h' l xs'"
    "set xs' \<subseteq> set xs \<union> F" "F \<inter> members (L(l := None)) = {}"
  shows "lists_rep h' (L(l \<mapsto> xs'))"
proof -
  have dj: "(set (l # xs) \<union> F) \<inter> members (L(l := None)) = {}"
    using members_drop [OF assms(1,2)] assms(6) by blast
  have "lists_rep h' (L(l := None))" by (rule rep_keeps [OF rep_drop [OF assms(1)] assms(3) dj])
  then have "lists_rep h' ((L(l := None))(l \<mapsto> xs'))"
    by (rule rep_add [OF _ assms(4)]) (use dj assms(5) in auto)
  then show ?thesis by simp
qed

lemma rep_dom: "lists_rep h L \<Longrightarrow> members L \<subseteq> dom h"
  using dlist_dom rep_dlist unfolding members_def by fast

section \<open>Specification\<close>

datatype list_op = Init addr | Add addr addr | AddTail addr addr | Del addr | DelInit addr
  | Replace addr addr | ReplaceInit addr addr | Move addr addr | MoveTail addr addr | RotateLeft addr
  | Cut addr addr addr | Splice addr addr | SpliceTail addr addr | SpliceInit addr addr | SpliceTailInit addr addr

fun list_op_run :: "list_op \<Rightarrow> lheap \<Rightarrow> lheap option" where
  "list_op_run (Init l) h = INIT_LIST_HEAD l h"
| "list_op_run (Add n l) h = list_add n l h"
| "list_op_run (AddTail n l) h = list_add_tail n l h"
| "list_op_run (Del e) h = list_del e h"
| "list_op_run (DelInit e) h = list_del_init e h"
| "list_op_run (Replace e n) h = list_replace e n h"
| "list_op_run (ReplaceInit e n) h = list_replace_init e n h"
| "list_op_run (Move e l) h = list_move e l h"
| "list_op_run (MoveTail e l) h = list_move_tail e l h"
| "list_op_run (RotateLeft l) h = list_rotate_left l h"
| "list_op_run (Cut k l e) h = list_cut_position k l e h"
| "list_op_run (Splice k l) h = list_splice k l h"
| "list_op_run (SpliceTail k l) h = list_splice_tail k l h"
| "list_op_run (SpliceInit k l) h = list_splice_init k l h"
| "list_op_run (SpliceTailInit k l) h = list_splice_tail_init k l h"

fun list_run :: "list_op list \<Rightarrow> lheap \<Rightarrow> lheap option" where
  "list_run [] h = Some h"
| "list_run (op # ops) h = do { h \<leftarrow> list_op_run op h; list_run ops h }"

definition without :: "addr \<Rightarrow> lists \<Rightarrow> lists" where
  "without e L = (\<lambda>l. map_option (removeAll e) (L l))"

definition renamed :: "addr \<Rightarrow> addr \<Rightarrow> lists \<Rightarrow> lists" where
  "renamed e n L = (if e \<in> dom L then L(e := None, n := L e)
     else (\<lambda>l. map_option (map (\<lambda>x. if x = e then n else x)) (L l)))"

definition at :: "lists \<Rightarrow> addr \<Rightarrow> addr list" where
  "at L l = (case L l of None \<Rightarrow> [] | Some xs \<Rightarrow> xs)"

fun list_op_spec :: "list_op \<Rightarrow> lists \<Rightarrow> lists" where
  "list_op_spec (Init l) L = L(l \<mapsto> [])"
| "list_op_spec (Add n l) L = L(l \<mapsto> n # at L l)"
| "list_op_spec (AddTail n l) L = L(l \<mapsto> at L l @ [n])"
| "list_op_spec (Del e) L = without e L"
| "list_op_spec (DelInit e) L = (without e L)(e \<mapsto> [])"
| "list_op_spec (Replace e n) L = renamed e n L"
| "list_op_spec (ReplaceInit e n) L = (renamed e n L)(e \<mapsto> [])"
| "list_op_spec (Move e l) L = (without e L)(l \<mapsto> e # at (without e L) l)"
| "list_op_spec (MoveTail e l) L = (without e L)(l \<mapsto> at (without e L) l @ [e])"
| "list_op_spec (RotateLeft l) L = L(l \<mapsto> rotate1 (at L l))"
| "list_op_spec (Cut k l e) L =
     (if at L l = [] then L else if e = l then L(k \<mapsto> [])
      else L(k \<mapsto> takeWhile (\<lambda>x. x \<noteq> e) (at L l) @ [e], l \<mapsto> tl (dropWhile (\<lambda>x. x \<noteq> e) (at L l))))"
| "list_op_spec (Splice k l) L = (if at L k = [] then L else L(k := None, l \<mapsto> at L k @ at L l))"
| "list_op_spec (SpliceTail k l) L = (if at L k = [] then L else L(k := None, l \<mapsto> at L l @ at L k))"
| "list_op_spec (SpliceInit k l) L = L(k \<mapsto> [], l \<mapsto> at L k @ at L l)"
| "list_op_spec (SpliceTailInit k l) L = L(k \<mapsto> [], l \<mapsto> at L l @ at L k)"

text \<open>What a caller has to ensure; \<open>D\<close> is the set of allocated cells. A new entry is a cell of no
  list; a cell that is initialised or cut into may be the head of a list that is given up.\<close>

definition fresh :: "addr set \<Rightarrow> lists \<Rightarrow> addr \<Rightarrow> bool" where
  "fresh D L n \<longleftrightarrow> n \<in> D \<and> n \<notin> members L"

definition reusable :: "addr set \<Rightarrow> lists \<Rightarrow> addr \<Rightarrow> bool" where
  "reusable D L l \<longleftrightarrow> l \<in> D \<and> l \<notin> members (L(l := None))"

definition entry :: "lists \<Rightarrow> addr \<Rightarrow> bool" where
  "entry L e \<longleftrightarrow> (\<exists>l xs. L l = Some xs \<and> e \<in> set xs)"

fun list_op_ok :: "addr set \<Rightarrow> lists \<Rightarrow> list_op \<Rightarrow> bool" where
  "list_op_ok D L (Init l) = reusable D L l"
| "list_op_ok D L (Add n l) = (fresh D L n \<and> l \<in> dom L)"
| "list_op_ok D L (AddTail n l) = (fresh D L n \<and> l \<in> dom L)"
| "list_op_ok D L (Del e) = entry L e"
| "list_op_ok D L (DelInit e) = entry L e"
| "list_op_ok D L (Replace e n) = (fresh D L n \<and> e \<in> members L)"
| "list_op_ok D L (ReplaceInit e n) = (fresh D L n \<and> e \<in> members L)"
| "list_op_ok D L (Move e l) = (entry L e \<and> l \<in> dom L)"
| "list_op_ok D L (MoveTail e l) = (entry L e \<and> l \<in> dom L)"
| "list_op_ok D L (RotateLeft l) = (l \<in> dom L)"
| "list_op_ok D L (Cut k l e) = (k \<noteq> l \<and> reusable D L k \<and> l \<in> dom L \<and> e \<in> set (l # at L l))"
| "list_op_ok D L (Splice k l) = (k \<noteq> l \<and> k \<in> dom L \<and> l \<in> dom L)"
| "list_op_ok D L (SpliceTail k l) = (k \<noteq> l \<and> k \<in> dom L \<and> l \<in> dom L)"
| "list_op_ok D L (SpliceInit k l) = (k \<noteq> l \<and> k \<in> dom L \<and> l \<in> dom L)"
| "list_op_ok D L (SpliceTailInit k l) = (k \<noteq> l \<and> k \<in> dom L \<and> l \<in> dom L)"

fun list_spec :: "list_op list \<Rightarrow> lists \<Rightarrow> lists" where
  "list_spec [] L = L"
| "list_spec (op # ops) L = list_spec ops (list_op_spec op L)"

fun list_ops_ok :: "addr set \<Rightarrow> lists \<Rightarrow> list_op list \<Rightarrow> bool" where
  "list_ops_ok D L [] = True"
| "list_ops_ok D L (op # ops) = (list_op_ok D L op \<and> list_ops_ok D (list_op_spec op L) ops)"

text \<open>One operation implements its specification.\<close>

definition implements :: "(lheap \<Rightarrow> lheap option) \<Rightarrow> lheap \<Rightarrow> lists \<Rightarrow> bool" where
  "implements f h L \<longleftrightarrow> (\<exists>h'. f h = Some h' \<and> lists_rep h' L \<and> dom h' = dom h)"

lemma implementsI: "f h = Some h' \<Longrightarrow> lists_rep h' L \<Longrightarrow> keeps S h h' \<Longrightarrow> implements f h L"
  by (auto simp: implements_def keeps_def)

lemma implements_bind:
  assumes "implements f h L" "\<And>h'. lists_rep h' L \<Longrightarrow> dom h' = dom h \<Longrightarrow> implements g h' L'"
  shows "implements (\<lambda>h. Option.bind (f h) g) h L'"
  using assms by (fastforce simp: implements_def)

section \<open>Every operation implements its specification\<close>

lemma at_Some [simp]: "L l = Some xs \<Longrightarrow> at L l = xs"
  by (simp add: at_def)

lemma init_rep:
  assumes "lists_rep h L" "reusable (dom h) L l"
  shows "implements (INIT_LIST_HEAD l) h (L(l \<mapsto> []))"
proof -
  have l: "l \<in> dom h" "l \<notin> members (L(l := None))" using assms(2) by (auto simp: reusable_def)
  define h' where "h' = up_prev l l (up_next l l h)"
  have run: "INIT_LIST_HEAD l h = Some h'" using l(1) by (simp add: INIT_LIST_HEAD_def h'_def heap_simps)
  have k: "keeps {l} h h'" by (simp add: h'_def keeps_up)
  have "lists_rep h' (L(l := None))" by (rule rep_keeps [OF rep_drop [OF assms(1)] k]) (use l in simp)
  moreover have "dlist h' l []" using l(1) by (simp add: dlist_def link_def h'_def heap_simps)
  ultimately have "lists_rep h' ((L(l := None))(l \<mapsto> []))" by (rule rep_add) (use l in simp)
  then show ?thesis using implementsI [of "INIT_LIST_HEAD l" h h', OF run _ k] by simp
qed

lemma add_between_rep:
  assumes rep: "lists_rep h L" and l: "L l = Some (xs @ ys)" and new: "fresh (dom h) L new"
  shows "implements (list_add_between new (last (l # xs)) (hd (ys @ [l]))) h (L(l \<mapsto> xs @ new # ys))"
proof -
  have n: "new \<in> dom h" "new \<notin> members L" using new by (auto simp: fresh_def)
  then have "new \<notin> set (l # xs @ ys)" using membersI [of L, OF l] by blast
  then obtain h' where h': "list_add_between new (last (l # xs)) (hd (ys @ [l])) h = Some h'"
    "dlist h' l (xs @ new # ys)" "keeps (set (l # xs @ ys) \<union> {new}) h h'"
    using add_between_dlist [OF rep_dlist [OF rep l] n(1)] by blast
  have "lists_rep h' (L(l \<mapsto> xs @ new # ys))"
    by (rule rep_change [OF rep l h'(3) h'(2)]) (use n members_drop_sub [of L l] in auto)
  then show ?thesis using implementsI [of _ h h'] h'(1,3) by blast
qed

lemma add_rep:
  assumes "lists_rep h L" "L l = Some xs" "fresh (dom h) L new"
  shows "implements (list_add new l) h (L(l \<mapsto> new # xs))"
  using add_between_rep [of h L l "[]" xs new] assms dlist_head(1) [OF rep_dlist [OF assms(1,2)]]
  by (simp add: implements_def list_add_def)

lemma add_tail_rep:
  assumes "lists_rep h L" "L l = Some xs" "fresh (dom h) L new"
  shows "implements (list_add_tail new l) h (L(l \<mapsto> xs @ [new]))"
  using add_between_rep [of h L l xs "[]" new] assms dlist_head(2) [OF rep_dlist [OF assms(1,2)]]
  by (simp add: implements_def list_add_tail_def)

lemma without_at:
  assumes rep: "lists_rep h L" and l: "L l = Some (xs @ e # ys)"
  shows "without e L = L(l \<mapsto> xs @ ys)"
proof
  fix a
  have d: "e \<notin> set (xs @ ys)" using dlist_distinct [OF rep_dlist [OF rep l]] by auto
  show "without e L a = (L(l \<mapsto> xs @ ys)) a"
  proof (cases "a = l")
    case True
    then show ?thesis using d l by (simp add: without_def)
  next
    case False
    then show ?thesis using rep_disjoint [OF rep l _ False [symmetric]]
      by (cases "L a") (auto simp: without_def removeAll_id)
  qed
qed

lemma fresh_without:
  assumes rep: "lists_rep h L" and "L l = Some xs" "e \<in> set xs"
  shows "fresh (dom h) (without e L) e"
proof -
  have "e \<in> dom h" using rep_dom [OF rep] membersI [of L, OF assms(2)] assms(3) by auto
  moreover have "e \<notin> dom L"
  proof
    assume "e \<in> dom L"
    then obtain zs where "L e = Some zs" by blast
    then show False using rep_disjoint [OF rep assms(2)] dlist_distinct [OF rep_dlist [OF rep assms(2)]] assms(3)
      by (cases "e = l") auto
  qed
  ultimately show ?thesis by (auto simp: fresh_def members_def without_def)
qed

lemma del_between_rep:
  assumes rep: "lists_rep h L" and l: "L l = Some (xs @ e # ys)"
  shows "\<exists>h'. list_del_between (last (l # xs)) (hd (ys @ [l])) h = Some h' \<and> lists_rep h' (without e L) \<and>
    keeps (set (l # xs @ ys)) h h'"
proof -
  obtain h' where h': "list_del_between (last (l # xs)) (hd (ys @ [l])) h = Some h'"
    "dlist h' l (xs @ ys)" "keeps (set (l # xs @ ys)) h h'"
    using del_between_dlist [OF rep_dlist [OF rep l]] by blast
  have "keeps (set (l # xs @ e # ys) \<union> {}) h h'" by (rule keeps_mono [OF h'(3)]) auto
  then have "lists_rep h' (L(l \<mapsto> xs @ ys))" by (rule rep_change [OF rep l _ h'(2)]) auto
  then show ?thesis using h' without_at [OF rep l] by auto
qed

lemma del_entry_rep:
  assumes rep: "lists_rep h L" and e: "entry L e"
  shows "implements (list_del_entry e) h (without e L)"
proof -
  obtain l xs ys where l: "L l = Some (xs @ e # ys)" using e by (auto simp: entry_def dest!: split_list)
  obtain h' where h': "list_del_between (last (l # xs)) (hd (ys @ [l])) h = Some h'"
    "lists_rep h' (without e L)" "keeps (set (l # xs @ ys)) h h'" using del_between_rep [OF rep l] by blast
  have "list_del_entry e h = Some h'"
    using dlist_at [OF rep_dlist [OF rep l]] h'(1) by (simp add: list_del_entry_def)
  then show ?thesis using h' implementsI by blast
qed

lemma fresh_entry: "lists_rep h L \<Longrightarrow> entry L e \<Longrightarrow> fresh (dom h) (without e L) e"
  unfolding entry_def using fresh_without by blast

lemma fresh_reusable: "fresh D L n \<Longrightarrow> reusable D L n"
  using members_drop_sub [of L n] by (auto simp: fresh_def reusable_def)

lemma del_rep:
  assumes rep: "lists_rep h L" and e: "entry L e"
  shows "implements (list_del e) h (without e L)"
proof -
  obtain l xs ys where l: "L l = Some (xs @ e # ys)" using e by (auto simp: entry_def dest!: split_list)
  obtain h1 where h1: "list_del_between (last (l # xs)) (hd (ys @ [l])) h = Some h1"
    "lists_rep h1 (without e L)" "keeps (set (l # xs @ ys)) h h1" using del_between_rep [OF rep l] by blast
  have f: "e \<in> dom h1" "e \<notin> members (without e L)"
    using fresh_entry [OF rep e] keeps_dom [OF h1(3)] by (auto simp: fresh_def)
  define h' where "h' = up_prev e LIST_POISON2 (up_next e LIST_POISON1 h1)"
  have run: "list_del e h = Some h'" using dlist_at [OF rep_dlist [OF rep l]] h1(1) f(1)
    by (simp add: list_del_def h'_def heap_simps)
  have "keeps {e} h1 h'" by (simp add: h'_def keeps_up)
  then have "lists_rep h' (without e L)" by (rule rep_keeps [OF h1(2)]) (use f in simp)
  moreover have "keeps (set (e # l # xs @ ys)) h h'"
    using keeps_mono [OF h1(3), of "set (e # l # xs @ ys)"] by (auto simp: h'_def keeps_up)
  ultimately show ?thesis using implementsI [of "list_del e" h h', OF run] by blast
qed

lemma del_init_rep:
  assumes "lists_rep h L" "entry L e"
  shows "implements (list_del_init e) h ((without e L)(e \<mapsto> []))"
proof -
  have "implements (\<lambda>h. Option.bind (list_del_entry e h) (INIT_LIST_HEAD e)) h ((without e L)(e \<mapsto> []))"
    by (rule implements_bind [OF del_entry_rep [OF assms]])
      (use init_rep fresh_reusable fresh_entry [OF assms] in auto)
  then show ?thesis by (simp add: implements_def list_del_init_def)
qed

lemma without_dom [simp]: "l \<in> dom (without e L) \<longleftrightarrow> l \<in> dom L"
  by (auto simp: without_def dom_def)

lemma move_rep:
  assumes "lists_rep h L" "entry L e" "l \<in> dom L"
  shows "implements (list_move e l) h ((without e L)(l \<mapsto> e # at (without e L) l))"
    "implements (list_move_tail e l) h ((without e L)(l \<mapsto> at (without e L) l @ [e]))"
proof -
  obtain xs where xs: "without e L l = Some xs" using assms(3) without_dom [of l e L] by blast
  have "implements (\<lambda>h. Option.bind (list_del_entry e h) (list_add e l)) h ((without e L)(l \<mapsto> e # xs))"
    by (rule implements_bind [OF del_entry_rep [OF assms(1,2)]])
      (rule add_rep [where L = "without e L" and l = l, OF _ xs], use fresh_entry [OF assms(1,2)] in simp_all)
  then show "implements (list_move e l) h ((without e L)(l \<mapsto> e # at (without e L) l))"
    using xs by (simp add: implements_def list_move_def)
  have "implements (\<lambda>h. Option.bind (list_del_entry e h) (list_add_tail e l)) h ((without e L)(l \<mapsto> xs @ [e]))"
    by (rule implements_bind [OF del_entry_rep [OF assms(1,2)]])
      (rule add_tail_rep [where L = "without e L" and l = l, OF _ xs], use fresh_entry [OF assms(1,2)] in simp_all)
  then show "implements (list_move_tail e l) h ((without e L)(l \<mapsto> at (without e L) l @ [e]))"
    using xs by (simp add: implements_def list_move_tail_def)
qed

text \<open>The tests.\<close>

lemma list_tests:
  assumes "dlist h l xs"
  shows "list_empty l h = Some (xs = [])" "list_empty_careful l h = Some (xs = [])"
    "list_is_singular l h = Some (length xs = 1)"
    "e \<in> set xs \<Longrightarrow> list_is_last e l h = Some (e = last xs)"
proof -
  note d = dlist_distinct [OF assms] dlist_head [OF assms]
  show "list_empty l h = Some (xs = [])" "list_empty_careful l h = Some (xs = [])"
    using d by (cases xs; auto simp: list_empty_def list_empty_careful_def)+
  have "xs \<noteq> [] \<Longrightarrow> hd xs = last xs \<longleftrightarrow> length xs = 1"
    using d(1) by (cases xs rule: rev_cases) (auto simp: hd_append)
  then show "list_is_singular l h = Some (length xs = 1)"
    using d by (cases xs) (auto simp: list_is_singular_def list_empty_def)
  assume "e \<in> set xs"
  then obtain as bs where xs: "xs = as @ e # bs" by (auto dest: split_list)
  have "ld_next e h = Some (hd (bs @ [l]))" using dlist_at(1) assms xs by blast
  moreover have "hd (bs @ [l]) = l \<longleftrightarrow> bs = []" using d(1) xs by (cases bs) auto
  moreover have "e = last xs \<longleftrightarrow> bs = []"
  proof (cases bs)
    case (Cons b bs')
    then have "last xs \<in> set bs" using xs by simp
    then show ?thesis using d(1) xs Cons by auto
  qed (simp add: xs)
  ultimately show "list_is_last e l h = Some (e = last xs)" by (simp add: list_is_last_def)
qed

lemma rotate_left_rep:
  assumes rep: "lists_rep h L" and l: "L l = Some xs"
  shows "implements (list_rotate_left l) h (L(l \<mapsto> rotate1 xs))"
proof (cases xs)
  case Nil
  then show ?thesis using rep l list_tests(1) [OF rep_dlist [OF rep l]]
    by (simp add: implements_def list_rotate_left_def fun_upd_idem)
next
  case (Cons x r)
  have w: "without x L = L(l \<mapsto> r)" using without_at [OF rep, of l "[]" x r] l Cons by simp
  have "entry L x" unfolding entry_def using l Cons by fastforce
  then have "implements (list_move_tail x l) h (L(l \<mapsto> r @ [x]))"
    using move_rep(2) [OF rep, of x l] l by (auto simp: w)
  then show ?thesis using Cons list_tests(1) [OF rep_dlist [OF rep l]] dlist_head(1) [OF rep_dlist [OF rep l]]
    by (simp add: implements_def list_rotate_left_def)
qed

lemma renamed_entry:
  assumes rep: "lists_rep h L" and l: "L l = Some (xs @ e # ys)"
  shows "renamed e n L = L(l \<mapsto> xs @ n # ys)"
proof -
  have "e \<notin> members (without e L)" using fresh_without [OF rep l, of e] by (auto simp: fresh_def)
  then have e: "e \<notin> dom L" by (auto simp: members_def without_def)
  have d: "e \<notin> set xs" "e \<notin> set ys" using dlist_distinct [OF rep_dlist [OF rep l]] by auto
  have "map_option (map (\<lambda>x. if x = e then n else x)) (L a) = (L(l \<mapsto> xs @ n # ys)) a" for a
  proof (cases "a = l")
    case True
    then show ?thesis using d l by (auto intro!: map_idI)
  next
    case False
    have "e \<notin> set zs" if "L a = Some zs" for zs using rep_disjoint [OF rep l that] False by auto
    then show ?thesis using False by (cases "L a") (auto intro!: map_idI)
  qed
  then show ?thesis using e by (simp add: renamed_def fun_eq_iff)
qed

lemma replace_rep:
  assumes rep: "lists_rep h L" and n: "fresh (dom h) L n" and e: "e \<in> members L"
  shows "implements (list_replace e n) h (renamed e n L)"
proof (cases "e \<in> dom L")
  case True
  then obtain xs where l: "L e = Some xs" by blast
  have nf: "n \<in> dom h" "n \<notin> members L" "n \<notin> set (e # xs)" using n membersI [of L, OF l] by (auto simp: fresh_def)
  obtain h' where h': "list_replace e n h = Some h'" "dlist h' n xs" "keeps (set (e # xs) \<union> {n}) h h'"
    using replace_head_dlist [OF rep_dlist [OF rep l] nf(1,3)] by blast
  have dj: "(set (e # xs) \<union> {n}) \<inter> members (L(e := None)) = {}"
    using members_drop [OF rep l] nf(2) members_drop_sub [of L e] by blast
  have "lists_rep h' (L(e := None))" by (rule rep_keeps [OF rep_drop [OF rep] h'(3) dj])
  then have "lists_rep h' ((L(e := None))(n \<mapsto> xs))"
    by (rule rep_add [OF _ h'(2)]) (use dj members_drop_sub [of "L(e := None)" n] in auto)
  then show ?thesis using implementsI [of "list_replace e n" h h', OF h'(1) _ h'(3)] True l by (simp add: renamed_def)
next
  case False
  then obtain l xs ys where l: "L l = Some (xs @ e # ys)"
    using e by (auto simp: members_def dest!: split_list)
  have nf: "n \<in> dom h" "n \<notin> members L" "n \<notin> set (l # xs @ e # ys)"
    using n membersI [of L, OF l] by (auto simp: fresh_def)
  obtain h' where h': "list_replace e n h = Some h'" "dlist h' l (xs @ n # ys)" "keeps (set (l # xs @ ys) \<union> {n}) h h'"
    using replace_dlist [OF rep_dlist [OF rep l] nf(1,3)] by blast
  have "keeps (set (l # xs @ e # ys) \<union> {n}) h h'" by (rule keeps_mono [OF h'(3)]) auto
  then have "lists_rep h' (L(l \<mapsto> xs @ n # ys))"
    by (rule rep_change [OF rep l _ h'(2)]) (use nf members_drop_sub [of L l] in auto)
  then show ?thesis
    using implementsI [of "list_replace e n" h h', OF h'(1) _ h'(3)] renamed_entry [OF rep l] by simp
qed

lemma fresh_renamed:
  assumes rep: "lists_rep h L" and n: "fresh (dom h) L n" and e: "e \<in> members L"
  shows "fresh (dom h) (renamed e n L) e"
proof -
  have en: "e \<noteq> n" "e \<in> dom h" using n e rep_dom [OF rep] by (auto simp: fresh_def)
  show ?thesis
  proof (cases "e \<in> dom L")
    case True
    then obtain xs where l: "L e = Some xs" by blast
    have "e \<notin> members (L(e := None))" "e \<notin> set xs"
      using members_drop [OF rep l] dlist_distinct [OF rep_dlist [OF rep l]] by auto
    then show ?thesis using en l by (auto simp: fresh_def renamed_def members_def split: if_splits)
  next
    case False
    then show ?thesis using en by (auto simp: fresh_def renamed_def members_def split: if_splits)
  qed
qed

lemma replace_init_rep:
  assumes "lists_rep h L" "fresh (dom h) L n" "e \<in> members L"
  shows "implements (list_replace_init e n) h ((renamed e n L)(e \<mapsto> []))"
proof -
  have "implements (\<lambda>h. Option.bind (list_replace e n h) (INIT_LIST_HEAD e)) h ((renamed e n L)(e \<mapsto> []))"
    by (rule implements_bind [OF replace_rep [OF assms]])
      (use init_rep fresh_reusable fresh_renamed [OF assms] in auto)
  then show ?thesis by (simp add: implements_def list_replace_init_def)
qed


lemma cut_position_rep:
  assumes rep: "lists_rep h L" and l: "L l = Some xs" and k: "k \<noteq> l" "reusable (dom h) L k" and e: "e \<in> set (l # xs)"
  shows "implements (list_cut_position k l e) h (list_op_spec (Cut k l e) L)"
proof -
  note t = list_tests [OF rep_dlist [OF rep l]] dlist_head(1) [OF rep_dlist [OF rep l]]
  consider "xs = []" | "xs \<noteq> []" "e = l" | as bs where "xs = as @ e # bs" "e \<noteq> l"
    using e dlist_distinct [OF rep_dlist [OF rep l]] by (metis distinct.simps(2) set_ConsD split_list)
  then show ?thesis
  proof cases
    case 1
    then show ?thesis using t rep l by (simp add: implements_def list_cut_position_def)
  next
    case 2
    then show ?thesis using t init_rep [OF rep k(2)] l by (simp add: implements_def list_cut_position_def)
  next
    case (3 as bs)
    have sub: "set (l # xs) \<subseteq> members (L(k := None))" using membersI [of "L(k := None)" l xs] l k(1) by simp
    have kf: "k \<in> dom h" "k \<notin> set (l # as @ e # bs)" using k(2) sub 3(1) by (auto simp: reusable_def)
    obtain h' where h': "list_cut_position_between k l e h = Some h'" "dlist h' k (as @ [e])" "dlist h' l bs"
      "keeps (set (l # as @ e # bs) \<union> {k}) h h'"
      using cut_between_dlist [OF rep_dlist [OF rep] kf] l 3(1) by blast
    have dj: "(set (l # as @ e # bs) \<union> {k}) \<inter> members (L(k := None, l := None)) = {}"
      using members_drop [OF rep_drop [OF rep], of k l xs] l k 3(1) members_drop_sub [of "L(k := None)" l]
      by (auto simp: reusable_def)
    have d: "distinct (l # as @ e # bs)" using dlist_distinct [OF rep_dlist [OF rep l]] 3(1) by simp
    have "lists_rep h' (L(k := None, l := None))" by (rule rep_keeps [OF rep_drop [OF rep_drop [OF rep]] h'(4) dj])
    then have r1: "lists_rep h' ((L(k := None, l := None))(k \<mapsto> as @ [e]))"
      by (rule rep_add [OF _ h'(2)]) (use dj members_drop_sub [of "L(k := None, l := None)" k] in auto)
    have "members ((L(k := None, l := None))(k \<mapsto> as @ [e])) \<subseteq> members (L(k := None, l := None)) \<union> set (k # as @ [e])"
      by (auto simp: members_def split: if_splits)
    then have "lists_rep h' ((L(k := None, l := None))(k \<mapsto> as @ [e], l \<mapsto> bs))"
      by (intro rep_add [OF r1 h'(3)]) (use dj d kf members_drop_sub [of "(L(k := None, l := None))(k \<mapsto> as @ [e])" l] in auto)
    moreover have "(L(k := None, l := None))(k \<mapsto> as @ [e], l \<mapsto> bs) = list_op_spec (Cut k l e) L"
      using l 3 d by (auto simp: fun_eq_iff takeWhile_append dropWhile_append)
    moreover have "list_cut_position k l e h = Some h'" using t h'(1) 3
      by (cases as) (auto simp: list_cut_position_def)
    ultimately show ?thesis using implementsI [of "list_cut_position k l e" h h', OF _ _ h'(4)] by simp
  qed
qed

lemma splice_between_rep:
  assumes rep: "lists_rep h L" and l: "L l = Some (xs @ ys)" and k: "L k = Some zs" "zs \<noteq> []" "k \<noteq> l"
  shows "implements (list_splice_between k (last (l # xs)) (hd (ys @ [l]))) h (L(k := None, l \<mapsto> xs @ zs @ ys))"
proof -
  have dj: "set (l # xs @ ys) \<inter> set (k # zs) = {}" using rep_disjoint [OF rep l k(1)] k(3) by auto
  obtain h' where h': "list_splice_between k (last (l # xs)) (hd (ys @ [l])) h = Some h'"
    "dlist h' l (xs @ zs @ ys)" "keeps (set (l # xs @ ys) \<union> set zs) h h'"
    using splice_between_dlist [OF rep_dlist [OF rep l] rep_dlist [OF rep k(1)] k(2) dj] by blast
  have "set zs \<inter> members ((L(k := None))(l := None)) = {}"
    using members_drop [OF rep k(1)] members_drop_sub [of "L(k := None)" l] by auto
  then have "lists_rep h' ((L(k := None))(l \<mapsto> xs @ zs @ ys))"
    using l k(3) by (intro rep_change [OF rep_drop [OF rep] _ h'(3,2)]) auto
  then show ?thesis using implementsI [of "list_splice_between k (last (l # xs)) (hd (ys @ [l]))" h h', OF h'(1) _ h'(3)] by simp
qed

lemma reusable_spliced:
  assumes rep: "lists_rep h L" and l: "L l = Some xs" and k: "L k = Some zs" "k \<noteq> l" and s: "set us = set xs \<union> set zs"
  shows "reusable (dom h) (L(k := None, l \<mapsto> us)) k"
proof -
  have "k \<in> dom h" using rep_dom [OF rep] membersI [of L, OF k(1)] by auto
  moreover have "k \<notin> set us" "k \<notin> members (L(k := None))"
    using s rep_disjoint [OF rep l k(1)] k(2) dlist_distinct [OF rep_dlist [OF rep k(1)]] members_drop [OF rep k(1)] by auto
  ultimately show ?thesis using k(2) by (auto simp: reusable_def members_def split: if_splits)
qed

lemma splice_rep:
  assumes rep: "lists_rep h L" and l: "L l = Some xs" and k: "L k = Some zs" "k \<noteq> l"
  shows "implements (list_splice k l) h (list_op_spec (Splice k l) L)"
    "implements (list_splice_tail k l) h (list_op_spec (SpliceTail k l) L)"
    "implements (list_splice_init k l) h (list_op_spec (SpliceInit k l) L)"
    "implements (list_splice_tail_init k l) h (list_op_spec (SpliceTailInit k l) L)"
proof -
  note t = list_tests(1) [OF rep_dlist [OF rep k(1)]] dlist_head [OF rep_dlist [OF rep l]]
  have idem: "L(k \<mapsto> zs, l \<mapsto> xs) = L" using l k by (auto simp: fun_eq_iff)
  have hd: "zs \<noteq> [] \<Longrightarrow> implements (list_splice_between k l (hd (xs @ [l]))) h (L(k := None, l \<mapsto> zs @ xs))"
    using splice_between_rep [OF rep, of l "[]" xs k zs] l k by simp
  have tl: "zs \<noteq> [] \<Longrightarrow> implements (list_splice_between k (last (l # xs)) l) h (L(k := None, l \<mapsto> xs @ zs))"
    using splice_between_rep [OF rep, of l xs "[]" k zs] l k by simp
  show "implements (list_splice k l) h (list_op_spec (Splice k l) L)"
    using hd t l k rep by (cases "zs = []") (simp_all add: implements_def list_splice_def)
  show "implements (list_splice_tail k l) h (list_op_spec (SpliceTail k l) L)"
    using tl t l k rep by (cases "zs = []") (simp_all add: implements_def list_splice_tail_def)
  have upd: "(L(k := None, l \<mapsto> us))(k \<mapsto> []) = L(k \<mapsto> [], l \<mapsto> us)" for us using k(2) by auto
  have "implements (\<lambda>h. Option.bind (list_splice_between k l (hd (xs @ [l])) h) (INIT_LIST_HEAD k)) h
      (L(k \<mapsto> [], l \<mapsto> zs @ xs))" if "zs \<noteq> []"
    by (rule implements_bind [OF hd [OF that]])
      (metis upd init_rep reusable_spliced [OF rep l k, of "zs @ xs"] set_append sup_commute)
  then show "implements (list_splice_init k l) h (list_op_spec (SpliceInit k l) L)"
    using t l k rep idem by (cases "zs = []") (simp_all add: implements_def list_splice_init_def)
  have "implements (\<lambda>h. Option.bind (list_splice_between k (last (l # xs)) l h) (INIT_LIST_HEAD k)) h
      (L(k \<mapsto> [], l \<mapsto> xs @ zs))" if "zs \<noteq> []"
    by (rule implements_bind [OF tl [OF that]])
      (metis upd init_rep reusable_spliced [OF rep l k, of "xs @ zs"] set_append)
  then show "implements (list_splice_tail_init k l) h (list_op_spec (SpliceTailInit k l) L)"
    using t l k rep idem by (cases "zs = []") (simp_all add: implements_def list_splice_tail_init_def)
qed

lemma list_op_implements:
  assumes rep: "lists_rep h L" and ok: "list_op_ok (dom h) L op"
  shows "implements (list_op_run op) h (list_op_spec op L)"
proof (cases op)
  case (Cut k l e)
  then obtain xs where "L l = Some xs" using ok by auto
  then show ?thesis using cut_position_rep [OF rep] ok Cut by (simp add: implements_def)
next
  case (Splice k l)
  then obtain xs zs where "L l = Some xs" "L k = Some zs" using ok by auto
  then show ?thesis using splice_rep(1) [OF rep] ok Splice by (simp add: implements_def)
next
  case (SpliceTail k l)
  then obtain xs zs where "L l = Some xs" "L k = Some zs" using ok by auto
  then show ?thesis using splice_rep(2) [OF rep] ok SpliceTail by (simp add: implements_def)
qed (use assms in \<open>auto simp: implements_def [of "list_op_run _"] simp flip: implements_def
      intro: init_rep add_rep add_tail_rep del_rep del_init_rep replace_rep replace_init_rep move_rep rotate_left_rep
        splice_rep(3,4) [simplified]\<close>)

section \<open>Loops\<close>

lemma bind_foldM_cong:
  "(\<And>s. g s = foldM f xs s) \<Longrightarrow> Option.bind m g = Option.bind m (foldM f xs)"
  by (cases m) simp_all

lemma for_each_from_fold:
  "dlist h l (as @ bs) \<Longrightarrow> for_each_from f h l (hd (bs @ [l])) s = foldM f bs s"
proof (induction bs arbitrary: as s)
  case Nil
  then show ?case by (subst for_each_from.simps) simp
next
  case (Cons b bs)
  have "b \<noteq> l" using dlist_distinct [OF Cons.prems] by auto
  moreover have "ld_next b h = Some (hd (bs @ [l]))" using dlist_at(1) [OF Cons.prems] .
  moreover have "for_each_from f h l (hd (bs @ [l])) s = foldM f bs s" for s
    using Cons.IH [of "as @ [b]"] Cons.prems by simp
  ultimately show ?case by (subst for_each_from.simps) (auto intro!: bind_foldM_cong)
qed

lemma for_each_prev_from_fold:
  "dlist h l (as @ bs) \<Longrightarrow> for_each_prev_from f h l (last (l # as)) s = foldM f (rev as) s"
proof (induction as arbitrary: bs s rule: rev_induct)
  case Nil
  then show ?case by (subst for_each_prev_from.simps) simp
next
  case (snoc a as)
  have d: "dlist h l (as @ a # bs)" using snoc.prems by simp
  have "a \<noteq> l" using dlist_distinct [OF d] by auto
  moreover have "ld_prev a h = Some (last (l # as))" using dlist_at(2) [OF d] .
  moreover have "for_each_prev_from f h l (last (l # as)) s = foldM f (rev as) s" for s
    using snoc.IH [OF d] .
  moreover have "last (l # as @ [a]) = a" by simp
  ultimately show ?case by (subst for_each_prev_from.simps) (auto intro!: bind_foldM_cong simp del: last.simps)
qed

lemma for_each_fold:
  assumes "dlist h l xs"
  shows "list_for_each f l h s = foldM f xs s" "list_for_each_prev f l h s = foldM f (rev xs) s"
  using for_each_from_fold [of h l "[]" xs f s] for_each_prev_from_fold [of h l xs "[]" f s] assms dlist_head [OF assms]
  by (simp_all add: list_for_each_def list_for_each_prev_def)

text \<open>The typed loops visit the structures around the entries.\<close>

lemma entry_loops:
  assumes "dlist h l xs"
  shows "list_for_each_entry f l off h s = foldM (\<lambda>p. f (list_entry p off)) xs s"
    "list_for_each_entry_reverse f l off h s = foldM (\<lambda>p. f (list_entry p off)) (rev xs) s"
    "list_first_entry_or_null l off h = Some (if xs = [] then None else Some (list_entry (hd xs) off))"
  using for_each_fold [OF assms] dlist_head [OF assms] list_tests(1) [OF assms]
  by (simp_all add: typed_loops list_first_entry_or_null_def list_first_entry_def hd_append)

lemma entry_loops_continue:
  assumes "dlist h l (as @ x # bs)"
  shows "list_for_each_entry_from f l off h (list_entry x off) s = foldM (\<lambda>p. f (list_entry p off)) (x # bs) s"
    "list_for_each_entry_continue f l off h (list_entry x off) s = foldM (\<lambda>p. f (list_entry p off)) bs s"
    "list_for_each_entry_continue_reverse f l off h (list_entry x off) s = foldM (\<lambda>p. f (list_entry p off)) (rev as) s"
proof -
  let ?f = "\<lambda>p. f (list_entry p off)"
  have "dlist h l ((as @ [x]) @ bs)" using assms by simp
  then have "for_each_from ?f h l (hd (bs @ [l])) s = foldM ?f bs s" by (rule for_each_from_fold)
  then show "list_for_each_entry_continue f l off h (list_entry x off) s = foldM ?f bs s"
    using dlist_at(1) [OF assms] by (simp add: typed_loops_continue)
  show "list_for_each_entry_from f l off h (list_entry x off) s = foldM ?f (x # bs) s"
    using for_each_from_fold [OF assms, of ?f s] by (simp add: entry_from_eq)
  show "list_for_each_entry_continue_reverse f l off h (list_entry x off) s = foldM ?f (rev as) s"
    using for_each_prev_from_fold [OF assms, of ?f s] dlist_at(2) [OF assms]
    by (simp add: typed_loops_continue del: last.simps)
qed

section \<open>Building lists\<close>

text \<open>What a component relies on that collects entries in a list: appending a fresh cell, and moving
  all entries of another list to the end.\<close>

locale list_builder =
  fixes rep :: "'h \<Rightarrow> lists \<Rightarrow> bool" and cells :: "'h \<Rightarrow> addr set"
    and append_cell :: "addr \<Rightarrow> addr \<Rightarrow> 'h \<Rightarrow> 'h option" and append_list :: "addr \<Rightarrow> addr \<Rightarrow> 'h \<Rightarrow> 'h option"
  assumes append_cell: "rep h L \<Longrightarrow> L l = Some xs \<Longrightarrow> fresh (cells h) L n \<Longrightarrow>
      \<exists>h'. append_cell n l h = Some h' \<and> rep h' (L(l \<mapsto> xs @ [n])) \<and> cells h' = cells h"
    and append_list: "rep h L \<Longrightarrow> L l = Some xs \<Longrightarrow> L k = Some zs \<Longrightarrow> k \<noteq> l \<Longrightarrow>
      \<exists>h'. append_list k l h = Some h' \<and> rep h' (if zs = [] then L else L(k := None, l \<mapsto> xs @ zs)) \<and> cells h' = cells h"
begin

lemma append_cells:
  "rep h L \<Longrightarrow> L l = Some xs \<Longrightarrow> distinct ns \<Longrightarrow> list_all (fresh (cells h) L) ns \<Longrightarrow>
   \<exists>h'. foldM (\<lambda>n. append_cell n l) ns h = Some h' \<and> rep h' (L(l \<mapsto> xs @ ns)) \<and> cells h' = cells h"
proof (induction ns arbitrary: h L xs)
  case Nil
  then show ?case by (auto simp: fun_upd_idem)
next
  case (Cons n ns)
  obtain h1 where h1: "append_cell n l h = Some h1" "rep h1 (L(l \<mapsto> xs @ [n]))" "cells h1 = cells h"
    using append_cell [of h L l xs n] Cons.prems by auto
  have "members (L(l \<mapsto> xs @ [n])) \<subseteq> insert n (members L)"
    using membersI [of L l xs] Cons.prems(2) by (auto simp: members_def split: if_splits)
  then have "list_all (fresh (cells h1) (L(l \<mapsto> xs @ [n]))) ns"
    using Cons.prems h1(3) by (auto simp: list_all_iff fresh_def)
  moreover have "distinct ns" "(L(l \<mapsto> xs @ [n])) l = Some (xs @ [n])" using Cons.prems(3) by simp_all
  ultimately obtain h' where h': "foldM (\<lambda>n. append_cell n l) ns h1 = Some h'" "cells h' = cells h1"
    "rep h' (L(l \<mapsto> xs @ [n], l \<mapsto> (xs @ [n]) @ ns))"
    using Cons.IH [OF h1(2)] by blast
  have "L(l \<mapsto> xs @ [n], l \<mapsto> (xs @ [n]) @ ns) = L(l \<mapsto> xs @ n # ns)" by simp
  then show ?case using h1(1,3) h' by (simp add: fun_upd_def)
qed

text \<open>A list of entries behind a header cell, the way responses are put together.\<close>

lemma append_header_and_list:
  assumes "rep h L" "L l = Some []" "L k = Some zs" "k \<noteq> l" "zs \<noteq> []" "fresh (cells h) L n"
  shows "\<exists>h1 h'. append_cell n l h = Some h1 \<and> append_list k l h1 = Some h' \<and> rep h' (L(k := None, l \<mapsto> n # zs))"
proof -
  obtain h1 where h1: "append_cell n l h = Some h1" "rep h1 (L(l \<mapsto> [n]))"
    using append_cell [OF assms(1,2,6)] by auto
  obtain h' where "append_list k l h1 = Some h'" "rep h' (L(l \<mapsto> [n], k := None, l \<mapsto> n # zs))"
    using append_list [OF h1(2), of l "[n]" k zs] assms(3-5) by auto
  moreover have "L(l \<mapsto> [n], k := None, l \<mapsto> n # zs) = L(k := None, l \<mapsto> n # zs)" using assms(4) by auto
  ultimately show ?thesis using h1 by auto
qed

end

interpretation chained: list_builder lists_rep dom list_add_tail list_splice_tail
proof
  show "\<exists>h'. list_add_tail n l h = Some h' \<and> lists_rep h' (L(l \<mapsto> xs @ [n])) \<and> dom h' = dom h"
    if "lists_rep h L" "L l = Some xs" "fresh (dom h) L n" for h L l xs n
    using add_tail_rep [OF that] by (simp add: implements_def)
  show "\<exists>h'. list_splice_tail k l h = Some h' \<and>
      lists_rep h' (if zs = [] then L else L(k := None, l \<mapsto> xs @ zs)) \<and> dom h' = dom h"
    if "lists_rep h L" "L l = Some xs" "L k = Some zs" "k \<noteq> l" for h L l xs k zs
    using splice_rep(2) [OF that] that by (cases "zs = []") (simp_all add: implements_def)
qed

lemma list_run_rep:
  "lists_rep h L \<Longrightarrow> list_ops_ok (dom h) L ops \<Longrightarrow>
   \<exists>h'. list_run ops h = Some h' \<and> lists_rep h' (list_spec ops L) \<and> dom h' = dom h"
proof (induction ops arbitrary: h L)
  case (Cons op ops)
  obtain h1 where "list_op_run op h = Some h1" "lists_rep h1 (list_op_spec op L)" "dom h1 = dom h"
    using list_op_implements [OF Cons.prems(1), of op] Cons.prems(2) by (auto simp: implements_def)
  with Cons.IH [of h1 "list_op_spec op L"] Cons.prems(2) show ?case by simp
qed simp

section \<open>Properties\<close>

text \<open>C35. The linked lists are correct: on a heap that holds any family of disjoint lists, every sequence
  of the operations of \<open>list.h\<close> that respects their preconditions is defined and does to the
  lists what the specification says; afterwards the tests answer for the contents, and the loops
  end, having visited exactly the entries in order (or in reverse order), or the structures around the entries,
  from the beginning or from any entry on.\<close>

theorem list_ops_refine:
  assumes "lists_rep h L" and "list_ops_ok (dom h) L ops"
  shows "\<exists>h'. list_run ops h = Some h' \<and> lists_rep h' (list_spec ops L) \<and> dom h' = dom h \<and>
    (\<forall>l xs. list_spec ops L l = Some xs \<longrightarrow>
      list_empty l h' = Some (xs = []) \<and> list_is_singular l h' = Some (length xs = 1) \<and>
      list_for_each (\<lambda>x s. Some (s @ [x])) l h' [] = Some xs \<and>
      list_for_each_prev (\<lambda>x s. Some (s @ [x])) l h' [] = Some (rev xs)) \<and>
    (\<forall>l off as x bs. list_spec ops L l = Some (as @ x # bs) \<longrightarrow>
      list_first_entry_or_null l off h' = Some (Some (list_entry (hd (as @ [x])) off)) \<and>
      list_for_each_entry (\<lambda>e s. Some (s @ [e])) l off h' [] = Some (map (\<lambda>p. list_entry p off) (as @ x # bs)) \<and>
      list_for_each_entry_reverse (\<lambda>e s. Some (s @ [e])) l off h' [] =
        Some (map (\<lambda>p. list_entry p off) (rev bs @ x # rev as)) \<and>
      list_for_each_entry_from (\<lambda>e s. Some (s @ [e])) l off h' (list_entry x off) [] =
        Some (map (\<lambda>p. list_entry p off) (x # bs)) \<and>
      list_for_each_entry_continue (\<lambda>e s. Some (s @ [e])) l off h' (list_entry x off) [] =
        Some (map (\<lambda>p. list_entry p off) bs) \<and>
      list_for_each_entry_continue_reverse (\<lambda>e s. Some (s @ [e])) l off h' (list_entry x off) [] =
        Some (map (\<lambda>p. list_entry p off) (rev as)))"
proof -
  have f: "foldM (\<lambda>x s. Some (s @ [x])) xs s = Some (s @ xs)" for xs s :: "addr list"
    by (induction xs arbitrary: s) auto
  have g: "foldM (\<lambda>p s. Some (s @ [list_entry p off])) xs s = Some (s @ map (\<lambda>p. list_entry p off) xs)" for off xs s
    by (induction xs arbitrary: s) auto
  obtain h' where h': "list_run ops h = Some h'" "lists_rep h' (list_spec ops L)" "dom h' = dom h"
    using list_run_rep [OF assms] by blast
  note d = rep_dlist [OF h'(2)]
  show ?thesis
  proof (intro exI [of _ h'] conjI allI impI h')
    fix l xs assume l: "list_spec ops L l = Some xs"
    show "list_empty l h' = Some (xs = [])" "list_is_singular l h' = Some (length xs = 1)"
      using list_tests [OF d [OF l]] by simp_all
    show "list_for_each (\<lambda>x s. Some (s @ [x])) l h' [] = Some xs"
      "list_for_each_prev (\<lambda>x s. Some (s @ [x])) l h' [] = Some (rev xs)"
      by (simp_all add: for_each_fold [OF d [OF l]] f)
  qed (simp_all add: g entry_loops [OF d] entry_loops_continue [OF d] hd_append)
qed

lemma list_ops_refine_witness:
  "\<exists>h'. list_run [Init 1, Init 2, AddTail 5 1, Add 6 1, AddTail 7 1, AddTail 8 2, Del 5, SpliceInit 2 1, Cut 2 1 8]
      (\<lambda>a. if a < 9 then Some \<lparr>nxt = 0, prv = 0\<rparr> else None) = Some h' \<and>
    list_for_each (\<lambda>x s. Some (s @ [x])) 1 h' [] = Some [6, 7] \<and>
    list_for_each_prev (\<lambda>x s. Some (s @ [x])) 2 h' [] = Some [8] \<and>
    list_for_each_entry_continue (\<lambda>e s. Some (s @ [e])) 1 4 h' (list_entry 6 4) [] = Some [3]"
proof -
  let ?h = "\<lambda>a. if a < 9 then Some \<lparr>nxt = 0, prv = 0\<rparr> else None"
  let ?ops = "[Init 1, Init 2, AddTail 5 1, Add 6 1, AddTail 7 1, AddTail 8 2, Del 5, SpliceInit 2 1, Cut 2 1 8]"
  have d: "dom ?h = {..<9}" by (auto simp: dom_def)
  have r: "lists_rep ?h Map.empty" by (simp add: lists_rep_def)
  have s: "list_spec ?ops Map.empty 1 = Some [6, 7]" "list_spec ?ops Map.empty 2 = Some [8]"
    by (simp_all add: at_def without_def)
  have ok: "list_ops_ok (dom ?h) Map.empty ?ops"
    unfolding d by (simp add: at_def without_def fresh_def reusable_def entry_def members_def dom_def)
  have a: "list_spec ?ops Map.empty 1 = Some ([] @ 6 # [7])" using s(1) by simp
  obtain h' where h': "list_run ?ops ?h = Some h'"
    "list_for_each (\<lambda>x s. Some (s @ [x])) 1 h' [] = Some [6, 7]"
    "list_for_each_prev (\<lambda>x s. Some (s @ [x])) 2 h' [] = Some (rev [8])"
    "list_for_each_entry_continue (\<lambda>e s. Some (s @ [e])) 1 4 h' (list_entry 6 4) [] = Some (map (\<lambda>p. list_entry p 4) [7])"
    using list_ops_refine [OF r ok] s a by blast
  then show ?thesis by (auto simp: list_entry_def container_of_def)
qed

end
