(* ===== verification/Router_List.thy ===== *)
theory Router_List
  imports Router Linked_List_Props
begin

text \<open>
  The list of routers in memory, \<open>set_routers\<close> of \<^verbatim>\<open>src/router/router.c\<close>. \<open>Router\<close> keeps
  the routers as a list of addresses; here \<open>set_routers\<close> is the code itself, on the cells of
  \<open>Linked_List\<close>, with \<open>free\<close> taking a cell out of the heap, and the step to the list of
  addresses is a theorem. \<open>ent\<close> gives the address that an entry holds.
\<close>

section \<open>Model\<close>

definition drop_entry :: "addr \<Rightarrow> lheap \<Rightarrow> lheap option" where
  "drop_entry p h = do { h \<leftarrow> list_del p h; Some (h(p := None)) }"

definition set_routers_cells :: "addr \<Rightarrow> addr \<Rightarrow> lheap \<Rightarrow> lheap option" where
  "set_routers_cells routers new h = do {
     h \<leftarrow> list_for_each_safe drop_entry routers h;
     e \<leftarrow> list_empty new h;
     if e then INIT_LIST_HEAD routers h
     else do {
       n \<leftarrow> ld_next new h;
       h \<leftarrow> st_next routers n h;
       p \<leftarrow> ld_prev new h;
       h \<leftarrow> st_prev routers p h;
       n \<leftarrow> ld_next routers h;
       h \<leftarrow> st_prev n routers h;
       p \<leftarrow> ld_prev routers h;
       st_next p routers h
     }
   }"

section \<open>Emptying the list\<close>

text \<open>A store to a cell that is not part of a list.\<close>

lemma dlist_upd:
  assumes d: "dlist h l xs" and a: "a \<notin> set (l # xs)"
  shows "dlist (h(a := c)) l xs"
proof -
  have "b \<noteq> a" if "b \<in> set (l # xs @ [l])" for b using a that by auto
  then have same: "ld_next b (h(a := c)) = ld_next b h \<and> ld_prev b (h(a := c)) = ld_prev b h"
    if "b \<in> set (l # xs @ [l])" for b using that by (simp add: ld_next_def ld_prev_def)
  have "successively (link h) (l # xs @ [l])" using d by (simp add: dlist_def)
  then have "successively (link (h(a := c))) (l # xs @ [l])"
  proof (rule chain_cong)
    show "ld_next b (h(a := c)) = ld_next b h" if "b \<in> set (butlast (l # xs @ [l]))" for b
      using same [OF in_set_butlastD [OF that]] by (rule conjunct1)
    show "ld_prev b (h(a := c)) = ld_prev b h" if "b \<in> set (tl (l # xs @ [l]))" for b
      using same [of b] that by (simp only: list.sel list.set_intros(2) simp_thms)
  qed
  then show ?thesis using d by (simp add: dlist_def)
qed

lemma free_rep:
  assumes rep: "lists_rep h L" and a: "a \<notin> members L"
  shows "lists_rep (h(a := None)) L"
proof -
  have "dlist (h(a := None)) l xs" if l: "L l = Some xs" for l xs
    using dlist_upd [OF rep_dlist [OF rep l]] membersI [of L, OF l] a by blast
  then show ?thesis using rep by (simp add: lists_rep_def)
qed

lemma drop_entry_rep:
  assumes rep: "lists_rep h L" and l: "L l = Some (x # xs)"
  shows "\<exists>h'. drop_entry x h = Some h' \<and> lists_rep h' (L(l \<mapsto> xs)) \<and> dom h' = dom h - {x}"
proof -
  have e: "entry L x" unfolding entry_def using l by fastforce
  obtain h1 where h1: "list_del x h = Some h1" "lists_rep h1 (without x L)" "dom h1 = dom h"
    using del_rep [OF rep e] by (auto simp: implements_def)
  have "x \<notin> members (without x L)" using fresh_entry [OF rep e] by (simp add: fresh_def)
  then have "lists_rep (h1(x := None)) (without x L)" by (rule free_rep [OF h1(2)])
  moreover have "without x L = L(l \<mapsto> xs)" using without_at [OF rep, of l "[]" x xs] l by simp
  ultimately show ?thesis using h1 by (simp add: drop_entry_def)
qed

lemma empty_loop:
  "lists_rep h L \<Longrightarrow> L l = Some xs \<Longrightarrow> n = hd (tl (xs @ [l, hd (xs @ [l])])) \<Longrightarrow>
   \<exists>h'. for_each_safe_from drop_entry l (hd (xs @ [l])) n h = Some h' \<and> lists_rep h' (L(l \<mapsto> [])) \<and>
     dom h' = dom h - set xs"
proof (induction xs arbitrary: h L n)
  case Nil
  then show ?case by (subst for_each_safe_from.simps) (auto simp: fun_upd_idem)
next
  case (Cons x xs)
  have xl: "x \<noteq> l" using dlist_distinct [OF rep_dlist [OF Cons.prems(1,2)]] by auto
  obtain h1 where h1: "drop_entry x h = Some h1" "lists_rep h1 (L(l \<mapsto> xs))" "dom h1 = dom h - {x}"
    using drop_entry_rep [OF Cons.prems(1,2)] by blast
  have d1: "dlist h1 l xs" by (rule rep_dlist [OF h1(2)]) simp
  have n: "n = hd (xs @ [l])" using Cons.prems(3) by (cases xs) auto
  have nn: "ld_next n h1 = Some (hd (tl (xs @ [l, hd (xs @ [l])])))"
  proof (cases xs)
    case Nil
    then show ?thesis using n dlist_head(1) [OF d1] by simp
  next
    case (Cons y ys)
    then show ?thesis using n dlist_at(1) [of h1 l "[]" y ys] d1 by (cases ys) auto
  qed
  have "(L(l \<mapsto> xs)) l = Some xs" by simp
  from Cons.IH [OF h1(2) this refl] obtain h' where
    "for_each_safe_from drop_entry l (hd (xs @ [l])) (hd (tl (xs @ [l, hd (xs @ [l])]))) h1 = Some h'"
    "lists_rep h' (L(l \<mapsto> xs, l \<mapsto> []))" "dom h' = dom h1 - set xs" by blast
  then show ?case using xl h1 n nn by (subst for_each_safe_from.simps) auto
qed

lemma empty_routers:
  assumes rep: "lists_rep h L" and l: "L l = Some xs"
  shows "\<exists>h'. list_for_each_safe drop_entry l h = Some h' \<and> lists_rep h' (L(l \<mapsto> [])) \<and> dom h' = dom h - set xs"
proof -
  note d = rep_dlist [OF rep l]
  have "ld_next (hd (xs @ [l])) h = Some (hd (tl (xs @ [l, hd (xs @ [l])])))"
  proof (cases xs)
    case Nil
    then show ?thesis using dlist_head(1) [OF d] by simp
  next
    case (Cons y ys)
    then show ?thesis using dlist_at(1) [of h l "[]" y ys] d by (cases ys) auto
  qed
  then show ?thesis using empty_loop [OF rep l refl] dlist_head(1) [OF d] by (simp add: list_for_each_safe_def)
qed

section \<open>Taking over the new list\<close>

lemma up_prev_commute: "a \<noteq> b \<Longrightarrow> up_prev a u (up_prev b v h) = up_prev b v (up_prev a u h)"
  by (auto simp: up_prev_def fun_eq_iff)

text \<open>On a list with entries, the assignments of \<open>set_routers\<close> have the effect of \<open>list_replace\<close>
  of the head.\<close>

lemma take_over:
  assumes d: "dlist h new zs" "zs \<noteq> []" and r: "r \<in> dom h" "r \<notin> set (new # zs)"
  shows "do {
       n \<leftarrow> ld_next new h;
       h \<leftarrow> st_next r n h;
       p \<leftarrow> ld_prev new h;
       h \<leftarrow> st_prev r p h;
       n \<leftarrow> ld_next r h;
       h \<leftarrow> st_prev n r h;
       p \<leftarrow> ld_prev r h;
       st_next p r h
     } = list_replace new r h"
proof -
  have ld: "ld_next new h = Some (hd zs)" "ld_prev new h = Some (last zs)"
    using dlist_head [OF d(1)] d(2) by simp_all
  have z: "hd zs \<in> set zs" "last zs \<in> set zs" using d(2) by simp_all
  have neq: "hd zs \<noteq> r" "hd zs \<noteq> new" "last zs \<noteq> r" using z r(2) dlist_distinct [OF d(1)] by auto
  have dm: "hd zs \<in> dom h" "last zs \<in> dom h" using dlist_dom [OF d(1)] z by auto
  show ?thesis using ld neq dm r(1) by (simp add: list_replace_def heap_simps up_prev_commute)
qed

lemma set_routers_rep:
  assumes rep: "lists_rep h L" and r: "L r = Some xs" and k: "L k = Some zs" "k \<noteq> r"
  shows "\<exists>h'. set_routers_cells r k h = Some h' \<and>
    lists_rep h' (if zs = [] then L(r \<mapsto> []) else L(k := None, r \<mapsto> zs)) \<and> dom h' = dom h - set xs"
proof -
  obtain h1 where h1: "list_for_each_safe drop_entry r h = Some h1" "lists_rep h1 (L(r \<mapsto> []))" "dom h1 = dom h - set xs"
    using empty_routers [OF rep r] by blast
  have k1: "dlist h1 k zs" by (rule rep_dlist [OF h1(2)]) (use k in simp)
  have e: "list_empty k h1 = Some (zs = [])" by (rule list_tests(1) [OF k1])
  have rm: "reusable (dom h1) (L(r \<mapsto> [])) r"
    using rep_dom [OF h1(2)] membersI [of "L(r \<mapsto> [])" r "[]"] members_drop [OF h1(2), of r "[]"] by (auto simp: reusable_def)
  show ?thesis
  proof (cases "zs = []")
    case True
    have "implements (INIT_LIST_HEAD r) h1 ((L(r \<mapsto> []))(r \<mapsto> []))" by (rule init_rep [OF h1(2) rm])
    then show ?thesis using True h1 e by (auto simp: set_routers_cells_def implements_def)
  next
    case False
    have f: "fresh (dom h1) (L(r := None)) r" using rm members_drop_sub [of "L(r := None)" r] by (simp add: reusable_def fresh_def)
    have rep1: "lists_rep h1 (L(r := None))" using rep_drop [OF h1(2), of r] by simp
    have km: "k \<in> members (L(r := None))" using membersI [of "L(r := None)" k zs] k by simp
    have "r \<notin> set (k # zs)" using f membersI [of "L(r := None)" k zs] k by (auto simp: fresh_def)
    moreover have "r \<in> dom h1" using f by (simp add: fresh_def)
    ultimately have "set_routers_cells r k h = list_replace k r h1"
      using h1(1) e False take_over [OF k1 False] by (simp add: set_routers_cells_def)
    moreover have "renamed k r (L(r := None)) = L(k := None, r \<mapsto> zs)" using k by (auto simp: renamed_def)
    ultimately show ?thesis using replace_rep [OF rep1 f km] False h1(3) by (simp add: implements_def)
  qed
qed

section \<open>Properties\<close>

text \<open>C36. The update of the routers in memory: with the entries \<open>ns\<close> that were parsed appended to the
  empty temporary list, \<open>set_routers\<close> ends, makes \<open>routers\<close> the list of exactly these entries
  in order, frees every entry of the old list and no other cell, and leaves all other lists as
  they are. Read through the addresses of the entries it is the step of \<open>Router\<close>.\<close>

theorem set_routers_cells_refines:
  assumes "lists_rep h L" and "L routers = Some xs" and "L tmp = Some []" and "tmp \<noteq> routers"
    and "distinct ns" and "list_all (fresh (dom h) L) ns"
  shows "\<exists>h1 h'. foldM (\<lambda>n. list_add_tail n tmp) ns h = Some h1 \<and> set_routers_cells routers tmp h1 = Some h' \<and>
    dom h' = dom h - set xs \<and> lists_rep h' (L(tmp := (if ns = [] then Some [] else None), routers \<mapsto> ns)) \<and>
    list_for_each (\<lambda>n s. Some (s @ [ent n])) routers h' [] =
      Some (set_routers (map ent ns) (map ent xs))"
proof -
  obtain h1 where h1: "foldM (\<lambda>n. list_add_tail n tmp) ns h = Some h1" "lists_rep h1 (L(tmp \<mapsto> ns))" "dom h1 = dom h"
    using chained.append_cells [OF assms(1,3,5,6)] by auto
  define L' where "L' = L(tmp := (if ns = [] then Some [] else None), routers \<mapsto> ns)"
  have "(if ns = [] then (L(tmp \<mapsto> ns))(routers \<mapsto> []) else (L(tmp \<mapsto> ns))(tmp := None, routers \<mapsto> ns)) = L'"
    by (simp add: L'_def)
  then obtain h' where h': "set_routers_cells routers tmp h1 = Some h'" "lists_rep h' L'" "dom h' = dom h1 - set xs"
    using set_routers_rep [OF h1(2), of routers xs tmp ns] assms(2,4) by auto
  have d: "dlist h' routers ns" by (rule rep_dlist [OF h'(2)]) (simp add: L'_def)
  have "foldM (\<lambda>n s. Some (s @ [ent n])) zs s = Some (s @ map ent zs)" for zs s
    by (induction zs arbitrary: s) auto
  then have "list_for_each (\<lambda>n s. Some (s @ [ent n])) routers h' [] = Some (map ent ns)"
    by (simp add: for_each_fold(1) [OF d])
  then show ?thesis using h1 h' unfolding L'_def by (simp add: set_routers_def)
qed

lemma set_routers_cells_refines_witness:
  "\<exists>h h1 h'. list_run [Init 1, Init 2, AddTail 5 1, AddTail 6 1] (\<lambda>a. if a < 9 then Some \<lparr>nxt = 0, prv = 0\<rparr> else None) = Some h \<and>
    foldM (\<lambda>n. list_add_tail n 2) [7, 8] h = Some h1 \<and> set_routers_cells 1 2 h1 = Some h' \<and>
    dom h' = {0, 1, 2, 3, 4, 7, 8} \<and>
    list_for_each (\<lambda>n s. Some (s @ [sa4 (of_nat n) 1])) 1 h' [] = Some [sa4 7 1, sa4 8 1]"
proof -
  let ?h = "\<lambda>a :: addr. if a < 9 then Some \<lparr>nxt = 0, prv = 0\<rparr> else None"
  have d: "dom ?h = {0, 1, 2, 3, 4, 5, 6, 7, 8}" by (auto simp: dom_def)
  have r: "lists_rep ?h Map.empty" by (simp add: lists_rep_def)
  have ok: "list_ops_ok (dom ?h) Map.empty [Init 1, Init 2, AddTail 5 1, AddTail 6 1]"
    unfolding d by (simp add: at_def fresh_def reusable_def members_def dom_def)
  obtain h where h: "list_run [Init 1, Init 2, AddTail 5 1, AddTail 6 1] ?h = Some h"
    "lists_rep h [1 \<mapsto> [5, 6], 2 \<mapsto> []]" "dom h = dom ?h"
    using list_run_rep [OF r ok] by (auto simp: at_def fun_upd_twist)
  have f: "list_all (fresh (dom h) [1 \<mapsto> [5, 6], 2 \<mapsto> []]) [7, 8]"
    unfolding h(3) d by (auto simp: fresh_def members_def split: if_splits)
  show ?thesis
    using set_routers_cells_refines [OF h(2) _ _ _ _ f, of 1 "[5, 6]" 2 "\<lambda>n. sa4 (of_nat n) 1"] h(1,3)
    unfolding d by (auto simp: set_routers_def)
qed

end
