(* ===== verification/Response_List.thy ===== *)
theory Response_List
  imports Router_List
begin

text \<open>
  Responses in memory. \<open>Client\<close>, \<open>Router\<close> and \<open>Protocol\<close> keep a response as a list of nodes; here the functions
  that build, send and release one are the code itself, on the cells of \<open>Linked_List\<close>: \<open>make_list\<close> and
  \<open>clients_to_json\<close> of \<^verbatim>\<open>src/common/client.c\<close>, \<open>routers_to_json\<close> of \<^verbatim>\<open>src/router/router.c\<close>, and
  \<open>make_response_with_body\<close>, \<open>psnet_send_response\<close> and \<open>free_response\<close> of \<^verbatim>\<open>src/common/protocol.c\<close>. The step
  to the lists of nodes, and that all memory is given back, are a theorem.
\<close>

section \<open>Memory\<close>

text \<open>The members \<open>data\<close> and \<open>len\<close> of a \<open>struct response_node\<close>; its first member \<open>chain\<close> is the cell at the same address.\<close>

record rnode =
  rn_ptr :: addr
  rn_size :: nat

text \<open>Cells, nodes and character buffers. As in \<open>Deltalist\<close>, \<open>malloc\<close> returns an address that was never used before.\<close>

record rmem =
  rm_cells :: lheap
  rm_nodes :: "addr \<rightharpoonup> rnode"
  rm_bufs :: "addr \<rightharpoonup> char list"
  rm_brk :: addr

definition new_rnode :: "rmem \<Rightarrow> addr \<times> rmem" where
  "new_rnode m =
     (let a = rm_brk m
      in (a, m\<lparr>rm_cells := (rm_cells m)(a \<mapsto> \<lparr>nxt = 0, prv = 0\<rparr>),
               rm_nodes := (rm_nodes m)(a \<mapsto> \<lparr>rn_ptr = 0, rn_size = 0\<rparr>), rm_brk := Suc a\<rparr>))"

definition new_rbuf :: "char list \<Rightarrow> rmem \<Rightarrow> addr \<times> rmem" where
  "new_rbuf data m =
     (let a = rm_brk m in (a, m\<lparr>rm_bufs := (rm_bufs m)(a \<mapsto> data), rm_brk := Suc a\<rparr>))"

definition free_rbuf :: "addr \<Rightarrow> rmem \<Rightarrow> rmem option" where
  "free_rbuf a m = do { _ \<leftarrow> rm_bufs m a; Some (m\<lparr>rm_bufs := (rm_bufs m)(a := None)\<rparr>) }"

definition free_rnode :: "addr \<Rightarrow> rmem \<Rightarrow> rmem option" where
  "free_rnode a m = do {
     _ \<leftarrow> rm_nodes m a;
     Some (m\<lparr>rm_cells := (rm_cells m)(a := None), rm_nodes := (rm_nodes m)(a := None)\<rparr>)
   }"

section \<open>Building\<close>

text \<open>The statements that put a node with the text \<open>data\<close> at the end of a list.\<close>

definition attach :: "char list \<Rightarrow> nat \<Rightarrow> addr \<Rightarrow> rmem \<Rightarrow> rmem option" where
  "attach data len head m =
     (let (node, m) = new_rnode m;
          (p, m) = new_rbuf data m;
          m = m\<lparr>rm_nodes := (rm_nodes m)(node \<mapsto> \<lparr>rn_ptr = p, rn_size = len\<rparr>)\<rparr>
      in do { c \<leftarrow> list_add_tail node head (rm_cells m); Some (m\<lparr>rm_cells := c\<rparr>) })"

record cells_arg =
  ca_list :: addr
  ca_ignore :: "sockaddr_storage option"
  ca_i :: int
  ca_n :: int

definition make_list_cells ::
  "ntop \<Rightarrow> sockaddr_storage \<Rightarrow> (cells_arg \<times> rmem) option \<Rightarrow> bool \<times> (cells_arg \<times> rmem) option" where
  "make_list_cells ntop client arg =
     (case arg of
        None \<Rightarrow> (True, None)
      | Some (ml, m) \<Rightarrow>
          if ca_i ml \<ge> ca_n ml then (True, Some (ml, m))
          else if (case ca_ignore ml of None \<Rightarrow> False | Some ign \<Rightarrow> delta_equals client ign) then (False, Some (ml, m))
          else (False, do {
            let ml = ml\<lparr>ca_i := ca_i ml + 1\<rparr>;
            addr \<leftarrow> ntop_buf ntop (ss_family client) (get_in_addr client) INET6_ADDRSTRLEN;
            (len, data) \<leftarrow> c_sprintf (25 + INET6_ADDRSTRLEN + PORT_STRLEN + 1)
               (node_fmt addr (ntohs (get_in_port client)) (ss_family client));
            m \<leftarrow> attach data len (ca_list ml) m;
            Some (ml, m)
          }))"

text \<open>\<open>((struct response_node*)head->prev)->len--\<close> if \<open>head->prev\<close> and \<open>head->next\<close> differ.\<close>

definition drop_separator_cells :: "addr \<Rightarrow> rmem \<Rightarrow> rmem option" where
  "drop_separator_cells head m = do {
     p \<leftarrow> ld_prev head (rm_cells m);
     n \<leftarrow> ld_next head (rm_cells m);
     if p \<noteq> n then do {
       r \<leftarrow> rm_nodes m p;
       Some (m\<lparr>rm_nodes := (rm_nodes m)(p \<mapsto> r\<lparr>rn_size := rn_size r - 1\<rparr>)\<rparr>)
     } else Some m
   }"

definition clients_to_json_cells ::
  "ntop \<Rightarrow> addr \<Rightarrow> sockaddr_storage option \<Rightarrow> char list \<Rightarrow> client_tbl \<Rightarrow> rmem \<Rightarrow> (client_rc \<times> rmem) option" where
  "clients_to_json_cells ntop head ign n T m = do {
     (v, endptr) \<leftarrow> c_strtol n;
     let num = int_of_long v;
     e \<leftarrow> rd endptr 0;
     if num < 0 \<or> e \<noteq> NUL then Some (CL_BADNUM, m)
     else do {
       m \<leftarrow> attach (''['' @ [NUL]) 1 head m;
       r \<leftarrow> delta_foreach T (make_list_cells ntop) (Some (\<lparr>ca_list = head, ca_ignore = ign, ca_i = 0, ca_n = num\<rparr>, m));
       (_, m) \<leftarrow> r;
       m \<leftarrow> drop_separator_cells head m;
       m \<leftarrow> attach ('']'' @ DELIM @ [NUL]) 5 head m;
       Some (CL_OK, m)
     }
   }"

fun router_nodes_cells :: "ntop \<Rightarrow> sockaddr_storage list \<Rightarrow> string option \<Rightarrow> addr \<Rightarrow> rmem \<Rightarrow> rmem option" where
  "router_nodes_cells ntop [] addr head m = Some m"
| "router_nodes_cells ntop (ent # routers) addr head m = do {
     let addr = (case ntop_buf ntop (ss_family ent) (get_in_addr ent) INET6_ADDRSTRLEN of
        Some s \<Rightarrow> Some s | None \<Rightarrow> addr);
     s \<leftarrow> addr;
     let (len, data) = c_snprintf (26 + INET6_ADDRSTRLEN + PORT_STRLEN)
        (node_fmt s (ntohs (get_in_port ent)) (ss_family ent));
     m \<leftarrow> attach data len head m;
     router_nodes_cells ntop routers addr head m
   }"

definition routers_to_json_cells :: "ntop \<Rightarrow> addr \<Rightarrow> int \<Rightarrow> sockaddr_storage list \<Rightarrow> rmem \<Rightarrow> rmem option" where
  "routers_to_json_cells ntop head n routers m = do {
     m \<leftarrow> attach (''['' @ [NUL]) 1 head m;
     m \<leftarrow> router_nodes_cells ntop routers None head m;
     m \<leftarrow> drop_separator_cells head m;
     attach ('']'' @ DELIM @ [NUL]) 5 head m
   }"

definition make_response_cells :: "addr \<Rightarrow> addr \<Rightarrow> rmem \<Rightarrow> rmem option" where
  \<open>make_response_cells head body m = do {
     len \<leftarrow> list_for_each (\<lambda>pos len. do { r \<leftarrow> rm_nodes m pos; Some (len + rn_size r) }) body (rm_cells m) 0;
     let (hlen, data) = c_snprintf 100 (''{"status":"okay","size":'' @ dec len @ ''}'' @ DELIM);
     m \<leftarrow> attach data hlen head m;
     c \<leftarrow> list_splice_tail body head (rm_cells m);
     Some (m\<lparr>rm_cells := c\<rparr>)
   }\<close>

section \<open>Sending and releasing\<close>

partial_function (option) send_from :: "rmem \<Rightarrow> addr \<Rightarrow> addr \<Rightarrow> net \<Rightarrow> (int \<times> net) option" where
  "send_from m head it w =
     (if it = head then Some (0, w)
      else do {
        r \<leftarrow> rm_nodes m it;
        data \<leftarrow> rm_bufs m (rn_ptr r);
        (rv, w) \<leftarrow> tcp_send_bytes data (rn_size r) w;
        if rv < 0 then Some (rv, w)
        else do { n \<leftarrow> ld_next it (rm_cells m); send_from m head n w }
      })"

definition send_response_cells :: "addr \<Rightarrow> rmem \<Rightarrow> net \<Rightarrow> (int \<times> net) option" where
  "send_response_cells head m w = do { pos \<leftarrow> ld_next head (rm_cells m); send_from m head pos w }"

partial_function (option) free_from :: "addr \<Rightarrow> addr \<Rightarrow> rmem \<Rightarrow> rmem option" where
  "free_from head it m =
     (if it = head then Some m
      else do {
        n \<leftarrow> ld_next it (rm_cells m);
        r \<leftarrow> rm_nodes m it;
        m \<leftarrow> free_rbuf (rn_ptr r) m;
        m \<leftarrow> free_rnode it m;
        free_from head n m
      })"

definition free_response :: "addr \<Rightarrow> rmem \<Rightarrow> rmem option" where
  "free_response head m = do { it \<leftarrow> ld_next head (rm_cells m); free_from head it m }"

declare send_from.simps [code] free_from.simps [code]

text \<open>The last statements of \<open>process_list\<close> and \<open>process_discover\<close> of both services, with the two local lists.\<close>

definition send_body_cells :: "addr \<Rightarrow> addr \<Rightarrow> rmem \<Rightarrow> net \<Rightarrow> (rmem \<times> net) option" where
  "send_body_cells head jlist m w = do {
     m \<leftarrow> make_response_cells head jlist m;
     (_, w) \<leftarrow> send_response_cells head m w;
     m \<leftarrow> free_response head m;
     Some (m, w)
   }"

definition local_lists :: "addr \<Rightarrow> addr \<Rightarrow> rmem \<Rightarrow> rmem option" where
  "local_lists head jlist m = do {
     c \<leftarrow> INIT_LIST_HEAD head (rm_cells m);
     c \<leftarrow> INIT_LIST_HEAD jlist c;
     Some (m\<lparr>rm_cells := c\<rparr>)
   }"

definition answer_clients ::
  "ntop \<Rightarrow> addr \<Rightarrow> addr \<Rightarrow> sockaddr_storage option \<Rightarrow> char list \<Rightarrow> client_tbl \<Rightarrow> rmem \<Rightarrow> net \<Rightarrow>
   (client_rc \<times> rmem \<times> net) option" where
  "answer_clients ntop head jlist ign n T m w = do {
     m \<leftarrow> local_lists head jlist m;
     (rc, m) \<leftarrow> clients_to_json_cells ntop jlist ign n T m;
     if rc \<noteq> CL_OK then Some (rc, m, w)
     else do { (m, w) \<leftarrow> send_body_cells head jlist m w; Some (rc, m, w) }
   }"

definition answer_routers ::
  "ntop \<Rightarrow> addr \<Rightarrow> addr \<Rightarrow> int \<Rightarrow> sockaddr_storage list \<Rightarrow> rmem \<Rightarrow> net \<Rightarrow> (rmem \<times> net) option" where
  "answer_routers ntop head jlist n routers m w = do {
     m \<leftarrow> local_lists head jlist m;
     m \<leftarrow> routers_to_json_cells ntop jlist n routers m;
     send_body_cells head jlist m w
   }"

section \<open>Ownership\<close>

text \<open>The memory \<open>m\<close> is \<open>m0\<close> with the response nodes \<open>ts\<close> added: each a node, its buffer and its contents. Besides them
  only the cells in \<open>H\<close> may have changed.\<close>

type_synonym owned = "(addr \<times> addr \<times> response_node) list"

abbreviation "node_at \<equiv> fst :: addr \<times> addr \<times> response_node \<Rightarrow> addr"
abbreviation "buf_at t \<equiv> fst (snd (t :: addr \<times> addr \<times> response_node))"
abbreviation "node_val t \<equiv> snd (snd (t :: addr \<times> addr \<times> response_node))"

definition unused :: "rmem \<Rightarrow> bool" where
  "unused m \<longleftrightarrow> (\<forall>a \<ge> rm_brk m. rm_cells m a = None \<and> rm_nodes m a = None \<and> rm_bufs m a = None)"

definition owns :: "addr set \<Rightarrow> rmem \<Rightarrow> owned \<Rightarrow> rmem \<Rightarrow> bool" where
  "owns H m0 ts m \<longleftrightarrow> unused m \<and> rm_brk m0 \<le> rm_brk m \<and> distinct (map node_at ts) \<and> distinct (map buf_at ts) \<and>
     (\<forall>t \<in> set ts. rm_brk m0 \<le> node_at t \<and> node_at t < rm_brk m \<and> rm_brk m0 \<le> buf_at t \<and> buf_at t < rm_brk m \<and>
        rm_nodes m (node_at t) = Some \<lparr>rn_ptr = buf_at t, rn_size = rn_len (node_val t)\<rparr> \<and>
        rm_bufs m (buf_at t) = Some (rn_data (node_val t))) \<and>
     (\<forall>a. a \<notin> node_at ` set ts \<longrightarrow> rm_nodes m a = rm_nodes m0 a) \<and>
     (\<forall>a. a \<notin> buf_at ` set ts \<longrightarrow> rm_bufs m a = rm_bufs m0 a) \<and>
     (\<forall>a. a \<notin> H \<union> node_at ` set ts \<longrightarrow> rm_cells m a = rm_cells m0 a)"

lemma owns_rotate: "owns H m0 (ts @ [t]) m \<longleftrightarrow> owns H m0 (t # ts) m"
  by (auto simp: owns_def)

lemma owns_cells:
  assumes "owns H m0 ts m" "keeps (H \<union> node_at ` set ts) (rm_cells m) c"
  shows "owns H m0 ts (m\<lparr>rm_cells := c\<rparr>)"
proof -
  have "rm_cells m a = None \<longleftrightarrow> c a = None" for a
    using keeps_dom [OF assms(2)] by (metis domIff)
  then show ?thesis using assms unfolding owns_def unused_def by (auto simp: keeps_def)
qed

text \<open>What \<open>attach\<close> does to the memory: a node and a buffer appear at the first two unused addresses, and the node is the
  last of its list.\<close>

lemma attach_run:
  assumes un: "unused m" and d: "dlist (rm_cells m) l xs"
  shows "\<exists>c. attach data len l m = Some (m\<lparr>rm_cells := c,
      rm_nodes := (rm_nodes m)(rm_brk m \<mapsto> \<lparr>rn_ptr = Suc (rm_brk m), rn_size = len\<rparr>),
      rm_bufs := (rm_bufs m)(Suc (rm_brk m) \<mapsto> data), rm_brk := Suc (Suc (rm_brk m))\<rparr>) \<and>
    dlist c l (xs @ [rm_brk m]) \<and> dom c = insert (rm_brk m) (dom (rm_cells m)) \<and>
    (\<forall>a. a \<notin> set (l # xs) \<longrightarrow> a \<noteq> rm_brk m \<longrightarrow> c a = rm_cells m a) \<and>
    (\<forall>k zs. dlist (rm_cells m) k zs \<longrightarrow> set (k # zs) \<inter> set (l # xs) = {} \<longrightarrow> dlist c k zs)"
proof -
  define p where "p = rm_brk m"
  define c where "c = (rm_cells m)(p \<mapsto> \<lparr>nxt = 0, prv = 0\<rparr>)"
  have new: "p \<notin> set (k # zs)" "dlist c k zs" if k: "dlist (rm_cells m) k zs" for k zs
  proof -
    show p: "p \<notin> set (k # zs)" using dlist_dom [OF k] un by (auto simp: unused_def p_def)
    show "dlist c k zs" unfolding c_def by (rule dlist_upd [OF k p])
  qed
  obtain c' where c': "list_add_between p (last (l # xs)) l c = Some c'" "dlist c' l (xs @ [p])"
    "keeps (set (l # xs) \<union> {p}) c c'"
    using add_between_dlist [of c l xs "[]" p] new [OF d] by (auto simp: c_def)
  have "list_add_tail p l c = Some c'" using c'(1) dlist_head(2) [OF new(2) [OF d]] by (simp add: list_add_tail_def)
  then have "attach data len l m = Some (m\<lparr>rm_cells := c', rm_nodes := (rm_nodes m)(p \<mapsto> \<lparr>rn_ptr = Suc p, rn_size = len\<rparr>),
      rm_bufs := (rm_bufs m)(Suc p \<mapsto> data), rm_brk := Suc (Suc p)\<rparr>)"
    by (simp add: attach_def new_rnode_def new_rbuf_def Let_def p_def [symmetric] c_def [symmetric])
  moreover have "dom c' = insert p (dom (rm_cells m))" using keeps_dom [OF c'(3)] by (simp add: c_def)
  moreover have "\<forall>a. a \<notin> set (l # xs) \<longrightarrow> a \<noteq> p \<longrightarrow> c' a = rm_cells m a" using c'(3) by (auto simp: keeps_def c_def)
  moreover have "dlist c' k zs" if "dlist (rm_cells m) k zs" "set (k # zs) \<inter> set (l # xs) = {}" for k zs
    by (rule dlist_keeps [OF new(2) [OF that(1)] c'(3)]) (use new(1) [OF that(1)] that(2) in auto)
  ultimately show ?thesis using c'(2) unfolding p_def by blast
qed

lemma attach_owns:
  assumes own: "owns H m0 ts m" and d: "dlist (rm_cells m) l xs" and H: "l \<in> H" "set xs \<subseteq> node_at ` set ts"
  shows "\<exists>m' p q. attach data len l m = Some m' \<and> owns H m0 (ts @ [(p, q, \<lparr>rn_data = data, rn_len = len\<rparr>)]) m' \<and>
    dlist (rm_cells m') l (xs @ [p]) \<and>
    (\<forall>k zs. dlist (rm_cells m) k zs \<longrightarrow> set (k # zs) \<inter> set (l # xs) = {} \<longrightarrow> dlist (rm_cells m') k zs)"
proof -
  define p where "p = rm_brk m"
  have un: "unused m" using own by (simp add: owns_def)
  obtain c where c: "dlist c l (xs @ [p])" "dom c = insert p (dom (rm_cells m))"
    "\<forall>a. a \<notin> set (l # xs) \<longrightarrow> a \<noteq> p \<longrightarrow> c a = rm_cells m a"
    "\<forall>k zs. dlist (rm_cells m) k zs \<longrightarrow> set (k # zs) \<inter> set (l # xs) = {} \<longrightarrow> dlist c k zs"
    "attach data len l m = Some (m\<lparr>rm_cells := c, rm_nodes := (rm_nodes m)(p \<mapsto> \<lparr>rn_ptr = Suc p, rn_size = len\<rparr>),
      rm_bufs := (rm_bufs m)(Suc p \<mapsto> data), rm_brk := Suc (Suc p)\<rparr>)"
    using attach_run [OF un d] unfolding p_def by blast
  let ?m = "m\<lparr>rm_cells := c, rm_nodes := (rm_nodes m)(p \<mapsto> \<lparr>rn_ptr = Suc p, rn_size = len\<rparr>),
    rm_bufs := (rm_bufs m)(Suc p \<mapsto> data), rm_brk := Suc (Suc p)\<rparr>"
  let ?t = "(p, Suc p, \<lparr>rn_data = data, rn_len = len\<rparr>)"
  have "owns H m0 (ts @ [?t]) ?m"
    unfolding owns_def
  proof (intro conjI)
    have "c a = None" if "p < a" for a using c(2) un that by (metis domIff insertE less_irrefl less_imp_le p_def unused_def)
    then show "unused ?m" using un by (simp add: unused_def p_def)
    have lt: "node_at t < p" "buf_at t < p" if "t \<in> set ts" for t using own that by (auto simp: owns_def p_def)
    have "p \<notin> node_at ` set ts" "Suc p \<notin> (\<lambda>t. buf_at t) ` set ts" using lt by fastforce+
    then show "distinct (map node_at (ts @ [?t]))" "distinct (map buf_at (ts @ [?t]))" using own by (auto simp: owns_def)
    show "rm_brk m0 \<le> rm_brk ?m" using own by (simp add: owns_def p_def)
    show "\<forall>t\<in>set (ts @ [?t]). rm_brk m0 \<le> node_at t \<and> node_at t < rm_brk ?m \<and> rm_brk m0 \<le> buf_at t \<and> buf_at t < rm_brk ?m \<and>
       rm_nodes ?m (node_at t) = Some \<lparr>rn_ptr = buf_at t, rn_size = rn_len (node_val t)\<rparr> \<and>
       rm_bufs ?m (buf_at t) = Some (rn_data (node_val t))"
    proof
      fix t assume "t \<in> set (ts @ [?t])"
      then consider "t \<in> set ts" | "t = ?t" by auto
      then show "rm_brk m0 \<le> node_at t \<and> node_at t < rm_brk ?m \<and> rm_brk m0 \<le> buf_at t \<and> buf_at t < rm_brk ?m \<and>
         rm_nodes ?m (node_at t) = Some \<lparr>rn_ptr = buf_at t, rn_size = rn_len (node_val t)\<rparr> \<and>
         rm_bufs ?m (buf_at t) = Some (rn_data (node_val t))"
      proof cases
        case 1
        then show ?thesis using own lt [OF 1] by (auto simp: owns_def p_def)
      next
        case 2
        then show ?thesis using own by (simp add: owns_def p_def)
      qed
    qed
    show "\<forall>a. a \<notin> node_at ` set (ts @ [?t]) \<longrightarrow> rm_nodes ?m a = rm_nodes m0 a"
      "\<forall>a. a \<notin> buf_at ` set (ts @ [?t]) \<longrightarrow> rm_bufs ?m a = rm_bufs m0 a"
      using own by (auto simp: owns_def)
    show "\<forall>a. a \<notin> H \<union> node_at ` set (ts @ [?t]) \<longrightarrow> rm_cells ?m a = rm_cells m0 a"
      using own H c(3) by (auto simp: owns_def)
  qed
  then show ?thesis using c(1,4,5) by (intro exI [of _ ?m] exI [of _ p] exI [of _ "Suc p"]) simp
qed

text \<open>The nodes \<open>ns\<close> are on the list at \<open>l\<close>, and \<open>k\<close> is an empty list.\<close>

definition built :: "addr \<Rightarrow> addr \<Rightarrow> rmem \<Rightarrow> response_node list \<Rightarrow> rmem \<Rightarrow> bool" where
  "built l k m0 ns m \<longleftrightarrow> k \<noteq> l \<and> k < rm_brk m0 \<and> l < rm_brk m0 \<and> dlist (rm_cells m) k [] \<and>
     (\<exists>ts. owns {l, k} m0 ts m \<and> dlist (rm_cells m) l (map node_at ts) \<and> map (\<lambda>t. node_val t) ts = ns)"

lemma builtE:
  assumes "built l k m0 ns m"
  obtains ts where "owns {l, k} m0 ts m" "dlist (rm_cells m) l (map node_at ts)" "map (\<lambda>t. node_val t) ts = ns"
    "k \<notin> set (l # map node_at ts)" "dlist (rm_cells m) k []"
proof -
  from assms obtain ts where ts: "owns {l, k} m0 ts m" "dlist (rm_cells m) l (map node_at ts)" "map (\<lambda>t. node_val t) ts = ns"
    and k: "k \<noteq> l" "k < rm_brk m0" "dlist (rm_cells m) k []" by (auto simp: built_def)
  have "rm_brk m0 \<le> node_at t" if "t \<in> set ts" for t using ts(1) that by (simp add: owns_def)
  then have "k \<notin> node_at ` set ts" using k(2) by force
  then show ?thesis using that [OF ts] k by simp
qed

lemma built_attach:
  assumes b: "built l k m0 ns m"
  shows "\<exists>m'. attach data len l m = Some m' \<and> built l k m0 (ns @ [\<lparr>rn_data = data, rn_len = len\<rparr>]) m'"
proof -
  obtain ts where ts: "owns {l, k} m0 ts m" "dlist (rm_cells m) l (map node_at ts)" "map (\<lambda>t. node_val t) ts = ns"
    "k \<notin> set (l # map node_at ts)" "dlist (rm_cells m) k []" using builtE [OF b] .
  have dj: "set (k # []) \<inter> set (l # map node_at ts) = {}" using ts(4) by simp
  obtain m' p q where m': "attach data len l m = Some m'"
    "owns {l, k} m0 (ts @ [(p, q, \<lparr>rn_data = data, rn_len = len\<rparr>)]) m'" "dlist (rm_cells m') l (map node_at ts @ [p])"
    "\<forall>k zs. dlist (rm_cells m) k zs \<longrightarrow> set (k # zs) \<inter> set (l # map node_at ts) = {} \<longrightarrow> dlist (rm_cells m') k zs"
    using attach_owns [OF ts(1,2), of data len] by auto
  have "dlist (rm_cells m') k []" using m'(4) ts(5) dj by blast
  moreover have "k \<noteq> l \<and> k < rm_brk m0 \<and> l < rm_brk m0" using b by (simp add: built_def)
  moreover have "dlist (rm_cells m') l (map node_at (ts @ [(p, q, \<lparr>rn_data = data, rn_len = len\<rparr>)]))" using m'(3) by simp
  moreover have "map (\<lambda>t. node_val t) (ts @ [(p, q, \<lparr>rn_data = data, rn_len = len\<rparr>)]) = ns @ [\<lparr>rn_data = data, rn_len = len\<rparr>]"
    using ts(3) by simp
  ultimately show ?thesis using m'(1,2) unfolding built_def by blast
qed

lemma built_drop_separator:
  assumes b: "built l k m0 ns m"
  shows "\<exists>m'. drop_separator_cells l m = Some m' \<and> built l k m0 (drop_separator ns) m'"
proof -
  obtain ts where ts: "owns {l, k} m0 ts m" "dlist (rm_cells m) l (map node_at ts)" "map (\<lambda>t. node_val t) ts = ns"
    using builtE [OF b] .
  note ends = dlist_head [OF ts(2)] dlist_distinct [OF ts(2)]
  show ?thesis
  proof (cases "2 \<le> length ns")
    case False
    then have "last (l # map node_at ts) = hd (map node_at ts @ [l])" using ts(3)
      by (cases ts rule: rev_cases) (auto simp: hd_append Suc_le_eq)
    then have "drop_separator_cells l m = Some m" using ends by (simp add: drop_separator_cells_def)
    then show ?thesis using b False by (simp add: drop_separator_def)
  next
    case True
    then have "ts \<noteq> []" using ts(3) by auto
    then obtain us p q n where us: "ts = us @ [(p, q, n)]" by (cases ts rule: rev_cases) auto
    have len: "us \<noteq> []" using True ts(3) us by auto
    let ?m = "m\<lparr>rm_nodes := (rm_nodes m)(p \<mapsto> \<lparr>rn_ptr = q, rn_size = rn_len n - 1\<rparr>)\<rparr>"
    let ?t = "(p, q, n\<lparr>rn_len := rn_len n - 1\<rparr>)"
    have np: "rm_nodes m p = Some \<lparr>rn_ptr = q, rn_size = rn_len n\<rparr>" "p < rm_brk m" using ts(1) us by (auto simp: owns_def)
    have "hd (map node_at us) \<in> set (map node_at us)" using len by (intro hd_in_set) simp
    then have "p \<noteq> hd (map node_at ts @ [l])" using ends(3) us len by auto
    then have run: "drop_separator_cells l m = Some ?m" using ends us np by (simp add: drop_separator_cells_def)
    have d: "p \<notin> node_at ` set us" using ends(3) us by auto
    have "owns {l, k} m0 (us @ [?t]) ?m"
      using ts(1) d np(2) unfolding us owns_def unused_def by (auto simp: image_iff)
    moreover have "dlist (rm_cells ?m) l (map node_at (us @ [?t]))" using ts(2) us by simp
    moreover have "map (\<lambda>t. node_val t) (us @ [?t]) = drop_separator ns"
      using True ts(3) us len by (auto simp: drop_separator_def)
    moreover have "k \<noteq> l \<and> k < rm_brk m0 \<and> l < rm_brk m0 \<and> dlist (rm_cells ?m) k []" using b by (simp add: built_def)
    ultimately show ?thesis using run unfolding built_def by blast
  qed
qed

section \<open>Building simulates the lists of nodes\<close>

lemma built_foreach:
  "built l k m0 (ml_list ml) m \<Longrightarrow> spec_foreach (make_list ntop) ds (Some ml) = Some ml' \<Longrightarrow>
   \<exists>ca m'. spec_foreach (make_list_cells ntop) ds
       (Some (\<lparr>ca_list = l, ca_ignore = ml_ignore ml, ca_i = ml_i ml, ca_n = ml_n ml\<rparr>, m)) = Some (ca, m') \<and>
     built l k m0 (ml_list ml') m'"
proof (induction ds arbitrary: ml m)
  case (Cons d ds)
  let ?ca = "\<lambda>ml. \<lparr>ca_list = l, ca_ignore = ml_ignore ml, ca_i = ml_i ml, ca_n = ml_n ml\<rparr>"
  have none: "spec_foreach (make_list ntop) ds None = None" for ds by (cases ds) (simp_all add: make_list_def)
  consider "ml_i ml \<ge> ml_n ml" | "ml_i ml < ml_n ml" "ignored (ml_ignore ml) d" |
    "ml_i ml < ml_n ml" "\<not> ignored (ml_ignore ml) d" by linarith
  then show ?case
  proof cases
    case 1
    then show ?thesis using Cons.prems by (simp add: make_list_def make_list_cells_def)
  next
    case 2
    then have "make_list ntop d (Some ml) = (False, Some ml)" "make_list_cells ntop d (Some (?ca ml, m)) = (False, Some (?ca ml, m))"
      by (auto simp: make_list_def make_list_cells_def ignored_def split: option.splits)
    then show ?thesis using Cons by simp
  next
    case 3
    define new where "new = do {
      addr \<leftarrow> ntop_buf ntop (ss_family d) (get_in_addr d) INET6_ADDRSTRLEN;
      c_sprintf (25 + INET6_ADDRSTRLEN + PORT_STRLEN + 1) (node_fmt addr (ntohs (get_in_port d)) (ss_family d)) }"
    have step: "make_list ntop d (Some ml) = (False, do {
        (len, data) \<leftarrow> new;
        Some (ml\<lparr>ml_i := ml_i ml + 1, ml_list := ml_list ml @ [\<lparr>rn_data = data, rn_len = len\<rparr>]\<rparr>) })"
      using 3 by (auto simp: make_list_def ignored_def new_def Let_def bind_assoc split: option.splits)
    then obtain len data where new: "new = Some (len, data)"
      using Cons.prems(2) none by (cases new) (auto split: prod.splits)
    let ?ml = "ml\<lparr>ml_i := ml_i ml + 1, ml_list := ml_list ml @ [\<lparr>rn_data = data, rn_len = len\<rparr>]\<rparr>"
    obtain m1 where m1: "attach data len l m = Some m1" "built l k m0 (ml_list ml @ [\<lparr>rn_data = data, rn_len = len\<rparr>]) m1"
      using built_attach [OF Cons.prems(1)] by blast
    have "make_list_cells ntop d (Some (?ca ml, m)) = (False, do {
        (len, data) \<leftarrow> new;
        m \<leftarrow> attach data len l m;
        Some ((?ca ml)\<lparr>ca_i := ml_i ml + 1\<rparr>, m) })"
      using 3 by (auto simp: make_list_cells_def ignored_def new_def Let_def bind_assoc split: option.splits)
    then have c: "make_list_cells ntop d (Some (?ca ml, m)) = (False, Some (?ca ?ml, m1))" using new m1(1) by simp
    have "spec_foreach (make_list ntop) ds (Some ?ml) = Some ml'" using Cons.prems(2) step new by simp
    from Cons.IH [OF _ this, of m1] m1(2) show ?thesis by (simp add: c)
  qed
qed simp

lemma clients_to_json_built:
  assumes rep: "client_rep T es" and b: "built l k m0 [] m" and run: "clients_to_json ntop [] ign n T = Some (rc, body)"
  shows "\<exists>m'. clients_to_json_cells ntop l ign n T m = Some (rc, m') \<and> built l k m0 body m'"
proof -
  obtain v e c where c: "c_strtol n = Some (v, e)" "rd e 0 = Some c"
    using run by (auto simp: clients_to_json_def Let_def bind_eq_Some_iff)
  show ?thesis
  proof (cases "int_of_long v < 0 \<or> c \<noteq> NUL")
    case True
    then show ?thesis using run b c by (auto simp: clients_to_json_def clients_to_json_cells_def)
  next
    case False
    let ?ml = "\<lparr>ml_list = [node_of ''[''], ml_ignore = ign, ml_i = 0, ml_n = int_of_long v\<rparr>"
    obtain ml' where ml: "spec_foreach (make_list ntop) (map fst es) (Some ?ml) = Some ml'"
      "rc = CL_OK" "body = drop_separator (ml_list ml') @ [node_of ('']'' @ DELIM)]"
      using run c False by (auto simp: clients_to_json_def client.delta_foreach_rep [OF rep] bind_eq_Some_iff)
    have o: "node_of ''['' = \<lparr>rn_data = ''['' @ [NUL], rn_len = 1\<rparr>"
      "node_of ('']'' @ DELIM) = \<lparr>rn_data = '']'' @ DELIM @ [NUL], rn_len = 5\<rparr>"
      by (simp_all add: node_of_def DELIM_def)
    obtain m1 where m1: "attach (''['' @ [NUL]) 1 l m = Some m1" "built l k m0 (ml_list ?ml) m1"
      using built_attach [OF b, of "''['' @ [NUL]" 1] by (auto simp: o)
    obtain ca m2 where m2: "spec_foreach (make_list_cells ntop) (map fst es)
        (Some (\<lparr>ca_list = l, ca_ignore = ign, ca_i = 0, ca_n = int_of_long v\<rparr>, m1)) = Some (ca, m2)"
      "built l k m0 (ml_list ml') m2" using built_foreach [OF m1(2) ml(1)] by auto
    obtain m3 where m3: "drop_separator_cells l m2 = Some m3" "built l k m0 (drop_separator (ml_list ml')) m3"
      using built_drop_separator [OF m2(2)] by blast
    obtain m4 where m4: "attach ('']'' @ DELIM @ [NUL]) 5 l m3 = Some m4" "built l k m0 body m4"
      using built_attach [OF m3(2)] unfolding ml(3) o by blast
    show ?thesis using c False m1(1) m2(1) m3(1) m4 ml(2)
      by (simp add: clients_to_json_cells_def client.delta_foreach_rep [OF rep])
  qed
qed

lemma router_nodes_built:
  "built l k m0 ns m \<Longrightarrow> router_nodes ntop routers addr = Some nodes \<Longrightarrow>
   \<exists>m'. router_nodes_cells ntop routers addr l m = Some m' \<and> built l k m0 (ns @ nodes) m'"
proof (induction routers arbitrary: addr ns nodes m)
  case (Cons r routers)
  define a where "a = (case ntop_buf ntop (ss_family r) (get_in_addr r) INET6_ADDRSTRLEN of Some s \<Rightarrow> Some s | None \<Rightarrow> addr)"
  obtain s where s: "a = Some s" using Cons.prems(2) by (cases a) (auto simp: a_def)
  obtain len data where n: "c_snprintf (26 + INET6_ADDRSTRLEN + PORT_STRLEN)
      (node_fmt s (ntohs (get_in_port r)) (ss_family r)) = (len, data)" by fastforce
  obtain rest where rest: "router_nodes ntop routers a = Some rest" "nodes = \<lparr>rn_data = data, rn_len = len\<rparr> # rest"
    using Cons.prems(2) s n by (auto simp: Let_def a_def [symmetric] bind_eq_Some_iff)
  obtain m1 where m1: "attach data len l m = Some m1" "built l k m0 (ns @ [\<lparr>rn_data = data, rn_len = len\<rparr>]) m1"
    using built_attach [OF Cons.prems(1)] by blast
  from Cons.IH [OF m1(2) rest(1)] show ?case using s n rest(2) m1(1) by (simp add: Let_def a_def [symmetric])
qed simp

lemma routers_to_json_built:
  assumes b: "built l k m0 [] m" and run: "routers_to_json ntop [] n routers = Some body"
  shows "\<exists>m'. routers_to_json_cells ntop l n routers m = Some m' \<and> built l k m0 body m'"
proof -
  obtain nodes where n: "router_nodes ntop routers None = Some nodes"
    "body = drop_separator (node_of ''['' # nodes) @ [node_of ('']'' @ DELIM)]"
    using run by (auto simp: routers_to_json_def bind_eq_Some_iff)
  have o: "node_of ''['' = \<lparr>rn_data = ''['' @ [NUL], rn_len = 1\<rparr>"
    "node_of ('']'' @ DELIM) = \<lparr>rn_data = '']'' @ DELIM @ [NUL], rn_len = 5\<rparr>"
    by (simp_all add: node_of_def DELIM_def)
  obtain m1 where m1: "attach (''['' @ [NUL]) 1 l m = Some m1" "built l k m0 [node_of ''[''] m1"
    using built_attach [OF b, of "''['' @ [NUL]" 1] by (auto simp: o)
  obtain m2 where m2: "router_nodes_cells ntop routers None l m1 = Some m2" "built l k m0 (node_of ''['' # nodes) m2"
    using router_nodes_built [OF m1(2) n(1)] by auto
  obtain m3 where m3: "drop_separator_cells l m2 = Some m3" "built l k m0 (drop_separator (node_of ''['' # nodes)) m3"
    using built_drop_separator [OF m2(2)] by blast
  obtain m4 where "attach ('']'' @ DELIM @ [NUL]) 5 l m3 = Some m4" "built l k m0 body m4"
    using built_attach [OF m3(2)] unfolding n(2) o by blast
  then show ?thesis using m1(1) m2(1) m3(1) by (simp add: routers_to_json_cells_def)
qed

section \<open>Header, sending and releasing\<close>

lemma size_loop:
  assumes "owns H m0 ts m" "set us \<subseteq> set ts"
  shows "foldM (\<lambda>it len. do { r \<leftarrow> rm_nodes m it; Some (len + rn_size r) }) (map node_at us) len =
    Some (len + sum_list (map rn_len (map (\<lambda>t. node_val t) us)))"
  using assms(2)
proof (induction us arbitrary: len)
  case (Cons t us)
  then have "rm_nodes m (node_at t) = Some \<lparr>rn_ptr = buf_at t, rn_size = rn_len (node_val t)\<rparr>"
    using assms(1) by (simp add: owns_def)
  then show ?case using Cons by (simp add: add.assoc)
qed simp

text \<open>The whole response at \<open>h\<close>; \<open>j\<close> is the other local list.\<close>

definition ready :: "addr \<Rightarrow> addr \<Rightarrow> rmem \<Rightarrow> response_node list \<Rightarrow> rmem \<Rightarrow> bool" where
  "ready h j m0 ns m \<longleftrightarrow>
     (\<exists>ts. owns {h, j} m0 ts m \<and> dlist (rm_cells m) h (map node_at ts) \<and> map (\<lambda>t. node_val t) ts = ns)"

lemma make_response_ready:
  assumes b: "built j h m0 body m"
  shows "\<exists>m'. make_response_cells h j m = Some m' \<and> ready h j m0 (make_response_with_body [] body) m'"
proof -
  obtain ts where ts: "owns {j, h} m0 ts m" "dlist (rm_cells m) j (map node_at ts)" "map (\<lambda>t. node_val t) ts = body"
    "h \<notin> set (j # map node_at ts)" "dlist (rm_cells m) h []" using builtE [OF b] .
  let ?len = "sum_list (map rn_len body)"
  obtain hlen data where hd: \<open>c_snprintf 100 (''{"status":"okay","size":'' @ dec ?len @ ''}'' @ DELIM) = (hlen, data)\<close> by fastforce
  have len: "list_for_each (\<lambda>it len. do { r \<leftarrow> rm_nodes m it; Some (len + rn_size r) }) j (rm_cells m) 0 = Some ?len"
    using size_loop [OF ts(1) subset_refl, of 0] ts(3) by (simp add: for_each_fold [OF ts(2)])
  obtain m1 p q where m1: "attach data hlen h m = Some m1"
    "owns {j, h} m0 (ts @ [(p, q, \<lparr>rn_data = data, rn_len = hlen\<rparr>)]) m1" "dlist (rm_cells m1) h ([] @ [p])"
    "\<forall>k zs. dlist (rm_cells m) k zs \<longrightarrow> set (k # zs) \<inter> set (h # []) = {} \<longrightarrow> dlist (rm_cells m1) k zs"
    using attach_owns [OF ts(1,5), of data hlen] by auto
  let ?ts = "(p, q, \<lparr>rn_data = data, rn_len = hlen\<rparr>) # ts"
  have own: "owns {h, j} m0 ?ts m1" using m1(2) owns_rotate by (metis insert_commute)
  have dj: "set (j # map node_at ts) \<inter> set (h # []) = {}" using ts(4) by auto
  have dz: "dlist (rm_cells m1) j (map node_at ts)" using m1(4) ts(2) dj by blast
  have h1: "dlist (rm_cells m1) h ([p] @ [])" using m1(3) by simp
  have vals: "map (\<lambda>t. node_val t) ?ts = make_response_with_body [] body"
    using hd ts(3) by (simp add: make_response_with_body_def)
  obtain c where c: "list_splice_tail j h (rm_cells m1) = Some c" "dlist c h (map node_at ?ts)"
    "keeps ({h, j} \<union> node_at ` set ?ts) (rm_cells m1) c"
  proof (cases "ts = []")
    case True
    then have "list_splice_tail j h (rm_cells m1) = Some (rm_cells m1)"
      using list_tests(1) [OF dz] by (simp add: list_splice_tail_def)
    then show ?thesis using that [of "rm_cells m1"] h1 True by simp
  next
    case False
    have "p \<notin> node_at ` set ts" using own by (simp add: owns_def)
    moreover have "rm_brk m0 \<le> p" "j < rm_brk m0" using own b by (simp_all add: owns_def built_def)
    ultimately have "set (h # [p] @ []) \<inter> set (j # map node_at ts) = {}" using ts(4) by auto
    then obtain c where c: "list_splice_between j p h (rm_cells m1) = Some c" "dlist c h ([p] @ map node_at ts @ [])"
      "keeps (set (h # [p] @ []) \<union> set (map node_at ts)) (rm_cells m1) c"
      using splice_between_dlist [OF h1 dz] False by auto
    have "list_splice_tail j h (rm_cells m1) = Some c"
      using c(1) list_tests(1) [OF dz] dlist_head(2) [OF h1] False by (simp add: list_splice_tail_def)
    moreover have "keeps ({h, j} \<union> node_at ` set ?ts) (rm_cells m1) c" by (rule keeps_mono [OF c(3)]) auto
    ultimately show ?thesis using that [of c] c(2) by simp
  qed
  have "make_response_cells h j m = Some (m1\<lparr>rm_cells := c\<rparr>)"
    using len hd m1(1) c(1) by (simp add: make_response_cells_def)
  moreover have "ready h j m0 (make_response_with_body [] body) (m1\<lparr>rm_cells := c\<rparr>)"
    using owns_cells [OF own c(3)] c(2) vals unfolding ready_def by force
  ultimately show ?thesis by blast
qed

lemma send_from_list:
  "owns H m0 ts m \<Longrightarrow> dlist (rm_cells m) l (map node_at (us @ vs)) \<Longrightarrow> set vs \<subseteq> set ts \<Longrightarrow>
   send_from m l (hd (map node_at vs @ [l])) w = psnet_send_response (map (\<lambda>t. node_val t) vs) w"
proof (induction vs arbitrary: us w)
  case Nil
  then show ?case by (subst send_from.simps) simp
next
  case (Cons v vs)
  have v: "rm_nodes m (node_at v) = Some \<lparr>rn_ptr = buf_at v, rn_size = rn_len (node_val v)\<rparr>"
    "rm_bufs m (buf_at v) = Some (rn_data (node_val v))" using Cons.prems(1,3) by (auto simp: owns_def)
  have d: "dlist (rm_cells m) l (map node_at us @ node_at v # map node_at vs)" using Cons.prems(2) by simp
  have "node_at v \<noteq> l" using dlist_distinct [OF d] by auto
  moreover have "ld_next (node_at v) (rm_cells m) = Some (hd (map node_at vs @ [l]))" by (rule dlist_at(1) [OF d])
  moreover have "send_from m l (hd (map node_at vs @ [l])) w = psnet_send_response (map (\<lambda>t. node_val t) vs) w" for w
    using Cons.IH [of "us @ [v]"] Cons.prems by simp
  ultimately show ?case using v by (subst send_from.simps) (simp cong: if_cong)
qed

lemma free_from_list:
  assumes "distinct (l # map node_at ts)" "distinct (map buf_at ts)" "successively (\<lambda>a b. ld_next a (rm_cells m) = Some b) (map node_at ts @ [l])"
    "\<forall>t\<in>set ts. (\<exists>n. rm_nodes m (node_at t) = Some \<lparr>rn_ptr = buf_at t, rn_size = n\<rparr>) \<and> buf_at t \<in> dom (rm_bufs m)"
  shows "free_from l (hd (map node_at ts @ [l])) m = Some (m\<lparr>rm_cells := rm_cells m |` (- node_at ` set ts),
    rm_nodes := rm_nodes m |` (- node_at ` set ts), rm_bufs := rm_bufs m |` (- (\<lambda>t. buf_at t) ` set ts)\<rparr>)"
  using assms
proof (induction ts arbitrary: m)
  case Nil
  then show ?case by (subst free_from.simps) (simp add: restrict_map_def)
next
  case (Cons t ts)
  let ?p = "node_at t" and ?q = "buf_at t"
  let ?m = "m\<lparr>rm_bufs := (rm_bufs m)(?q := None), rm_cells := (rm_cells m)(?p := None), rm_nodes := (rm_nodes m)(?p := None)\<rparr>"
  let ?n = "hd (map node_at ts @ [l])"
  have n: "ld_next ?p (rm_cells m) = Some ?n" using Cons.prems(3) by (cases ts) auto
  obtain k where k: "rm_nodes m ?p = Some \<lparr>rn_ptr = ?q, rn_size = k\<rparr>" "?q \<in> dom (rm_bufs m)" using Cons.prems(4) by auto
  have c: "successively (\<lambda>a b. ld_next a (rm_cells m) = Some b) (map node_at ts @ [l])"
    using Cons.prems(3) by (cases ts) auto
  have pn: "?p \<notin> set (map node_at ts @ [l])" using Cons.prems(1) by auto
  have c': "successively (\<lambda>a b. ld_next a (rm_cells ?m) = Some b) (map node_at ts @ [l])"
  proof (rule successively_weaken [OF c])
    fix a b assume a: "a \<in> set (butlast (map node_at ts @ [l]))" and n: "ld_next a (rm_cells m) = Some b"
    have "a \<noteq> ?p" using in_set_butlastD [OF a] pn by blast
    then show "ld_next a (rm_cells ?m) = Some b" using n by (simp add: ld_next_def)
  qed
  have q: "?q \<notin> (\<lambda>t. buf_at t) ` set ts" using Cons.prems(2) by auto
  with pn have b': "\<forall>t\<in>set ts. (\<exists>n. rm_nodes ?m (node_at t) = Some \<lparr>rn_ptr = buf_at t, rn_size = n\<rparr>) \<and> buf_at t \<in> dom (rm_bufs ?m)"
    using Cons.prems(4) pn by (auto simp: image_iff)
  have d': "distinct (l # map node_at ts)" "distinct (map buf_at ts)" using Cons.prems(1,2) by auto
  have "free_from l ?n ?m = Some (?m\<lparr>rm_cells := rm_cells ?m |` (- node_at ` set ts),
    rm_nodes := rm_nodes ?m |` (- node_at ` set ts), rm_bufs := rm_bufs ?m |` (- (\<lambda>t. buf_at t) ` set ts)\<rparr>)"
    by (rule Cons.IH [OF d' c' b'])
  moreover have "free_from l ?p m = free_from l ?n ?m" using pn n k
    by (subst free_from.simps) (auto simp: free_rbuf_def free_rnode_def domIff)
  ultimately show ?case using pn q by (simp add: Compl_insert)
qed

lemma ready_sent:
  assumes "ready h j m0 ns m"
  shows "send_response_cells h m w = psnet_send_response ns w"
proof -
  obtain ts where ts: "owns {h, j} m0 ts m" "dlist (rm_cells m) h (map node_at ([] @ ts))" "map (\<lambda>t. node_val t) ts = ns"
    using assms by (auto simp: ready_def)
  then show ?thesis using send_from_list [OF ts(1,2) subset_refl] dlist_head(1) [OF ts(2)]
    by (simp add: send_response_cells_def)
qed

text \<open>After \<open>free_response\<close> the memory is what it was, apart from the two cells on the stack.\<close>

definition restored :: "addr set \<Rightarrow> rmem \<Rightarrow> rmem \<Rightarrow> bool" where
  "restored H m0 m \<longleftrightarrow> rm_nodes m = rm_nodes m0 \<and> rm_bufs m = rm_bufs m0 \<and> (\<forall>a. a \<notin> H \<longrightarrow> rm_cells m a = rm_cells m0 a)"

lemma ready_freed:
  assumes r: "ready h j m0 ns m" and un: "unused m0"
  shows "\<exists>m'. free_response h m = Some m' \<and> restored {h, j} m0 m'"
proof -
  obtain ts where ts: "owns {h, j} m0 ts m" "dlist (rm_cells m) h (map node_at ts)" using r by (auto simp: ready_def)
  let ?m = "m\<lparr>rm_cells := rm_cells m |` (- node_at ` set ts), rm_nodes := rm_nodes m |` (- node_at ` set ts),
    rm_bufs := rm_bufs m |` (- (\<lambda>t. buf_at t) ` set ts)\<rparr>"
  have "successively (link (rm_cells m)) (map node_at ts @ [h])" using ts(2) by (cases ts) (auto simp: dlist_def)
  then have "successively (\<lambda>a b. ld_next a (rm_cells m) = Some b) (map node_at ts @ [h])"
    by (rule successively_weaken) (simp add: link_def)
  then have "free_from h (hd (map node_at ts @ [h])) m = Some ?m"
    using ts(1) dlist_distinct [OF ts(2)] by (intro free_from_list) (auto simp: owns_def)
  then have run: "free_response h m = Some ?m" using dlist_head(1) [OF ts(2)] by (simp add: free_response_def)
  have z: "rm_cells m0 (node_at t) = None \<and> rm_nodes m0 (node_at t) = None \<and> rm_bufs m0 (buf_at t) = None" if "t \<in> set ts" for t
    using ts(1) un that by (auto simp: owns_def unused_def)
  have "rm_nodes ?m = rm_nodes m0"
  proof
    show "rm_nodes ?m a = rm_nodes m0 a" for a
      using ts(1) z by (cases "a \<in> node_at ` set ts") (auto simp: owns_def)
  qed
  moreover have "rm_bufs ?m = rm_bufs m0"
  proof
    show "rm_bufs ?m a = rm_bufs m0 a" for a
      using ts(1) z by (cases "a \<in> (\<lambda>t. buf_at t) ` set ts") (auto simp: owns_def)
  qed
  moreover have "rm_cells ?m a = rm_cells m0 a" if "a \<notin> {h, j}" for a
    using ts(1) z that by (cases "a \<in> node_at ` set ts") (auto simp: owns_def)
  ultimately show ?thesis using run by (auto simp: restored_def)
qed

lemma local_lists_built:
  assumes "h \<noteq> j" "h \<in> dom (rm_cells m0)" "j \<in> dom (rm_cells m0)" "unused m0"
  shows "\<exists>m. local_lists h j m0 = Some m \<and> built j h m0 [] m"
proof -
  have lt: "a < rm_brk m0" if "a \<in> dom (rm_cells m0)" for a
    using assms(4) that by (metis domIff linorder_not_le unused_def)
  define c where "c = up_prev j j (up_next j j (up_prev h h (up_next h h (rm_cells m0))))"
  have run: "local_lists h j m0 = Some (m0\<lparr>rm_cells := c\<rparr>)"
    using assms(2,3) by (simp add: local_lists_def INIT_LIST_HEAD_def heap_simps c_def)
  have k: "keeps ({j, h} \<union> node_at ` set []) (rm_cells m0) c" by (simp add: c_def keeps_up)
  have "owns {j, h} m0 [] m0" using assms(4) by (simp add: owns_def)
  then have "owns {j, h} m0 [] (m0\<lparr>rm_cells := c\<rparr>)" by (rule owns_cells [OF _ k])
  moreover have "dlist c j [] \<and> dlist c h []"
    using assms(1-3) by (simp add: dlist_def link_def c_def heap_simps)
  ultimately have "built j h m0 [] (m0\<lparr>rm_cells := c\<rparr>)"
    using assms(1-3) lt unfolding built_def by (intro conjI exI [of _ "[]"]) auto
  then show ?thesis using run by blast
qed

lemma built_nil_restored: "built l k m0 [] m \<Longrightarrow> restored {k, l} m0 m"
  by (auto simp: built_def owns_def restored_def)

lemma body_answered:
  assumes b: "built j h m0 body m" and un: "unused m0" and w: "psnet_send_response (make_response_with_body [] body) w = Some (rv, w')"
  shows "\<exists>m'. send_body_cells h j m w = Some (m', w') \<and> restored {h, j} m0 m'"
proof -
  obtain m1 where m1: "make_response_cells h j m = Some m1" "ready h j m0 (make_response_with_body [] body) m1"
    using make_response_ready [OF b] by blast
  obtain m2 where "free_response h m1 = Some m2" "restored {h, j} m0 m2" using ready_freed [OF m1(2) un] by blast
  then show ?thesis using m1(1) ready_sent [OF m1(2)] w by (simp add: send_body_cells_def)
qed

section \<open>Properties\<close>

text \<open>C18. Responses are memory safe and leave nothing behind: whatever the lists of nodes say that a listing of clients or
  of routers puts on the connection, the code on the cells does the same, from the initialisation of the local lists to
  \<open>free_response\<close>, without touching memory that is not allocated; after it every node and every buffer that was
  allocated on the way has been released, exactly once, and no other memory has changed but the two local lists, also
  when sending fails midway and when the number is refused.\<close>

theorem responses_in_memory:
  assumes "unused m" and "head \<noteq> jlist" and "head \<in> dom (rm_cells m)" and "jlist \<in> dom (rm_cells m)" and "client_rep T es"
  shows "(\<forall>ign n rc body w rv w'. clients_to_json ntop [] ign n T = Some (rc, body) \<longrightarrow>
      psnet_send_response (make_response_with_body [] body) w = Some (rv, w') \<longrightarrow>
      (\<exists>m'. answer_clients ntop head jlist ign n T m w = Some (rc, m', if rc = CL_OK then w' else w) \<and>
        restored {head, jlist} m m')) \<and>
    (\<forall>n routers body w rv w'. routers_to_json ntop [] n routers = Some body \<longrightarrow>
      psnet_send_response (make_response_with_body [] body) w = Some (rv, w') \<longrightarrow>
      (\<exists>m'. answer_routers ntop head jlist n routers m w = Some (m', w') \<and> restored {head, jlist} m m'))"
proof (intro conjI allI impI)
  obtain m0 where m0: "local_lists head jlist m = Some m0" "built jlist head m [] m0"
    using local_lists_built [OF assms(2-4,1)] by blast
  note r = built_nil_restored [OF m0(2)]
  show "\<exists>m'. answer_clients ntop head jlist ign n T m w = Some (rc, m', if rc = CL_OK then w' else w) \<and>
      restored {head, jlist} m m'"
    if run: "clients_to_json ntop [] ign n T = Some (rc, body)" "psnet_send_response (make_response_with_body [] body) w = Some (rv, w')"
    for ign n rc body w rv w'
  proof -
    obtain m1 where m1: "clients_to_json_cells ntop jlist ign n T m0 = Some (rc, m1)" "built jlist head m body m1"
      using clients_to_json_built [OF assms(5) m0(2) run(1)] by blast
    show ?thesis
    proof (cases "rc = CL_OK")
      case True
      then show ?thesis using body_answered [OF m1(2) assms(1) run(2)] m0(1) m1(1) by (auto simp: answer_clients_def)
    next
      case False
      then have "m1 = m0" using m1(1) by (auto simp: clients_to_json_cells_def bind_eq_Some_iff Let_def split: if_splits)
      then show ?thesis using False m0(1) m1(1) r by (simp add: answer_clients_def)
    qed
  qed
  show "\<exists>m'. answer_routers ntop head jlist n routers m w = Some (m', w') \<and> restored {head, jlist} m m'"
    if run: "routers_to_json ntop [] n routers = Some body" "psnet_send_response (make_response_with_body [] body) w = Some (rv, w')"
    for n routers body w rv w'
    using routers_to_json_built [OF m0(2) run(1)] body_answered [OF _ assms(1) run(2)] m0(1)
    by (auto simp: answer_routers_def)
qed

lemma responses_in_memory_witness:
  \<open>let m = \<lparr>rm_cells = [1 \<mapsto> \<lparr>nxt = 0, prv = 0\<rparr>, 2 \<mapsto> \<lparr>nxt = 0, prv = 0\<rparr>], rm_nodes = Map.empty, rm_bufs = Map.empty, rm_brk = 3\<rparr>;
       w = net_of (replicate 150 (SendN 3)) []
   in (\<exists>m' w'. answer_clients text_ntop 1 2 None (''2'' @ [NUL]) client_table m w = Some (CL_OK, m', w') \<and> restored {1, 2} m m' \<and>
        tcp_out w' = ''{"status":"okay","size":6}'' @ DELIM @ ''[]'' @ DELIM) \<and>
      (\<exists>m' w'. answer_routers text_ntop 1 2 5 [sa4 16777343 80] m w = Some (m', w') \<and> restored {1, 2} m m' \<and>
        tcp_out w' = ''{"status":"okay","size":42}'' @ DELIM @ ''[{"ip":"127.0.0.1","port":80,"ipv":4}]'' @ DELIM)\<close>
proof -
  let ?m = "\<lparr>rm_cells = [1 \<mapsto> \<lparr>nxt = 0, prv = 0\<rparr>, 2 \<mapsto> \<lparr>nxt = 0, prv = 0\<rparr>], rm_nodes = Map.empty, rm_bufs = Map.empty, rm_brk = 3\<rparr>"
  let ?w = "net_of (replicate 150 (SendN 3)) []"
  have un: "unused ?m" by (simp add: unused_def)
  note all = responses_in_memory [OF un _ _ _ client_table_rep, of 1 2 text_ntop]
  have link: "good_link n ?w" if "n \<le> 150" for n using that by (simp add: good_link_def net_of_def list_all_length)
  have sent: "\<exists>w'. psnet_send_response (make_response_with_body [] body) ?w = Some (0, w') \<and>
      tcp_out w' = render (header_doc n) @ DELIM @ bytes"
    if "nodes_ok body" "response_bytes body = bytes" "length bytes = n" "n < 100" for body bytes n
  proof -
    have "length (dec n) \<le> 2" using that(4) by (intro dec_length_le) simp_all
    then have "length (response_bytes (make_response_with_body [] body)) \<le> 150"
      using make_response_bytes(2) [OF that(1)] that by (simp add: header_doc_text DELIM_def)
    then show ?thesis
      using psnet_send_response_good [of "make_response_with_body [] body" 0 ?w] make_response_bytes [OF that(1)] that link
      by (fastforce simp: nodes_ok_def net_of_def)
  qed
  obtain cb where cb: "clients_to_json text_ntop [] None (''2'' @ [NUL]) client_table = Some (CL_OK, cb)" "nodes_ok cb"
    "response_bytes cb = ''[]'' @ DELIM"
    using clients_to_json_body [OF client_table_rep text_inet_ok, of 2 None "[]"]
    by (auto simp: list_doc_def dec.simps digit_chars)
  obtain rb where rb: "routers_to_json text_ntop [] 5 [sa4 16777343 80] = Some rb" "nodes_ok rb"
    \<open>response_bytes rb = ''[{"ip":"127.0.0.1","port":80,"ipv":4}]'' @ DELIM\<close>
    using routers_to_json_body [OF text_inet_ok, of "[sa4 16777343 80]" 5]
    by (auto simp: sa_doc_def node_doc_def list_doc_def sa4_def get_in_addr_def get_in_port_def inet_family_def
        dotted_def Let_def dec.simps digit_chars)
  obtain w1 where w1: "psnet_send_response (make_response_with_body [] cb) ?w = Some (0, w1)"
    "tcp_out w1 = render (header_doc 6) @ DELIM @ ''[]'' @ DELIM"
    using sent [OF cb(2,3), of 6] by (auto simp: DELIM_def)
  obtain w2 where w2: "psnet_send_response (make_response_with_body [] rb) ?w = Some (0, w2)"
    "tcp_out w2 = render (header_doc 42) @ DELIM @ response_bytes rb"
    using sent [OF rb(2) refl, of 42] unfolding rb(3) by (auto simp: DELIM_def)
  have c: "\<exists>m'. answer_clients text_ntop 1 2 None (''2'' @ [NUL]) client_table ?m ?w = Some (CL_OK, m', w1) \<and> restored {1, 2} ?m m'"
    using conjunct1 [OF all] cb(1) w1(1) by fastforce
  have r: "\<exists>m'. answer_routers text_ntop 1 2 5 [sa4 16777343 80] ?m ?w = Some (m', w2) \<and> restored {1, 2} ?m m'"
    using conjunct2 [OF all] rb(1) w2(1) by fastforce
  show ?thesis unfolding Let_def
    using c r w1(2) w2(2) rb(3) by (auto simp: header_doc_text dec.simps digit_chars)
qed

end
