(* ===== verification/Router_System.thy ===== *)
theory Router_System
  imports Router_Service
begin

text \<open>
  The router as a whole: the threads that \<open>main\<close> of \<^verbatim>\<open>src/router/service.c\<close> and \<open>router_init\<close>
  start, as steps on the state they share. A step is one turn of the inner loop of
  \<open>router_update_thread\<close>, one turn of \<open>router_keepalive_thread\<close>, one tick of a table, one datagram or
  one request on a connection. The update thread keeps its list \<open>tmp\<close> between its turns.
\<close>

section \<open>Model\<close>

record router_proc =
  rp_state :: router_state
  rp_tmp :: "sockaddr_storage list"
  rp_net :: net

text \<open>\<open>clients_init\<close>, \<open>msg_cache_init\<close> and the static list of routers.\<close>

definition router_boot :: "net \<Rightarrow> router_proc" where
  "router_boot w = \<lparr>rp_state = \<lparr>rs_clients = client_table, rs_cache = msg_cache, rs_routers = []\<rparr>, rp_tmp = [], rp_net = w\<rparr>"

text \<open>When the request succeeds the inner loop is left, and the next turn begins with an empty \<open>tmp\<close>; when it
  fails the thread sleeps and tries again, with \<open>tmp\<close> as it is.\<close>

definition update_turn ::
  "pton \<Rightarrow> jsmntok_t list \<Rightarrow> conn_event \<Rightarrow> int \<Rightarrow> u16 \<Rightarrow> router_proc \<Rightarrow> router_proc option" where
  "update_turn pton tok ev rv0 port s = do {
     (left, tmp, routers, w) \<leftarrow> router_update pton tok ev rv0 port (rp_tmp s) (rs_routers (rp_state s)) (rp_net s);
     Some (s\<lparr>rp_state := (rp_state s)\<lparr>rs_routers := routers\<rparr>, rp_tmp := (if left then [] else tmp), rp_net := w\<rparr>)
   }"

definition keepalive_turn :: "sockaddr_storage \<Rightarrow> u16 \<Rightarrow> router_proc \<Rightarrow> router_proc option" where
  "keepalive_turn tracker port s = do {
     (_, w) \<leftarrow> router_keepalive tracker port (rp_net s);
     Some (s\<lparr>rp_net := w\<rparr>)
   }"

inductive router_step :: "ntop \<Rightarrow> pton \<Rightarrow> sockaddr_storage \<Rightarrow> u16 \<Rightarrow> router_proc \<Rightarrow> router_proc \<Rightarrow> bool" for ntop pton tracker port where
  update: "update_turn pton tok ev rv0 port s = Some s' \<Longrightarrow> router_step ntop pton tracker port s s'"
| keepalive: "keepalive_turn tracker port s = Some s' \<Longrightarrow> router_step ntop pton tracker port s s'"
| client_tick: "delta_tick (rs_clients (rp_state s)) = Some T \<Longrightarrow>
    router_step ntop pton tracker port s (s\<lparr>rp_state := (rp_state s)\<lparr>rs_clients := T\<rparr>\<rparr>)"
| cache_tick: "delta_tick (rs_cache (rp_state s)) = Some M \<Longrightarrow>
    router_step ntop pton tracker port s (s\<lparr>rp_state := (rp_state s)\<lparr>rs_cache := M\<rparr>\<rparr>)"
| datagram: "serve_message tok mi (rp_state s) (rp_net s) n = Some (st, w, n') \<Longrightarrow>
    router_step ntop pton tracker port s (s\<lparr>rp_state := st, rp_net := w\<rparr>)"
| request: "conn_step ntop (rp_state s) c = Some (go, st, c') \<Longrightarrow> udp_script (c_net c) = udp_script (rp_net s) \<Longrightarrow>
    dgrams (c_net c) = dgrams (rp_net s) \<Longrightarrow>
    router_step ntop pton tracker port s
      (s\<lparr>rp_state := st, rp_net := (rp_net s)\<lparr>udp_script := udp_script (c_net c'), dgrams := dgrams (c_net c')\<rparr>\<rparr>)"
| network: "router_step ntop pton tracker port s (s\<lparr>rp_net := (rp_net s)\<lparr>udp_script := evs\<rparr>\<rparr>)"

abbreviation router_reach :: "ntop \<Rightarrow> pton \<Rightarrow> sockaddr_storage \<Rightarrow> u16 \<Rightarrow> router_proc \<Rightarrow> router_proc \<Rightarrow> bool" where
  "router_reach ntop pton tracker port \<equiv> (router_step ntop pton tracker port)\<^sup>*\<^sup>*"

section \<open>The list of routers stays empty\<close>

lemma broadcast_routers: "process_broadcast mi tok st w = Some (mi', st', w') \<Longrightarrow> rs_routers st' = rs_routers st"
  by (auto simp: process_broadcast_def bind_eq_Some_iff Let_def split: if_splits)

lemma message_routers: "serve_message tok mi st w n = Some (st', w', n') \<Longrightarrow> rs_routers st' = rs_routers st"
  by (auto simp: serve_message_def process_connect_def bind_eq_Some_iff Let_def dest: broadcast_routers split: if_splits)

lemma request_routers: "conn_step ntop st c = Some (go, st', c') \<Longrightarrow> rs_routers st' = rs_routers st"
  by (auto simp: conn_step_def bind_eq_Some_iff Let_def dest: broadcast_routers split: if_splits)

text \<open>Every request of the update thread that does not run into undefined behaviour fails.\<close>

lemma update_fails:
  assumes "update_turn pton tok ev rv0 port s = Some s'"
  shows "s' = s"
proof -
  have d: "psnet_request_discover pton tok ev rv0 tmp OUTDEGREE p w = Some (rv, tmp', w') \<Longrightarrow> rv < 0 \<and> tmp' = tmp \<and> w' = w"
    for tmp p w rv tmp' w'
    by (cases ev) (auto simp: psnet_request_discover_def psnet_raw_request_discover_def psnet_requestf_def psnet_request_def
        Let_def split: prod.splits if_splits)
  show ?thesis using assms by (auto simp: update_turn_def router_update_def bind_eq_Some_iff dest!: d split: if_splits)
qed

lemma reach_routers:
  "router_reach ntop pton tracker port s s' \<Longrightarrow> rs_routers (rp_state s) = [] \<and> rp_tmp s = [] \<Longrightarrow>
   rs_routers (rp_state s') = [] \<and> rp_tmp s' = []"
proof (induction rule: rtranclp_induct)
  case (step s1 s2)
  from step(2) show ?case
    by (cases rule: router_step.cases) (use step in \<open>auto dest: update_fails message_routers request_routers
      simp: keepalive_turn_def bind_eq_Some_iff\<close>)
qed

lemma flood_no_routers: "flood_message mi [] T w = map_option snd (flood_to_clients mi T w)"
  by (cases "flood_to_clients mi T w") (auto simp: flood_message_def)

lemma list_no_routers: "\<exists>body. routers_to_json ntop [] n [] = Some body \<and> response_bytes body = ''[]'' @ DELIM"
  by (simp add: routers_to_json_def drop_separator_def response_bytes_def node_of_def)

section \<open>Properties\<close>

text \<open>C27. A router never learns of another router. In every state that it can reach, whatever the order of
  the turns of its threads, the ticks, the datagrams and the requests, and whatever the tracker knows, its list of routers is
  empty: since \<open>psnet_request\<close> never reads an answer, every turn of the update thread
  fails and leaves the state as it is (or parses through an uninitialised pointer). So broadcasts
  go to the clients only, and a discover request is answered with the empty list.\<close>

theorem router_never_learns:
  assumes "router_reach ntop pton tracker port (router_boot w) s"
  shows "rs_routers (rp_state s) = [] \<and> (\<forall>tok ev rv0. update_turn pton tok ev rv0 port s \<in> {Some s, None}) \<and>
    (\<forall>tok rv0 e. 0 < e \<longrightarrow> update_turn pton tok (ConnErr e) rv0 port s = Some s) \<and>
    (\<forall>mi T w. flood_message mi (rs_routers (rp_state s)) T w = map_option snd (flood_to_clients mi T w)) \<and>
    (\<forall>n. \<exists>body. routers_to_json ntop [] n (rs_routers (rp_state s)) = Some body \<and> response_bytes body = ''[]'' @ DELIM)"
proof -
  have r: "rs_routers (rp_state s) = []" using reach_routers [OF assms] by (simp add: router_boot_def)
  have "update_turn pton tok ev rv0 port s \<in> {Some s, None}" for tok ev rv0
    using update_fails by (cases "update_turn pton tok ev rv0 port s") auto
  moreover have "update_turn pton tok (ConnErr e) rv0 port s = Some s" if "0 < e" for tok rv0 e
    using that by (simp add: update_turn_def router_update_def psnet_request_discover_def psnet_raw_request_discover_def
        psnet_requestf_def psnet_request_def c_snprintf_def Let_def)
  ultimately show ?thesis using r flood_no_routers list_no_routers by simp
qed

lemma router_never_learns_witness:
  \<open>\<exists>s. router_reach text_ntop text_pton (sa4 9 6666) 5555 (router_boot (udp_net [UdpSent])) s \<and> rs_routers (rp_state s) = [] \<and>
    dgrams (rp_net s) = [(sa4 9 6666, ''{"method":"connect","port":5555}'')] \<and>
    update_turn text_pton [] (ConnErr 111) 0 5555 s = Some s\<close>
proof -
  let ?b = "router_boot (udp_net [UdpSent])"
  have "\<exists>s. keepalive_turn (sa4 9 6666) 5555 ?b = Some s \<and> dgrams (rp_net s) = [(sa4 9 6666, ''{\"method\":\"connect\",\"port\":5555}'')]"
    by (simp add: keepalive_turn_def router_keepalive_def psnet_send_connect_def udp_sendf_def connect_msg_def router_boot_def
        udp_net_def c_snprintf_def udp_send_def dec.simps digit_chars Let_def)
  then obtain s where s: "keepalive_turn (sa4 9 6666) 5555 ?b = Some s"
    "dgrams (rp_net s) = [(sa4 9 6666, ''{\"method\":\"connect\",\"port\":5555}'')]" by blast
  have r: "router_reach text_ntop text_pton (sa4 9 6666) 5555 ?b s"
    by (rule r_into_rtranclp) (rule router_step.keepalive [OF s(1)])
  show ?thesis using router_never_learns [OF r] r s(2) by auto
qed

end
