(* ===== verification/Repeated_Broadcast.thy ===== *)
theory Repeated_Broadcast
  imports Router_System
begin

text \<open>
  Broadcast datagrams end to end, and what repeated ones do to the message cache of a router: \<open>handle_message\<close> of
  \<^verbatim>\<open>src/router/service.c\<close> enters the identifier of every broadcast with \<open>delta_update\<close> (\<^verbatim>\<open>src/common/deltalist.c\<close>),
  which does not keep \<open>delta_tail\<close> in order when the identifier is the last of several. Anybody can send broadcasts,
  so the sequence below is one that any peer can bring about.
\<close>

section \<open>Broadcast datagrams\<close>

definition bcast_req :: "string \<Rightarrow> kids" where
  "bcast_req x = KCons [] (JStr ''method'') (KCons '':'' (JStr ''broadcast'') (KCons '','' (JStr ''hops'') (KCons '':'' (JPrim ''0'')
     (KCons '','' (JStr ''id'') (KCons '':'' (JStr x) (KNil []))))))"

definition bcast_msg :: "string \<Rightarrow> string" where
  \<open>bcast_msg x = ''{"method":"broadcast","hops":0,"id":"'' @ x @ ''"}''\<close>

lemma bcast_msg_doc: "bcast_msg x = render (JCont True (bcast_req x))"
  by (simp add: bcast_msg_def bcast_req_def)

lemma bcast_tokens:
  "toks_of 0 (JCont True (bcast_req x)) =
    [mk_tok JSMN_OBJECT 0 (39 + length x) 6, mk_tok JSMN_STRING 2 8 0, mk_tok JSMN_STRING 11 20 0,
     mk_tok JSMN_STRING 23 27 0, mk_tok JSMN_PRIMITIVE 29 30 0, mk_tok JSMN_STRING 32 34 0,
     mk_tok JSMN_STRING 37 (37 + length x) 0]"
  by (simp add: bcast_req_def mk_tok_def)

lemma bcast_parse:
  assumes "mi_msg mi = bcast_msg x @ NUL # junk" and "str_ok x" and "256 \<le> length tok"
  defines "toks \<equiv> toks_of 0 (JCont True (bcast_req x)) @ drop 7 tok"
  shows "parse_message (mi_msg mi) tok JSMN_NTOK = Some (2, toks, 7)"
    and "cmd_equal mi toks 2 cmd = Some (''broadcast'' = cmd)"
    and "bcast_fields (mi_msg mi) toks 29 (mk_tok JSMN_STRING 37 (37 + length x) 0)"
proof -
  let ?ks = "bcast_req x"
  have msg: "mi_msg mi = render (JCont True ?ks) @ NUL # junk" using assms(1) by (simp add: bcast_msg_doc)
  have look: "obj_lookup ''method'' 1 ?ks = 2" "obj_lookup ''hops'' 1 ?ks = 4" "obj_lookup ''id'' 1 ?ks = 6"
    by (simp_all add: bcast_req_def)
  have len: "length (toks_of 0 (JCont True ?ks)) = 7" by (simp add: bcast_tokens del: toks_of.simps)
  have "prim_ok ''0''" using dec_prim(1) [of 0] by (simp add: dec.simps digit_chars)
  then have ok: "kids_ok ?ks" using assms(2) by (simp add: bcast_req_def sep_char_def)
  show "parse_message (mi_msg mi) tok JSMN_NTOK = Some (2, toks, 7)"
    using parse_message_doc [OF ok, of "[]" JSMN_NTOK tok junk] msg look(1) assms(3)
    unfolding toks_def JSMN_NTOK_def by (simp add: len del: toks_of.simps render.simps)
  have "mi_msg mi = ''{\"method\":\"'' @ ''broadcast'' @ ''\",\"hops\":0,\"id\":\"'' @ x @ ''\"}'' @ NUL # junk"
    using assms(1) by (simp add: bcast_msg_def)
  then show "cmd_equal mi toks 2 cmd = Some (''broadcast'' = cmd)"
    by (rule cmd_equal_req) (simp add: toks_def bcast_tokens rd_tok_def del: toks_of.simps)
  have "jsmn_get_value (mi_msg mi) toks ''hops'' = Some 4" "jsmn_get_value (mi_msg mi) toks ''id'' = Some 6"
    using jsmn_get_value_doc [of "mi_msg mi" "[]" True ?ks "NUL # junk" toks "drop 7 tok"] msg look
    by (simp_all add: toks_def)
  then show "bcast_fields (mi_msg mi) toks 29 (mk_tok JSMN_STRING 37 (37 + length x) 0)"
    unfolding bcast_fields_def toks_def bcast_tokens using assms(1)
    by (simp add: rd_tok_def) (simp add: mk_tok_def bcast_msg_def)
qed

lemma bcast_bytes:
  assumes "msg = bcast_msg x @ NUL # junk"
  shows "msg ! 29 = CHR ''0''" and "may_hop CHR ''0''"
    and "jsmn_tokdup (msg[29 := c]) (mk_tok JSMN_STRING 37 (37 + length x) 0) = Some (x @ [NUL])"
proof -
  have "msg[29 := c] = (''{\"method\":\"broadcast\",\"hops\":'' @ c # '',\"id\":\"'') @ x @ ''\"}'' @ NUL # junk"
    using assms by (simp add: bcast_msg_def)
  then show "jsmn_tokdup (msg[29 := c]) (mk_tok JSMN_STRING 37 (37 + length x) 0) = Some (x @ [NUL])"
    by (rule jsmn_tokdup_range) (simp_all add: mk_tok_def)
  show "may_hop CHR ''0''" by (simp add: may_hop_def)
qed (use assms in \<open>simp add: bcast_msg_def\<close>)

text \<open>What the callback does with such a datagram.\<close>

lemma bcast_message:
  assumes "mi_msg mi = bcast_msg x @ NUL # junk" and "str_ok x" and "256 \<le> length tok"
  shows "cache_msg (x @ [NUL]) (rs_cache st) = None \<Longrightarrow> serve_message tok mi st w n = None"
    and "cache_msg (x @ [NUL]) (rs_cache st) = Some (dup, M) \<Longrightarrow> rs_routers st = [] \<Longrightarrow> client_rep (rs_clients st) [] \<Longrightarrow>
      mi_len mi \<le> length (mi_msg mi) \<Longrightarrow> serve_message tok mi st w n = Some (st\<lparr>rs_cache := M\<rparr>, w, n - 1)"
proof -
  let ?toks = "toks_of 0 (JCont True (bcast_req x)) @ drop 7 tok"
  let ?mi = "mi\<lparr>mi_msg := (mi_msg mi)[29 := next_char (mi_msg mi ! 29)]\<rparr>"
  note P = bcast_parse [OF assms] and B = bcast_bytes [OF assms(1)]
  have hop: "may_hop (mi_msg mi ! 29)" using B(1,2) by simp
  note dup = B(3) [of "next_char (mi_msg mi ! 29)"]
  have run: "serve_message tok mi st w n = do { (_, st, w) \<leftarrow> process_broadcast mi ?toks st w; Some (st, w, n - 1) }"
    using P(1) P(2) [of "''connect''"] P(2) [of "''broadcast''"]
    by (simp add: serve_message_def del: toks_of.simps)
  show "serve_message tok mi st w n = None" if "cache_msg (x @ [NUL]) (rs_cache st) = None"
    using process_broadcast_crash [OF P(3) hop dup that] by (simp add: run)
  show "serve_message tok mi st w n = Some (st\<lparr>rs_cache := M\<rparr>, w, n - 1)"
    if "cache_msg (x @ [NUL]) (rs_cache st) = Some (dup, M)" "rs_routers st = []" "client_rep (rs_clients st) []" "mi_len mi \<le> length (mi_msg mi)"
  proof -
    have "mi_len ?mi \<le> length (mi_msg ?mi)" using that(4) by simp
    then have "flood_message ?mi [] (rs_clients st) w = Some w"
      using flood_to_clients_rep [OF that(3), of ?mi w] by (simp add: flood_no_routers delivered_def)
    then show ?thesis using process_broadcast_hop [OF P(3) hop dup that(1), of w] that(2) by (simp add: run)
  qed
qed

text \<open>Any datagram that the callback takes for a broadcast with the identifier \<open>ident\<close> and a hops digit below the limit, whatever else
  its text holds.\<close>

definition broadcast_of :: "jsmntok_t list \<Rightarrow> msg_info \<Rightarrow> char list \<Rightarrow> bool" where
  "broadcast_of tok mi ident \<longleftrightarrow> (\<exists>m toks k a ti. parse_message (mi_msg mi) tok JSMN_NTOK = Some (m, toks, k) \<and> m \<noteq> -1 \<and>
     cmd_equal mi toks m ''broadcast'' = Some True \<and> bcast_fields (mi_msg mi) toks a ti \<and> may_hop (mi_msg mi ! a) \<and>
     jsmn_tokdup ((mi_msg mi)[a := next_char (mi_msg mi ! a)]) ti = Some ident)"

lemma broadcast_of_crash:
  assumes "broadcast_of tok mi ident" and "cache_msg ident (rs_cache st) = None"
  shows "serve_message tok mi st w n = None"
proof -
  obtain m toks k a ti where b: "parse_message (mi_msg mi) tok JSMN_NTOK = Some (m, toks, k)" "m \<noteq> -1"
    "cmd_equal mi toks m ''broadcast'' = Some True" "bcast_fields (mi_msg mi) toks a ti" "may_hop (mi_msg mi ! a)"
    "jsmn_tokdup ((mi_msg mi)[a := next_char (mi_msg mi ! a)]) ti = Some ident"
    using assms(1) by (auto simp: broadcast_of_def)
  have "cmd_equal mi toks m ''connect'' = Some False"
    using b(3) by (auto simp: cmd_equal_def jsmn_tokeq_def bind_eq_Some_iff split: if_splits)
  then show ?thesis using b(1-3) process_broadcast_crash [OF b(4-6) assms(2)] by (simp add: serve_message_def)
qed

section \<open>A run of the router\<close>

text \<open>What a peer that only sends broadcasts brings about, between ticks of the clock thread of the message cache.\<close>

datatype peer_event = Broadcast string | CacheTick

fun peer_run :: "jsmntok_t list \<Rightarrow> sockaddr_storage \<Rightarrow> peer_event list \<Rightarrow> router_proc \<Rightarrow> router_proc option" where
  "peer_run tok from [] s = Some s"
| "peer_run tok from (Broadcast x # evs) s = do {
     (st, w, _) \<leftarrow> serve_message tok (udp_msg from (bcast_msg x)) (rp_state s) (rp_net s) 1;
     peer_run tok from evs (s\<lparr>rp_state := st, rp_net := w\<rparr>)
   }"
| "peer_run tok from (CacheTick # evs) s = do {
     M \<leftarrow> delta_tick (rs_cache (rp_state s));
     peer_run tok from evs (s\<lparr>rp_state := (rp_state s)\<lparr>rs_cache := M\<rparr>\<rparr>)
   }"

lemma peer_run_reach:
  "peer_run tok from evs s = Some s' \<Longrightarrow> router_reach ntop pton tracker port s s'"
proof (induction evs arbitrary: s)
  case (Cons ev evs)
  show ?case
  proof (cases ev)
    case (Broadcast x)
    then obtain st w n where st: "serve_message tok (udp_msg from (bcast_msg x)) (rp_state s) (rp_net s) 1 = Some (st, w, n)"
      "peer_run tok from evs (s\<lparr>rp_state := st, rp_net := w\<rparr>) = Some s'"
      using Cons.prems by (auto simp: bind_eq_Some_iff)
    show ?thesis by (rule converse_rtranclp_into_rtranclp [of "router_step ntop pton tracker port", OF router_step.datagram [OF st(1)] Cons.IH [OF st(2)]])
  next
    case CacheTick
    then obtain M where M: "delta_tick (rs_cache (rp_state s)) = Some M"
      "peer_run tok from evs (s\<lparr>rp_state := (rp_state s)\<lparr>rs_cache := M\<rparr>\<rparr>) = Some s'"
      using Cons.prems by (auto simp: bind_eq_Some_iff)
    show ?thesis by (rule converse_rtranclp_into_rtranclp [of "router_step ntop pton tracker port", OF router_step.cache_tick [OF M(1)] Cons.IH [OF M(2)]])
  qed
qed simp

text \<open>On a router without clients and other routers, the run acts on the cache as updates and ticks.\<close>

fun cache_op :: "peer_event \<Rightarrow> char list dl_op" where
  "cache_op (Broadcast x) = OpUpdate (x @ [NUL])"
| "cache_op CacheTick = OpTick"

definition idle_router :: "msg_tbl \<Rightarrow> net \<Rightarrow> router_proc" where
  "idle_router M w = \<lparr>rp_state = \<lparr>rs_clients = client_table, rs_cache = M, rs_routers = []\<rparr>, rp_tmp = [], rp_net = w\<rparr>"

lemma peer_run_cache:
  assumes "256 \<le> length tok"
  shows "dl_run (map cache_op evs) M = Some M' \<Longrightarrow> \<forall>x. Broadcast x \<in> set evs \<longrightarrow> str_ok x \<Longrightarrow>
    peer_run tok from evs (idle_router M w) = Some (idle_router M' w)"
proof (induction evs arbitrary: M)
  case (Cons ev evs)
  obtain M1 where M1: "dl_step (cache_op ev) M = Some M1" "dl_run (map cache_op evs) M1 = Some M'"
    using Cons.prems(1) by (auto simp: bind_eq_Some_iff)
  have IH: "peer_run tok from evs (idle_router M1 w) = Some (idle_router M' w)" using Cons.IH [OF M1(2)] Cons.prems(2) by simp
  show ?case
  proof (cases ev)
    case CacheTick
    then show ?thesis using M1(1) IH by (simp add: idle_router_def)
  next
    case (Broadcast x)
    let ?mi = "udp_msg from (bcast_msg x)" and ?st = "rp_state (idle_router M w)"
    have x: "mi_msg ?mi = bcast_msg x @ NUL # []" "str_ok x" using Cons.prems(2) Broadcast by (simp_all add: udp_msg_def)
    obtain dup where "cache_msg (x @ [NUL]) (rs_cache ?st) = Some (dup, M1)"
      using M1(1) Broadcast by (auto simp: cache_msg_def idle_router_def)
    then have "serve_message tok ?mi ?st w 1 = Some (?st\<lparr>rs_cache := M1\<rparr>, w, 0)"
      using bcast_message(2) [OF x assms, of ?st dup M1 w 1] client_table_rep by (simp add: idle_router_def udp_msg_def)
    then show ?thesis using Broadcast IH by (simp add: idle_router_def)
  qed
qed simp

text \<open>Identifiers that come again while they are the last; after the second expiry the node of \<open>c\<close> points back to
  the node of \<open>b\<close>, which is free by then.\<close>

lemma one_char_hash:
  "msg_delta_hash [CHR ''a'', NUL] = 177670" "msg_delta_hash [CHR ''b'', NUL] = 177671"
  "msg_delta_hash [CHR ''c'', NUL] = 177672" "msg_delta_hash [CHR ''d'', NUL] = 177673"
  by (simp_all add: msg_delta_hash_def schar_def)

definition repeated :: "peer_event list" where
  "repeated = [Broadcast ''a'', Broadcast ''b'', Broadcast ''b'', Broadcast ''c'', Broadcast ''b''] @
      [CacheTick, CacheTick, CacheTick, CacheTick, CacheTick, CacheTick, CacheTick, CacheTick, CacheTick, CacheTick] @
      [Broadcast ''d'', Broadcast ''b''] @
      [CacheTick, CacheTick, CacheTick, CacheTick, CacheTick, CacheTick, CacheTick, CacheTick, CacheTick, CacheTick]"

lemma repeated_cache: "\<exists>M. dl_run (map cache_op repeated) msg_cache = Some M \<and> cache_msg (''c'' @ [NUL]) M = None \<and>
    (\<exists>c n b. node_heap M c = Some n \<and> nd_data n = ''c'' @ [NUL] \<and> dl_prev n = Some b \<and> node_heap M b = None)"
  by (simp add: repeated_def msg_cache_def static_table_def delta_update_def get_node_def ht_index_def one_char_hash HT_SIZE_def new_nd_def
      hash_insert_def get_nd_def upd_nd_def dl_insert_node_def dl_remove_node_def Let_def get_node_loop.simps
      delta_expire.simps delta_tick_def delta_delete_def free_nd_def cache_msg_def exI [of _ "2 :: nat"])

section \<open>Properties\<close>

text \<open>C28. Repeated broadcasts make a router write to freed memory. The run \<open>repeated\<close> of a freshly started router consists of nothing but broadcast
  datagrams, from any one sender, and ticks of the message cache; it is defined throughout. After it the node of the identifier \<open>c\<close>
  points back to a node that has been freed, and every datagram that the callback takes for a broadcast with that identifier
  and a hops digit below the limit, from anybody and with any other members, leads into undefined behaviour.\<close>

theorem repeated_broadcasts_corrupt:
  assumes "256 \<le> length tok"
  shows "\<exists>s. peer_run tok from repeated (router_boot w) = Some s \<and> router_reach ntop pton tracker port (router_boot w) s \<and>
    (\<exists>c n b. node_heap (rs_cache (rp_state s)) c = Some n \<and> nd_data n = ''c'' @ [NUL] \<and> dl_prev n = Some b \<and>
      node_heap (rs_cache (rp_state s)) b = None) \<and>
    (\<forall>tok' mi w' n. broadcast_of tok' mi (''c'' @ [NUL]) \<longrightarrow> serve_message tok' mi (rp_state s) w' n = None)"
proof -
  obtain M where M: "dl_run (map cache_op repeated) msg_cache = Some M" "cache_msg (''c'' @ [NUL]) M = None"
    "\<exists>c n b. node_heap M c = Some n \<and> nd_data n = ''c'' @ [NUL] \<and> dl_prev n = Some b \<and> node_heap M b = None"
    using repeated_cache by blast
  have boot: "router_boot w = idle_router msg_cache w" by (simp add: router_boot_def idle_router_def)
  have "\<forall>x. Broadcast x \<in> set repeated \<longrightarrow> str_ok x" by (auto simp: repeated_def)
  then have run: "peer_run tok from repeated (router_boot w) = Some (idle_router M w)"
    unfolding boot by (rule peer_run_cache [OF assms M(1)])
  have cache: "rs_cache (rp_state (idle_router M w)) = M" by (simp add: idle_router_def)
  have "serve_message tok' mi (rp_state (idle_router M w)) w' n = None" if "broadcast_of tok' mi (''c'' @ [NUL])" for tok' mi w' n
    using broadcast_of_crash [OF that] M(2) cache by simp
  then show ?thesis using run peer_run_reach [OF run] M(3) by (intro exI [of _ "idle_router M w"]) (simp add: cache)
qed

lemma repeated_broadcasts_corrupt_witness:
  \<open>\<exists>s. peer_run (replicate 256 (mk_tok JSMN_STRING 0 0 0)) (sa4 9 1) repeated (router_boot (udp_net [])) = Some s \<and>
    serve_message (replicate 256 (mk_tok JSMN_STRING 0 0 0))
      (udp_msg (sa4 8 2) ''{"method":"broadcast","hops":2,"id":"c","data":[1]}'') (rp_state s) (rp_net s) 1 = None\<close>
proof -
  let ?tok = "replicate 256 (mk_tok JSMN_STRING 0 0 0)"
  let ?mi = "udp_msg (sa4 8 2) ''{\"method\":\"broadcast\",\"hops\":2,\"id\":\"c\",\"data\":[1]}''"
  let ?ks = "KCons [] (JStr ''method'') (KCons '':'' (JStr ''broadcast'') (KCons '','' (JStr ''hops'') (KCons '':'' (JPrim ''2'')
     (KCons '','' (JStr ''id'') (KCons '':'' (JStr ''c'') (KCons '','' (JStr ''data'')
     (KCons '':'' (JCont False (KCons [] (JPrim ''1'') (KNil []))) (KNil []))))))))"
  let ?toks = "toks_of 0 (JCont True ?ks) @ drop 10 ?tok" and ?ti = "mk_tok JSMN_STRING 37 38 0"
  have msg: "mi_msg ?mi = render (JCont True ?ks) @ NUL # []" by (simp add: udp_msg_def)
  have toks: "toks_of 0 (JCont True ?ks) =
    [mk_tok JSMN_OBJECT 0 51 8, mk_tok JSMN_STRING 2 8 0, mk_tok JSMN_STRING 11 20 0,
     mk_tok JSMN_STRING 23 27 0, mk_tok JSMN_PRIMITIVE 29 30 0, mk_tok JSMN_STRING 32 34 0, ?ti,
     mk_tok JSMN_STRING 41 45 0, mk_tok JSMN_ARRAY 47 50 1, mk_tok JSMN_PRIMITIVE 48 49 0]" by (simp add: mk_tok_def)
  have "prim_ok ''1''" "prim_ok ''2''" using dec_prim(1) [of 1] dec_prim(1) [of 2] by (simp_all add: dec.simps digit_chars)
  then have ok: "kids_ok ?ks" by (simp add: sep_char_def)
  have look: "obj_lookup ''method'' 1 ?ks = 2" "obj_lookup ''hops'' 1 ?ks = 4" "obj_lookup ''id'' 1 ?ks = 6" by simp_all
  have "parse_message (mi_msg ?mi) ?tok JSMN_NTOK = Some (2, ?toks, 10)"
    using parse_message_doc [OF ok, of "[]" JSMN_NTOK ?tok "[]"] unfolding msg look(1) toks by (simp add: JSMN_NTOK_def)
  moreover have "mi_msg ?mi = ''{\"method\":\"'' @ ''broadcast'' @ ''\",\"hops\":2,\"id\":\"c\",\"data\":[1]}'' @ [NUL]" by (simp add: udp_msg_def)
  then have "cmd_equal ?mi ?toks 2 ''broadcast'' = Some (''broadcast'' = ''broadcast'')"
    by (rule cmd_equal_req) (simp add: toks rd_tok_def del: toks_of.simps)
  moreover have "jsmn_get_value (mi_msg ?mi) ?toks ''hops'' = Some 4" "jsmn_get_value (mi_msg ?mi) ?toks ''id'' = Some 6"
    using jsmn_get_value_doc [of "mi_msg ?mi" "[]" True ?ks "NUL # []" ?toks "drop 10 ?tok"] msg look by simp_all
  then have "bcast_fields (mi_msg ?mi) ?toks 29 ?ti"
    unfolding bcast_fields_def toks by (simp add: rd_tok_def) (simp add: mk_tok_def udp_msg_def)
  moreover have hop: "mi_msg ?mi ! 29 = CHR ''2''" "may_hop CHR ''2''"
    by (simp_all add: udp_msg_def may_hop_def schar_def)
  moreover have "jsmn_tokdup ((mi_msg ?mi)[29 := c]) ?ti = Some (''c'' @ [NUL])" for c
    by (simp add: udp_msg_def jsmn_tokdup_def ptr_at_def rd_bytes_def jsmn_toklen_def mk_tok_def)
  ultimately have "broadcast_of ?tok ?mi (''c'' @ [NUL])" unfolding broadcast_of_def
    by (intro exI [of _ "2 :: int"] exI [of _ ?toks] exI [of _ "10 :: nat"] exI [of _ "29 :: nat"] exI [of _ ?ti]) (simp del: toks_of.simps)
  then show ?thesis using repeated_broadcasts_corrupt [of ?tok "sa4 9 1" "udp_net []" text_ntop text_pton "sa4 1 6666" 5555] by auto
qed

end
