(* ===== verification/Keepalive.thy ===== *)
theory Keepalive
  imports Tracker_Service Router Server
begin

text \<open>
  A router and the tracker together: the keep-alive thread of \<^verbatim>\<open>src/router/router.c\<close> sends a
  datagram every \<open>DIR_KEEPALIVE_INTERVAL\<close> seconds, the datagram server of \<^verbatim>\<open>src/common/server.c\<close> receives it, and
  the callback of \<^verbatim>\<open>src/tracker/service.c\<close> refreshes the router in the table, whose elements live
  for ten ticks of one second.
\<close>

section \<open>Model\<close>

definition DIR_KEEPALIVE_INTERVAL :: nat where "DIR_KEEPALIVE_INTERVAL = 9"

text \<open>Rounds: a datagram of the router arrives, then other things happen to the table of the tracker until the
  next one (ticks, and updates and removals of other routers). \<open>from\<close> is the address that \<open>recvfrom\<close> reports, \<open>mem\<close> the
  memory that the server allocates for the message.\<close>

fun keepalive_rounds ::
  "jsmntok_t list \<Rightarrow> msg_info \<Rightarrow> sockaddr_storage \<Rightarrow> sockaddr_storage \<Rightarrow> u16 \<Rightarrow> sockaddr_storage dl_op list list \<Rightarrow>
   net \<Rightarrow> client_tbl \<Rightarrow> (net \<times> client_tbl) option" where
  "keepalive_rounds tok mem tracker from port [] w T = Some (w, T)"
| "keepalive_rounds tok mem tracker from port (ops # rounds) w T = do {
     (_, w) \<leftarrow> router_keepalive tracker port w;
     let bytes = snd (last (dgrams w));
     (T, _) \<leftarrow> serve_message tok (recv_msg mem from bytes) T 1;
     T \<leftarrow> dl_run ops T;
     keepalive_rounds tok mem tracker from port rounds w T
   }"

text \<open>The element of the router, and the table that the rounds lead to. In every round at most
  \<open>DIR_KEEPALIVE_INTERVAL\<close> seconds pass, and no operation names the last of several elements.\<close>

definition registered :: "sockaddr_storage \<Rightarrow> u16 \<Rightarrow> sockaddr_storage" where
  "registered from port = set_in_port (htons port) from"

definition round_spec :: "sockaddr_storage \<Rightarrow> sockaddr_storage dl_op list \<Rightarrow> (sockaddr_storage \<times> nat) list \<Rightarrow> (sockaddr_storage \<times> nat) list" where
  "round_spec c ops es = spec_run delta_equals 10 ops (spec_update delta_equals 10 c es)"

definition round_ok :: "sockaddr_storage \<Rightarrow> sockaddr_storage dl_op list \<Rightarrow> (sockaddr_storage \<times> nat) list \<Rightarrow> bool" where
  "round_ok c ops es \<longleftrightarrow> \<not> hits_last delta_equals c es \<and> ticks ops \<le> DIR_KEEPALIVE_INTERVAL \<and>
     ops_ok delta_equals inet_family 10 ops (spec_update delta_equals 10 c es) \<and> (\<forall>op\<in>set ops. \<not> touches delta_equals c op)"

fun rounds_ok :: "sockaddr_storage \<Rightarrow> sockaddr_storage dl_op list list \<Rightarrow> (sockaddr_storage \<times> nat) list \<Rightarrow> bool" where
  "rounds_ok c [] es = True"
| "rounds_ok c (ops # rounds) es = (round_ok c ops es \<and> rounds_ok c rounds (round_spec c ops es))"

fun rounds_spec :: "sockaddr_storage \<Rightarrow> sockaddr_storage dl_op list list \<Rightarrow> (sockaddr_storage \<times> nat) list \<Rightarrow> (sockaddr_storage \<times> nat) list" where
  "rounds_spec c [] es = es"
| "rounds_spec c (ops # rounds) es = rounds_spec c rounds (round_spec c ops es)"

section \<open>One round\<close>

lemma update_ttl:
  assumes "client_rep T (spec_update delta_equals 10 c es)" and "inet_family c"
  shows "ttl delta_equals c (spec_update delta_equals 10 c es) = 10"
proof (cases "find (\<lambda>e. delta_equals (fst e) c) es")
  case None
  then have u: "spec_update delta_equals 10 c es = es @ [(c, 10)]" by (simp add: spec_update_def)
  then show ?thesis using client.ttl_unique [OF assms(1), of "(c, 10)" c] client.equals_refl [OF assms(2)] by simp
next
  case (Some e)
  then have u: "spec_update delta_equals 10 c es = spec_remove delta_equals c es @ [(fst e, 10)]" by (simp add: spec_update_def)
  have "delta_equals (fst e) c" using Some by (auto simp: find_Some_iff)
  then show ?thesis using client.ttl_unique [OF assms(1), of "(fst e, 10)" c] u by simp
qed

text \<open>The message that the server makes of the datagram.\<close>

lemma received_connect:
  assumes "ss_family from = AF_INET"
  shows "\<exists>junk. mi_msg (recv_msg mem from (connect_msg ''connect'' port)) = connect_msg ''connect'' port @ NUL # junk \<and>
    mi_addr (recv_msg mem from (connect_msg ''connect'' port)) = from"
proof -
  have "length (connect_msg ''connect'' port) \<le> MSG_MAX - 1"
    using connect_msg_length [of "''connect''" port] by (simp add: MSG_MAX_def)
  then show ?thesis using assms by (simp add: recv_msg_def recv_addr_def Let_def)
qed

lemma round_run:
  assumes "client_rep T es" and "ss_family from = AF_INET" and "256 \<le> length tok" and "udp_script w = UdpSent # evs"
    and ok: "round_ok (registered from port) ops es"
  shows "\<exists>w' T'. keepalive_rounds tok mem tracker from port (ops # rounds) w T =
      keepalive_rounds tok mem tracker from port rounds w' T' \<and>
    client_rep T' (round_spec (registered from port) ops es) \<and> udp_script w' = evs \<and>
    0 < ttl delta_equals (registered from port) (round_spec (registered from port) ops es)"
proof -
  let ?c = "registered from port" and ?m = "connect_msg ''connect'' port"
  obtain junk where msg: "mi_msg (recv_msg mem from ?m) = ?m @ NUL # junk" "mi_addr (recv_msg mem from ?m) = from"
    using received_connect [OF assms(2)] by blast
  have fam: "inet_family from" "inet_family ?c"
    using assms(2) by (simp_all add: registered_def inet_family_def set_in_port_def)
  have fam': "inet_family (mi_addr (recv_msg mem from ?m))" using fam msg(2) by simp
  have hl: "\<not> hits_last delta_equals (set_in_port (htons port) (mi_addr (recv_msg mem from ?m))) es"
    using ok msg(2) by (simp add: round_ok_def registered_def)
  obtain T1 where T1: "serve_message tok (recv_msg mem from ?m) T 1 = Some (T1, 0)" "client_rep T1 (spec_update delta_equals 10 ?c es)"
    using handle_connect [OF msg(1) assms(3,1) fam' hl, of 1] msg(2) by (auto simp: registered_def)
  have o: "ops_ok delta_equals inet_family 10 ops (spec_update delta_equals 10 ?c es)"
    "\<forall>op\<in>set ops. \<not> touches delta_equals ?c op" "ticks ops \<le> 9"
    using ok by (simp_all add: round_ok_def DIR_KEEPALIVE_INTERVAL_def)
  obtain T2 where T2: "dl_run ops T1 = Some T2" "client_rep T2 (round_spec ?c ops es)"
    using client.dl_run_rep [OF T1(2) o(1)] by (auto simp: round_spec_def)
  have "0 < ttl delta_equals ?c (round_spec ?c ops es)"
    using client.ttl_run [OF T1(2) o(1,2)] update_ttl [OF T1(2) fam(2)] o(3) by (simp add: round_spec_def)
  moreover define w1 where "w1 = w\<lparr>udp_script := evs, dgrams := dgrams w @ [(tracker, ?m)]\<rparr>"
  have "router_keepalive tracker port w = Some (int (length ?m), w1)"
    unfolding router_keepalive_def w1_def by (rule sends_datagram(1) [OF assms(4)])
  then have "keepalive_rounds tok mem tracker from port (ops # rounds) w T = keepalive_rounds tok mem tracker from port rounds w1 T2"
    using T1(1) T2(1) by (simp add: w1_def Let_def)
  ultimately show ?thesis using T2(2) by (intro exI [of _ w1] exI [of _ T2]) (simp add: w1_def)
qed

lemma rounds_run:
  "client_rep T es \<Longrightarrow> udp_script w = replicate (length rounds) UdpSent @ evs \<Longrightarrow>
   rounds_ok (registered from port) rounds es \<Longrightarrow> ss_family from = AF_INET \<Longrightarrow> 256 \<le> length tok \<Longrightarrow>
   \<exists>w' T'. keepalive_rounds tok mem tracker from port rounds w T = Some (w', T') \<and>
     client_rep T' (rounds_spec (registered from port) rounds es) \<and>
     (rounds \<noteq> [] \<longrightarrow> 0 < ttl delta_equals (registered from port) (rounds_spec (registered from port) rounds es))"
proof (induction rounds arbitrary: T es w)
  case (Cons ops rounds)
  let ?c = "registered from port"
  have u: "udp_script w = UdpSent # replicate (length rounds) UdpSent @ evs" using Cons.prems(2) by simp
  have ok: "round_ok ?c ops es" "rounds_ok ?c rounds (round_spec ?c ops es)" using Cons.prems(3) by simp_all
  obtain w1 T1 where s1: "keepalive_rounds tok mem tracker from port (ops # rounds) w T =
      keepalive_rounds tok mem tracker from port rounds w1 T1" "client_rep T1 (round_spec ?c ops es)"
    "udp_script w1 = replicate (length rounds) UdpSent @ evs" "0 < ttl delta_equals ?c (round_spec ?c ops es)"
    using round_run [OF Cons.prems(1,4,5) u ok(1)] by blast
  from Cons.IH [OF s1(2,3) ok(2) Cons.prems(4,5)] show ?case using s1(1,4) by (cases rounds) auto
qed simp

section \<open>Properties\<close>

text \<open>C30. Keep-alive: as long as the datagrams of a router with an IPv4 address arrive, with at most nine ticks from one to the next, the tracker has it in its table at
  every moment after the first one, with at least one tick to live: the interval of nine seconds is shorter than the ten
  ticks of an entry. It is there after any number of rounds, and, as a round may end at any of its ticks, at any time during the
  last one, while other routers come and go. No operation in between and none of the keep-alive datagrams may name the entry that is
  the last of several at that moment (\<open>rounds_ok\<close>): after such a datagram the entry would no longer expire at all (C6).
  The datagrams are served up to freeing the message (C39).\<close>

theorem keepalive_stays_registered:
  assumes "client_rep T es" and "ss_family from = AF_INET" and "256 \<le> length tok"
    and "udp_script w = replicate (length rounds) UdpSent @ evs" and "rounds \<noteq> []"
    and "rounds_ok (registered from port) rounds es"
  shows "\<exists>w' T' es'. keepalive_rounds tok mem tracker from port rounds w T = Some (w', T') \<and> client_rep T' es' \<and>
    0 < ttl delta_equals (registered from port) es' \<and> delta_contains (registered from port) T' = Some 1"
proof -
  obtain w' T' where r: "keepalive_rounds tok mem tracker from port rounds w T = Some (w', T')"
    "client_rep T' (rounds_spec (registered from port) rounds es)"
    "0 < ttl delta_equals (registered from port) (rounds_spec (registered from port) rounds es)"
    using rounds_run [OF assms(1,4,6,2,3)] assms(5) by blast
  then show ?thesis using client.contains_ttl [OF r(2), of "registered from port"] by auto
qed

lemma keepalive_stays_registered_witness:
  "\<exists>w' T'. keepalive_rounds (replicate 256 (mk_tok JSMN_STRING 0 0 0)) blank_msg (sa4 7 6666) (sa4 9 1) 5555
      [[OpUpdate (sa4 5 80), OpTick, OpTick, OpTick, OpTick, OpTick, OpTick, OpTick, OpTick, OpTick], [OpRemove (sa4 5 80), OpTick, OpTick, OpTick, OpTick, OpTick, OpTick, OpTick, OpTick, OpTick]] (udp_net [UdpSent, UdpSent]) client_table =
      Some (w', T') \<and> delta_contains (sa4 9 5555) T' = Some 1"
proof -
  let ?rounds = "[[OpUpdate (sa4 5 80), OpTick, OpTick, OpTick, OpTick, OpTick, OpTick, OpTick, OpTick, OpTick], [OpRemove (sa4 5 80), OpTick, OpTick, OpTick, OpTick, OpTick, OpTick, OpTick, OpTick, OpTick]]"
  have c: "registered (sa4 9 1) 5555 = sa4 9 5555" by (simp add: registered_def)
  have ok: "rounds_ok (registered (sa4 9 1) 5555) ?rounds []"
    unfolding c by (simp add: round_ok_def round_spec_def ticks_def DIR_KEEPALIVE_INTERVAL_def hits_last_def spec_update_def
      spec_remove_def spec_tick_def)
  show ?thesis
    using keepalive_stays_registered [OF client_table_rep _ _ _ _ ok, of "replicate 256 (mk_tok JSMN_STRING 0 0 0)"
      "udp_net [UdpSent, UdpSent]" "[]" blank_msg "sa4 7 6666"] unfolding c
    by (auto simp: udp_net_def numeral_2_eq_2 sa4_def)
qed

end
