(* ===== verification/Locking.thy ===== *)
theory Locking
  imports Main
begin

text \<open>
  The mutexes of both services: the counter of threads (\<^verbatim>\<open>common/server.c\<close> and the services), the list of
  routers (\<^verbatim>\<open>router/router.c\<close>), and the two tables of the kind of \<^verbatim>\<open>common/deltalist.c\<close>. What a function does
  with them is the list of its calls of \<open>pthread_mutex_lock\<close> and \<open>pthread_mutex_unlock\<close> in the order in which the
  code makes them, those of the functions it calls included; where that depends on the data, the outcome is an argument.
  The other theories treat each such function as one step; here the threads interleave between any two calls.
\<close>

section \<open>Model\<close>

datatype lock = NumThreads | Routers | Clients | Cache

datatype lock_act = Lock lock | Unlock lock

text \<open>An operation of a table (\<open>delta_insert\<close>, \<open>delta_update\<close>, \<open>delta_remove\<close>, \<open>delta_contains\<close>, \<open>delta_get\<close>,
  \<open>delta_clear\<close>, \<open>delta_foreach\<close>, \<open>delta_size\<close>, \<open>delta_tick\<close>): every one locks once and unlocks once on each of its paths,
  and no callback of a table takes a lock.\<close>

definition table_op_locks :: "lock \<Rightarrow> lock_act list" where
  "table_op_locks l = [Lock l, Unlock l]"

definition flood_message_locks :: "lock_act list" where
  "flood_message_locks = [Lock Routers] @ table_op_locks Clients @ [Unlock Routers]"

definition routers_to_json_locks :: "lock_act list" where
  "routers_to_json_locks = [Lock Routers, Unlock Routers]"

text \<open>A turn of the outer loop of \<open>router_update_thread\<close>: any number of failed requests, each of which unlocks before it
  sleeps, and one that succeeds (or the thread never gets there).\<close>

definition update_locks :: "nat \<Rightarrow> bool \<Rightarrow> lock_act list" where
  "update_locks failures succeeds =
     concat (replicate failures [Lock Routers, Unlock Routers]) @ (if succeeds then [Lock Routers, Unlock Routers] else [])"

text \<open>A turn of a server, whether the limit is reached or not.\<close>

definition server_turn_locks :: "lock_act list" where
  "server_turn_locks = [Lock NumThreads, Unlock NumThreads]"

datatype broadcast_outcome = Ignored | Duplicate | Forwarded

definition broadcast_locks :: "broadcast_outcome \<Rightarrow> lock_act list" where
  "broadcast_locks r =
     (case r of
        Ignored \<Rightarrow> []
      | Duplicate \<Rightarrow> table_op_locks Cache
      | Forwarded \<Rightarrow> table_op_locks Cache @ flood_message_locks)"

text \<open>The requests of both services; the flag says whether the arguments are accepted.\<close>

datatype request = NoLocks | TrackerInfo | TrackerList bool | TrackerConnect bool | TrackerDisconnect bool
  | RouterInfo | RouterDiscover bool | RouterConnect bool | RouterBroadcast broadcast_outcome

fun request_locks :: "request \<Rightarrow> lock_act list" where
  "request_locks NoLocks = []"
| "request_locks TrackerInfo = table_op_locks Clients"
| "request_locks (TrackerList ok) = (if ok then table_op_locks Clients else [])"
| "request_locks (TrackerConnect ok) = (if ok then table_op_locks Clients else [])"
| "request_locks (TrackerDisconnect ok) = (if ok then table_op_locks Clients else [])"
| "request_locks RouterInfo = table_op_locks Clients @ table_op_locks Cache"
| "request_locks (RouterDiscover ok) = (if ok then routers_to_json_locks else [])"
| "request_locks (RouterConnect ok) = (if ok then table_op_locks Clients else [])"
| "request_locks (RouterBroadcast r) = broadcast_locks r"

text \<open>A callback serves its requests (a datagram is one) and then takes itself off the counter.\<close>

definition callback_locks :: "request list \<Rightarrow> lock_act list" where
  "callback_locks rs = concat (map request_locks rs) @ [Lock NumThreads, Unlock NumThreads]"

datatype turn = ServerTurn | Callback "request list" | ClientTick | CacheTick | UpdateTurn nat bool

fun turn_locks :: "turn \<Rightarrow> lock_act list" where
  "turn_locks ServerTurn = server_turn_locks"
| "turn_locks (Callback rs) = callback_locks rs"
| "turn_locks ClientTick = table_op_locks Clients"
| "turn_locks CacheTick = table_op_locks Cache"
| "turn_locks (UpdateTurn failures succeeds) = update_locks failures succeeds"

text \<open>What each thread still has to do in its turn, and who holds which mutex. A thread that waits for a mutex has no
  step; \<open>pthread_mutex_unlock\<close> frees the mutex whoever holds it.\<close>

record lock_state =
  todo :: "lock_act list list"
  holder :: "lock \<Rightarrow> nat option"

definition idle :: "nat \<Rightarrow> lock_state" where
  "idle n = \<lparr>todo = replicate n [], holder = (\<lambda>_. None)\<rparr>"

inductive lock_step :: "lock_state \<Rightarrow> lock_state \<Rightarrow> bool" where
  acquire: "i < length (todo s) \<Longrightarrow> todo s ! i = Lock l # as \<Longrightarrow> holder s l = None \<Longrightarrow>
    lock_step s (s\<lparr>todo := (todo s)[i := as], holder := (holder s)(l := Some i)\<rparr>)"
| release: "i < length (todo s) \<Longrightarrow> todo s ! i = Unlock l # as \<Longrightarrow>
    lock_step s (s\<lparr>todo := (todo s)[i := as], holder := (holder s)(l := None)\<rparr>)"

inductive thread_step :: "lock_state \<Rightarrow> lock_state \<Rightarrow> bool" where
  step: "lock_step s s' \<Longrightarrow> thread_step s s'"
| begins: "i < length (todo s) \<Longrightarrow> todo s ! i = [] \<Longrightarrow> thread_step s (s\<lparr>todo := (todo s)[i := turn_locks t]\<rparr>)"

inductive_cases lock_stepE: "lock_step s s'"

section \<open>Lock order\<close>

text \<open>The list of routers is locked before the table of clients; no other two mutexes are held together.\<close>

fun rank :: "lock \<Rightarrow> nat" where
  "rank NumThreads = 0"
| "rank Routers = 0"
| "rank Clients = 1"
| "rank Cache = 1"

fun ordered :: "lock list \<Rightarrow> lock_act list \<Rightarrow> bool" where
  "ordered hs [] = (hs = [])"
| "ordered hs (Lock l # as) = ((\<forall>h\<in>set hs. rank h < rank l) \<and> ordered (l # hs) as)"
| "ordered [] (Unlock l # as) = False"
| "ordered (h # hs) (Unlock l # as) = (h = l \<and> ordered hs as)"

lemma ordered_append: "ordered hs as \<Longrightarrow> ordered [] bs \<Longrightarrow> ordered hs (as @ bs)"
  by (induction hs as rule: ordered.induct) auto

lemma ordered_concat: "\<forall>as\<in>set ass. ordered [] as \<Longrightarrow> ordered [] (concat ass)"
  by (induction ass) (auto intro: ordered_append)

lemma request_ordered: "ordered [] (request_locks q)"
  by (cases q) (simp_all add: table_op_locks_def routers_to_json_locks_def broadcast_locks_def flood_message_locks_def
      split: broadcast_outcome.splits)

lemma turn_ordered: "ordered [] (turn_locks t)"
proof (cases t)
  case (Callback rs)
  have "ordered [] (concat (map request_locks rs))" by (rule ordered_concat) (simp add: request_ordered)
  then show ?thesis unfolding Callback turn_locks.simps callback_locks_def by (rule ordered_append) simp
next
  case (UpdateTurn failures succeeds)
  have "ordered [] (concat (replicate failures [Lock Routers, Unlock Routers]))" by (rule ordered_concat) simp
  then show ?thesis unfolding UpdateTurn turn_locks.simps update_locks_def by (rule ordered_append) simp
qed (simp_all add: server_turn_locks_def table_op_locks_def)

text \<open>Each thread has a stack of mutexes, which it will release in order and which it alone holds.\<close>

definition locks_ok :: "(nat \<Rightarrow> lock list) \<Rightarrow> lock_state \<Rightarrow> bool" where
  "locks_ok H s \<longleftrightarrow> (\<forall>i < length (todo s). ordered (H i) (todo s ! i)) \<and>
     (\<forall>l i. holder s l = Some i \<longleftrightarrow> i < length (todo s) \<and> l \<in> set (H i)) \<and> (\<forall>i. distinct (H i))"

lemma ordered_distinct: "ordered hs as \<Longrightarrow> as = Lock l # bs \<Longrightarrow> l \<notin> set hs"
  by auto

lemma lock_step_ok:
  assumes "lock_step s s'" and ok: "locks_ok H s"
  shows "\<exists>H'. locks_ok H' s'"
  using assms(1)
proof (cases rule: lock_step.cases)
  case (acquire i l as)
  have o: "ordered (H i) (Lock l # as)" using ok acquire(2,3) by (metis locks_ok_def)
  have l: "l \<notin> set (H j)" if "j < length (todo s)" for j using ok acquire(4) that by (force simp: locks_ok_def)
  have "locks_ok (H(i := l # H i)) s'"
    using ok o l acquire by (auto simp: locks_ok_def nth_list_update)
  then show ?thesis by blast
next
  case (release i l as)
  have o: "ordered (H i) (Unlock l # as)" using ok release(2,3) by (metis locks_ok_def)
  then obtain hs where hs: "H i = l # hs" "ordered hs as" by (cases "H i") auto
  have d: "l \<notin> set hs" "distinct hs" using ok hs(1) by (metis locks_ok_def distinct.simps(2))+
  have u: "l \<notin> set (H j)" if "j < length (todo s)" "j \<noteq> i" for j
  proof
    assume "l \<in> set (H j)"
    then have "holder s l = Some j" "holder s l = Some i" using ok that(1) hs(1) release(2) by (auto simp: locks_ok_def)
    then show False using that(2) by simp
  qed
  have "locks_ok (H(i := hs)) s'"
    using ok hs d u release by (auto simp: locks_ok_def nth_list_update)
  then show ?thesis by blast
qed

lemma thread_step_ok: "thread_step s s' \<Longrightarrow> locks_ok H s \<Longrightarrow> \<exists>H'. locks_ok H' s'"
proof (induction rule: thread_step.induct)
  case (begins i s t)
  then have "ordered (H i) []" by (metis locks_ok_def)
  then have "locks_ok H (s\<lparr>todo := (todo s)[i := turn_locks t]\<rparr>)"
    using begins turn_ordered by (auto simp: locks_ok_def nth_list_update)
  then show ?case by blast
qed (rule lock_step_ok)

lemma reach_ok:
  assumes "thread_step\<^sup>*\<^sup>* (idle n) s"
  shows "\<exists>H. locks_ok H s"
  using assms
proof (induction rule: rtranclp_induct)
  case base
  have "locks_ok (\<lambda>_. []) (idle n)" by (simp add: locks_ok_def idle_def)
  then show ?case by blast
qed (use thread_step_ok in blast)

section \<open>Progress\<close>

text \<open>The thread is between locking \<open>l\<close> and unlocking it: it has one more call to unlock it to make.\<close>

definition inside :: "lock \<Rightarrow> lock_act list \<Rightarrow> bool" where
  "inside l as \<longleftrightarrow> count_list as (Lock l) < count_list as (Unlock l)"

lemma ordered_count: "ordered hs as \<Longrightarrow> count_list as (Unlock l) = count_list as (Lock l) + count_list hs l"
  by (induction hs as rule: ordered.induct) auto

lemma ordered_inside: "ordered hs as \<Longrightarrow> inside l as \<longleftrightarrow> l \<in> set hs"
  using ordered_count [of hs as l] count_list_0_iff [of hs l] by (auto simp: inside_def)

lemma rank_le: "rank l \<le> 1"
  by (cases l) simp_all

lemma ordered_blocked: "ordered hs (Lock l' # as) \<Longrightarrow> l \<in> set hs \<Longrightarrow> rank l < rank l'"
  by auto

lemma lock_progress:
  assumes ok: "locks_ok H s" and i: "i < length (todo s)" "todo s ! i \<noteq> []"
  shows "\<exists>s'. lock_step s s'"
proof (rule ccontr)
  assume stuck: "\<nexists>s'. lock_step s s'"
  have wait: "\<exists>l j. todo s ! i = Lock l # tl (todo s ! i) \<and> j < length (todo s) \<and> l \<in> set (H j)"
    if i: "i < length (todo s)" "todo s ! i \<noteq> []" for i
  proof -
    obtain a as where a: "todo s ! i = a # as" using i(2) by (cases "todo s ! i") auto
    obtain l where l: "a = Lock l" "holder s l \<noteq> None"
      using stuck lock_step.release [OF i(1)] lock_step.acquire [OF i(1)] a by (cases a) blast+
    then obtain j where "j < length (todo s)" "l \<in> set (H j)" using ok by (auto simp: locks_ok_def)
    then show ?thesis using a l(1) by auto
  qed
  have up: "\<exists>j l'. j < length (todo s) \<and> todo s ! j = Lock l' # tl (todo s ! j) \<and> rank l < rank l'"
    if i: "i < length (todo s)" "todo s ! i = Lock l # as" for i l as
  proof -
    obtain j where j: "j < length (todo s)" "l \<in> set (H j)" using wait [OF i(1)] i(2) by auto
    have o: "ordered (H j) (todo s ! j)" using ok j(1) by (simp add: locks_ok_def)
    then have "todo s ! j \<noteq> []" using j(2) by (cases "todo s ! j") auto
    then obtain l' where l': "todo s ! j = Lock l' # tl (todo s ! j)" using wait [OF j(1)] by blast
    then have "rank l < rank l'" using ordered_blocked [of "H j" l'] o j(2) by metis
    then show ?thesis using j(1) l' by blast
  qed
  obtain l where "todo s ! i = Lock l # tl (todo s ! i)" using wait [OF i] by blast
  then obtain j l' where j: "j < length (todo s)" "todo s ! j = Lock l' # tl (todo s ! j)" "rank l < rank l'"
    using up [OF i(1)] by blast
  obtain l'' where "rank l' < rank l''" using up [OF j(1,2)] by blast
  then show False using j(3) rank_le [of l''] by simp
qed

lemma lock_step_length:
  assumes "lock_step s s'"
  shows "length (todo s') = length (todo s) \<and> length (concat (todo s')) < length (concat (todo s))"
proof -
  have "length (concat (xss[i := as])) + 1 = length (concat xss)" if "i < length xss" "xss ! i = a # as" for xss :: "lock_act list list" and i a as
    using that by (induction xss arbitrary: i) (auto simp: nth_Cons split: nat.splits)
  then show ?thesis using assms by (auto elim!: lock_stepE) (metis Suc_eq_plus1 lessI)+
qed

lemma locks_drain:
  "locks_ok H s \<Longrightarrow> \<exists>s'. lock_step\<^sup>*\<^sup>* s s' \<and> s' = idle (length (todo s))"
proof (induction "length (concat (todo s))" arbitrary: H s rule: less_induct)
  case less
  show ?case
  proof (cases "\<exists>i < length (todo s). todo s ! i \<noteq> []")
    case True
    then obtain s1 where s1: "lock_step s s1" using lock_progress [OF less.prems] by blast
    obtain H1 where "locks_ok H1 s1" using lock_step_ok [OF s1 less.prems] by blast
    then obtain s' where "lock_step\<^sup>*\<^sup>* s1 s'" "s' = idle (length (todo s1))"
      using less.hyps lock_step_length [OF s1] by blast
    then show ?thesis using s1 lock_step_length [OF s1] converse_rtranclp_into_rtranclp [of lock_step s s1] by auto
  next
    case False
    then have t: "todo s = replicate (length (todo s)) []" by (intro nth_equalityI) simp_all
    have "H i = []" if "i < length (todo s)" for i
      using less.prems False that by (metis locks_ok_def ordered.simps(1))
    then have "holder s l = None" for l using less.prems by (cases "holder s l") (auto simp: locks_ok_def)
    then have "holder s = (\<lambda>_. None)" by blast
    then have "s = idle (length (todo s))" using t by (cases s) (simp add: idle_def)
    then show ?thesis by auto
  qed
qed

lemma reach_length: "thread_step\<^sup>*\<^sup>* (idle n) s \<Longrightarrow> length (todo s) = n"
proof (induction rule: rtranclp_induct)
  case (step s1 s2)
  from step(2) show ?case by (cases rule: thread_step.cases) (use step(3) lock_step_length in auto)
qed (simp add: idle_def)

section \<open>Properties\<close>

text \<open>C34. No deadlock and mutual exclusion, for any number of threads and any sequence of turns: in every reachable state a mutex
  is held by a thread exactly when that thread is between locking and unlocking it, so by one thread at
  most, and a thread only unlocks what it holds. When some thread has a call to
  make, some thread can make one; and the turns that have begun can all be finished, with every mutex free at the end. (The set-up of
  the datagram server initialises the mutex of the counter a second time; the states are those after it.)\<close>

theorem no_deadlock:
  assumes "thread_step\<^sup>*\<^sup>* (idle n) s"
  shows "(\<forall>i < n. \<forall>l. holder s l = Some i \<longleftrightarrow> inside l (todo s ! i)) \<and>
    (\<forall>i < n. \<forall>l as. todo s ! i = Unlock l # as \<longrightarrow> holder s l = Some i) \<and>
    ((\<exists>i < n. todo s ! i \<noteq> []) \<longrightarrow> (\<exists>s'. lock_step s s')) \<and> lock_step\<^sup>*\<^sup>* s (idle n)"
proof -
  obtain H where ok: "locks_ok H s" using reach_ok [OF assms] by blast
  have n: "length (todo s) = n" by (rule reach_length [OF assms])
  have o: "ordered (H i) (todo s ! i)" if "i < n" for i using ok that n by (simp add: locks_ok_def)
  have h: "holder s l = Some i \<longleftrightarrow> l \<in> set (H i)" if "i < n" for i l using ok that n by (simp add: locks_ok_def)
  have u: "l \<in> set (H i)" if "i < n" "todo s ! i = Unlock l # as" for i l as
    using o [OF that(1)] that(2) by (cases "H i") auto
  have i: "holder s l = Some i \<longleftrightarrow> inside l (todo s ! i)" if "i < n" for i l
    using h [OF that] ordered_inside [OF o [OF that]] by simp
  have d: "lock_step\<^sup>*\<^sup>* s (idle n)" using locks_drain [OF ok] n by blast
  have p: "\<exists>s'. lock_step s s'" if "\<exists>i < n. todo s ! i \<noteq> []" using that lock_progress [OF ok] n by blast
  show ?thesis
  proof (intro conjI allI impI)
    show "holder s l = Some i \<longleftrightarrow> inside l (todo s ! i)" if "i < n" for i l by (rule i [OF that])
    show "holder s l = Some i" if "i < n" "todo s ! i = Unlock l # as" for i l as
      using h [OF that(1)] u [OF that] by simp
  qed (use p d in simp_all)
qed

lemma no_deadlock_witness:
  "\<exists>s. thread_step\<^sup>*\<^sup>* (idle 2) s \<and> todo s = [[Lock Clients, Unlock Clients, Unlock Routers, Lock NumThreads, Unlock NumThreads],
      [Lock Routers, Unlock Routers, Lock Routers, Unlock Routers]] \<and> holder s Routers = Some 0 \<and> lock_step\<^sup>*\<^sup>* s (idle 2)"
proof -
  let ?s1 = "(idle 2)\<lparr>todo := (todo (idle 2))[0 := turn_locks (Callback [RouterBroadcast Forwarded])]\<rparr>"
  let ?s2 = "?s1\<lparr>todo := (todo ?s1)[1 := turn_locks (UpdateTurn (Suc 0) True)]\<rparr>"
  let ?f = "[Lock Clients, Unlock Clients, Unlock Routers, Lock NumThreads, Unlock NumThreads]"
  have t: "turn_locks (Callback [RouterBroadcast Forwarded]) = Lock Cache # Unlock Cache # Lock Routers # ?f"
    "turn_locks (UpdateTurn (Suc 0) True) = [Lock Routers, Unlock Routers, Lock Routers, Unlock Routers]"
    by (simp_all add: callback_locks_def broadcast_locks_def flood_message_locks_def table_op_locks_def update_locks_def)
  have a: "thread_step (idle 2) ?s1" by (rule thread_step.begins) (simp_all add: idle_def)
  have b: "thread_step ?s1 ?s2" by (rule thread_step.begins) (simp_all add: idle_def)
  let ?s3 = "?s2\<lparr>todo := (todo ?s2)[0 := Unlock Cache # Lock Routers # ?f], holder := (holder ?s2)(Cache := Some 0)\<rparr>"
  let ?s4 = "?s3\<lparr>todo := (todo ?s3)[0 := Lock Routers # ?f], holder := (holder ?s3)(Cache := None)\<rparr>"
  let ?s5 = "?s4\<lparr>todo := (todo ?s4)[0 := ?f], holder := (holder ?s4)(Routers := Some 0)\<rparr>"
  have c: "thread_step ?s2 ?s3" by (intro thread_step.step lock_step.acquire) (simp_all add: idle_def t del: turn_locks.simps)
  have d: "thread_step ?s3 ?s4" by (intro thread_step.step lock_step.release) (simp_all add: idle_def)
  have e: "thread_step ?s4 ?s5" by (intro thread_step.step lock_step.acquire) (simp_all add: idle_def)
  have r: "thread_step\<^sup>*\<^sup>* (idle 2) ?s5"
    using a b c d e by (meson rtranclp.rtrancl_into_rtrancl rtranclp.rtrancl_refl)
  have "todo ?s5 = [?f, [Lock Routers, Unlock Routers, Lock Routers, Unlock Routers]]" "holder ?s5 Routers = Some 0"
    by (simp_all add: idle_def t numeral_2_eq_2 del: turn_locks.simps)
  then show ?thesis using r no_deadlock [OF r] by blast
qed

end
