(* ===== verification/Ini.thy ===== *)
theory Ini
  imports C_Strings
begin

text \<open>
  The configuration file parser, \<^verbatim>\<open>src/common/ini.c\<close>. A pointer into a line is the C string it
  points to, without its NUL; what the code cuts off with a NUL is never read again. The handler
  takes a section, a name and a value and changes a state \<open>'s\<close>.
\<close>

section \<open>Model\<close>

definition MAX_SECTION :: nat where "MAX_SECTION = 50"
definition MAX_NAME :: nat where "MAX_NAME = 50"
definition INI_MAX_LINE :: nat where "INI_MAX_LINE = 200"

definition rstrip :: "string \<Rightarrow> string" where
  "rstrip s = rev (dropWhile c_isspace (rev s))"

definition lskip :: "string \<Rightarrow> string" where
  "lskip s = dropWhile c_isspace s"

text \<open>How far the search goes: to the character \<open>c\<close>, to a comment, or to the end.\<close>

fun find_from :: "bool \<Rightarrow> char \<Rightarrow> string \<Rightarrow> nat" where
  "find_from was_ws c [] = 0"
| "find_from was_ws c (x # s) =
     (if x \<noteq> c \<and> \<not> (was_ws \<and> x = CHR '';'') then Suc (find_from (c_isspace x) c s) else 0)"

definition find_char_or_comment :: "string \<Rightarrow> char \<Rightarrow> nat" where
  "find_char_or_comment s c = find_from False c s"

definition strncpy0 :: "string \<Rightarrow> nat \<Rightarrow> string" where
  "strncpy0 src sz = take (sz - 1) src"

text \<open>The character a pointer points to; NUL at the end of the string.\<close>

definition char_at :: "string \<Rightarrow> nat \<Rightarrow> char" where
  "char_at s i = (if i < length s then s ! i else NUL)"

record ini =
  ini_section :: string
  prev_name :: string
  lineno :: int
  ini_error :: int

type_synonym 's handler = "string \<Rightarrow> string \<Rightarrow> string \<Rightarrow> 's \<Rightarrow> (int \<times> 's) option"

definition set_error :: "ini \<Rightarrow> ini" where
  "set_error st = (if ini_error st = 0 then st\<lparr>ini_error := lineno st\<rparr> else st)"

text \<open>A call of the handler; its result 0 is an error.\<close>

definition call_handler :: "'s handler \<Rightarrow> string \<Rightarrow> string \<Rightarrow> ini \<Rightarrow> 's \<Rightarrow> (ini \<times> 's) option" where
  "call_handler handler name val st u = do {
     (rc, u) \<leftarrow> handler (ini_section st) name val u;
     Some (if rc = 0 then set_error st else st, u)
   }"

definition bom :: "string \<Rightarrow> bool" where
  "bom s \<longleftrightarrow> char_at s 0 = CHR 0xEF \<and> char_at s 1 = CHR 0xBB \<and> char_at s 2 = CHR 0xBF"

text \<open>The body of the loop, for the line that \<open>fgets\<close> has read.\<close>

definition ini_line :: "'s handler \<Rightarrow> string \<Rightarrow> ini \<Rightarrow> 's \<Rightarrow> (ini \<times> 's) option" where
  "ini_line handler line st u =
     (let st = st\<lparr>lineno := lineno st + 1\<rparr>;
          skipped = (if lineno st = 1 \<and> bom line then 3 else 0);
          stripped = rstrip (drop skipped line);
          start = lskip stripped;
          offset = skipped + (length stripped - length start);
          c = char_at start 0
      in
      if c = CHR '';'' \<or> c = CHR ''#'' then Some (st, u)
      else if prev_name st \<noteq> [] \<and> start \<noteq> [] \<and> 0 < offset then
        call_handler handler (prev_name st) start st u
      else if c = CHR ''['' then
        (let rest = drop 1 start; e = find_char_or_comment rest (CHR '']'') in
         if char_at rest e = CHR '']'' then
           Some (st\<lparr>ini_section := strncpy0 (take e rest) MAX_SECTION, prev_name := []\<rparr>, u)
         else Some (set_error st, u))
      else if start \<noteq> [] \<and> c \<noteq> CHR '';'' then
        (let e1 = find_char_or_comment start (CHR ''='');
             e = (if char_at start e1 \<noteq> CHR ''='' then find_char_or_comment start (CHR '':'') else e1)
         in
         if char_at start e = CHR ''='' \<or> char_at start e = CHR '':'' then
           (let name = rstrip (take e start);
                val = lskip (drop (e + 1) start);
                f = find_char_or_comment val NUL;
                val = rstrip (if char_at val f = CHR '';'' then take f val else val)
            in call_handler handler name val (st\<lparr>prev_name := strncpy0 name MAX_NAME\<rparr>) u)
         else Some (set_error st, u))
      else Some (st, u))"

text \<open>\<open>fgets (line, size, file)\<close>: at most \<open>size - 1\<close> characters, up to and including a newline.\<close>

fun fgets_from :: "nat \<Rightarrow> char list \<Rightarrow> char list \<times> char list" where
  "fgets_from 0 cs = ([], cs)"
| "fgets_from (Suc n) [] = ([], [])"
| "fgets_from (Suc n) (c # cs) =
     (if c = LF then ([c], cs) else (let (l, r) = fgets_from n cs in (c # l, r)))"

lemma fgets_from_length: "length (snd (fgets_from n cs)) \<le> length cs"
  by (induction n cs rule: fgets_from.induct) (auto simp: Let_def split: prod.splits)

lemma fgets_from_less: "cs \<noteq> [] \<Longrightarrow> 0 < n \<Longrightarrow> length (snd (fgets_from n cs)) < length cs"
  using fgets_from_length [of "n - 1" "tl cs"]
  by (cases n; cases cs) (auto simp: Let_def split: prod.splits)

function ini_loop :: "'s handler \<Rightarrow> char list \<Rightarrow> ini \<Rightarrow> 's \<Rightarrow> (ini \<times> 's) option" where
  "ini_loop handler file st u =
     (if file = [] then Some (st, u)
      else do {
        (st, u) \<leftarrow> ini_line handler (cstr (fst (fgets_from (INI_MAX_LINE - 1) file))) st u;
        ini_loop handler (snd (fgets_from (INI_MAX_LINE - 1) file)) st u
      })"
  by pat_completeness auto
termination
  by (relation "measure (\<lambda>(_, file, _, _). length file)") (auto intro!: fgets_from_less simp: INI_MAX_LINE_def)

declare ini_loop.simps [simp del]

definition ini_parse_file :: "'s handler \<Rightarrow> char list \<Rightarrow> 's \<Rightarrow> (int \<times> 's) option" where
  "ini_parse_file handler file u = do {
     (st, u) \<leftarrow> ini_loop handler file \<lparr>ini_section = [], prev_name = [], lineno = 0, ini_error = 0\<rparr> u;
     Some (ini_error st, u)
   }"

text \<open>\<open>None\<close>: the file could not be opened.\<close>

definition ini_parse :: "'s handler \<Rightarrow> char list option \<Rightarrow> 's \<Rightarrow> (int \<times> 's) option" where
  "ini_parse handler file u = (case file of None \<Rightarrow> Some (-1, u) | Some f \<Rightarrow> ini_parse_file handler f u)"

section \<open>Configuration files\<close>

datatype cfg_line = Section string | KeyVal string string | Comment string | Blank

fun render_line :: "cfg_line \<Rightarrow> string" where
  "render_line (Section s) = ''['' @ s @ '']''"
| "render_line (KeyVal n v) = n @ ''='' @ v"
| "render_line (Comment t) = '';'' @ t"
| "render_line Blank = []"

definition render_cfg :: "cfg_line list \<Rightarrow> string" where
  "render_cfg ls = concat (map (\<lambda>l. render_line l @ [LF]) ls)"

text \<open>A text without blanks at its ends.\<close>

definition trimmed :: "string \<Rightarrow> bool" where
  "trimmed s \<longleftrightarrow> s = [] \<or> \<not> c_isspace (hd s) \<and> \<not> c_isspace (last s)"

definition plain :: "string \<Rightarrow> bool" where
  "plain s \<longleftrightarrow> NUL \<notin> set s \<and> LF \<notin> set s"

fun line_ok :: "cfg_line \<Rightarrow> bool" where
  "line_ok (Section s) \<longleftrightarrow> plain s \<and> CHR '';'' \<notin> set s \<and> CHR '']'' \<notin> set s \<and> length s < MAX_SECTION"
| "line_ok (KeyVal n v) \<longleftrightarrow> plain (n @ v) \<and> CHR '';'' \<notin> set (n @ v) \<and> CHR ''='' \<notin> set n \<and> n \<noteq> [] \<and>
     hd n \<notin> {CHR ''['', CHR ''#'', CHR 0xEF} \<and> trimmed n \<and> trimmed v \<and> length n + length v < INI_MAX_LINE - 2"
| "line_ok (Comment t) \<longleftrightarrow> plain t \<and> length t < INI_MAX_LINE - 2"
| "line_ok Blank \<longleftrightarrow> True"

text \<open>The calls of the handler that a file asks for.\<close>

fun cfg_calls :: "string \<Rightarrow> cfg_line list \<Rightarrow> (string \<times> string \<times> string) list" where
  "cfg_calls sec [] = []"
| "cfg_calls sec (Section s # ls) = cfg_calls s ls"
| "cfg_calls sec (KeyVal n v # ls) = (sec, n, v) # cfg_calls sec ls"
| "cfg_calls sec (Comment t # ls) = cfg_calls sec ls"
| "cfg_calls sec (Blank # ls) = cfg_calls sec ls"

definition apply_call :: "'s handler \<Rightarrow> string \<times> string \<times> string \<Rightarrow> 's \<Rightarrow> 's option" where
  "apply_call handler c u = map_option snd (handler (fst c) (fst (snd c)) (snd (snd c)) u)"

lemma apply_call_Some: "apply_call h (s, n, v) u = Some u' \<longleftrightarrow> (\<exists>rc. h s n v u = Some (rc, u'))"
  by (auto simp: apply_call_def)

lemma fgets_line: "LF \<notin> set l \<Longrightarrow> length l < n \<Longrightarrow> fgets_from n (l @ LF # rest) = (l @ [LF], rest)"
proof (induction l arbitrary: n)
  case Nil
  then show ?case by (cases n) auto
next
  case (Cons c l)
  then show ?case by (cases n) auto
qed

lemma space_LF [simp]: "c_isspace LF" "\<not> c_isspace NUL" "\<not> c_isspace CHR ''[''" "\<not> c_isspace CHR '']''"
  "\<not> c_isspace CHR ''=''" "\<not> c_isspace CHR '';''"
  by (simp_all add: c_isspace_def)

lemma rstrip_LF: "rstrip (s @ [LF]) = rstrip s"
  by (simp add: rstrip_def)

lemma strip_id:
  "s = [] \<or> \<not> c_isspace (last s) \<Longrightarrow> rstrip s = s"
  "s = [] \<or> \<not> c_isspace (hd s) \<Longrightarrow> lskip s = s"
  by (cases s rule: rev_cases; auto simp: rstrip_def) (cases s; auto simp: lskip_def)

lemma find_skip: "c \<notin> set s \<Longrightarrow> CHR '';'' \<notin> set s \<Longrightarrow> find_from b c (s @ c # t) = length s"
  by (induction s arbitrary: b) auto

lemma find_none: "c \<notin> set s \<Longrightarrow> CHR '';'' \<notin> set s \<Longrightarrow> find_from b c s = length s"
  by (induction s arbitrary: b) auto

lemma char_at_append: "char_at (s @ c # t) (length s) = c" "char_at s (length s) = NUL" "char_at (c # s) 0 = c"
  by (simp_all add: char_at_def)

text \<open>The line as the loop sees it: without the newline, and not indented.\<close>

lemma ini_line_start:
  assumes "NUL \<notin> set s" "s \<noteq> []" "\<not> c_isspace (hd s)" "\<not> c_isspace (last s)" "hd s \<noteq> CHR 0xEF"
  shows "rstrip (s @ [LF]) = s" "lskip s = s" "\<not> bom (s @ [LF])" "char_at s 0 = hd s" "cstr (s @ [LF]) = s @ [LF]"
proof -
  show "rstrip (s @ [LF]) = s" "lskip s = s" using assms strip_id [of s] by (auto simp: rstrip_LF)
  show "char_at s 0 = hd s" "\<not> bom (s @ [LF])" using assms by (cases s; auto simp: bom_def char_at_def)+
  have "\<forall>c \<in> set (s @ [LF]). c \<noteq> NUL" using assms(1) by auto
  then show "cstr (s @ [LF]) = s @ [LF]" unfolding cstr_def takeWhile_eq_all_conv .
qed

lemma section_line:
  assumes "line_ok (Section s)" "ini_error st = 0"
  shows "\<exists>st'. ini_line h (cstr (render_line (Section s) @ [LF])) st u = Some (st', u) \<and> ini_error st' = 0 \<and> ini_section st' = s"
proof -
  let ?s = "render_line (Section s)"
  have n: "NUL \<notin> set ?s" "?s \<noteq> []" "\<not> c_isspace (hd ?s)" "\<not> c_isspace (last ?s)" "hd ?s \<noteq> CHR 0xEF"
    using assms(1) by (auto simp: plain_def)
  have f: "find_char_or_comment (s @ '']'') (CHR '']'') = length s"
    using assms(1) find_skip [of "CHR '']''" s False "[]"] by (simp add: find_char_or_comment_def)
  have t: "strncpy0 s MAX_SECTION = s" using assms(1) by (auto simp: strncpy0_def)
  have "char_at (s @ '']'') (length s) = CHR '']''" using char_at_append(1) [of s "CHR '']''" "[]"] by simp
  then show ?thesis using ini_line_start [OF n] assms(2) f t
    by (simp add: ini_line_def Let_def)
qed

lemma pair_line:
  assumes "line_ok (KeyVal n v)" "ini_error st = 0" "h (ini_section st) n v u = Some (rc, u')" "rc \<noteq> 0"
  shows "\<exists>st'. ini_line h (cstr (render_line (KeyVal n v) @ [LF])) st u = Some (st', u') \<and> ini_error st' = 0 \<and>
    ini_section st' = ini_section st"
proof -
  let ?s = "render_line (KeyVal n v)"
  have l: "last ?s = (if v = [] then CHR ''='' else last v)" by simp
  have hd: "hd ?s = hd n" using assms(1) by simp
  have ok: "NUL \<notin> set ?s" "?s \<noteq> []" "\<not> c_isspace (hd ?s)" "\<not> c_isspace (last ?s)" "hd ?s \<noteq> CHR 0xEF"
    using assms(1) unfolding l hd by (auto simp: plain_def trimmed_def)
  have c: "hd n \<noteq> CHR '';''" using assms(1) hd_in_set [of n] by (metis Un_iff line_ok.simps(2) set_append)
  have f: "find_char_or_comment ?s (CHR ''='') = length n"
    using assms(1) find_skip [of "CHR ''=''" n False v] by (simp add: find_char_or_comment_def)
  have g: "find_char_or_comment v NUL = length v"
    using assms(1) find_none [of NUL v False] by (simp add: find_char_or_comment_def plain_def)
  have e: "char_at ?s (length n) = CHR ''=''" using char_at_append(1) [of n "CHR ''=''" v] by simp
  have tr: "rstrip n = n" "lskip v = v" "rstrip v = v"
    using assms(1) strip_id [of n] strip_id [of v] by (auto simp: trimmed_def)
  have d: "drop (length n + 1) ?s = v" "take (length n) ?s = n" by simp_all
  show ?thesis using ini_line_start [OF ok] ok(2) assms(2-4) hd c f g e tr d char_at_append(2) [of v] assms(1)
    by (simp add: ini_line_def Let_def call_handler_def del: render_line.simps)
qed

lemma other_line:
  assumes "l = Blank \<or> l = Comment t" "line_ok l" "ini_error st = 0"
  shows "\<exists>st'. ini_line h (cstr (render_line l @ [LF])) st u = Some (st', u) \<and> ini_error st' = 0 \<and>
    ini_section st' = ini_section st"
proof (cases "l = Blank")
  case True
  then show ?thesis using assms(3)
    by (simp add: ini_line_def Let_def cstr_def rstrip_def lskip_def char_at_def bom_def)
next
  case False
  then have l: "l = Comment t" using assms(1) by simp
  have "\<forall>c \<in> set (CHR '';'' # t @ [LF]). c \<noteq> NUL" using assms(2) l by (auto simp: plain_def)
  then have c: "cstr (CHR '';'' # t @ [LF]) = CHR '';'' # t @ [LF]" unfolding cstr_def takeWhile_eq_all_conv .
  have r: "\<exists>r. rstrip (CHR '';'' # t @ [LF]) = CHR '';'' # r"
  proof -
    have "rstrip (CHR '';'' # s) = CHR '';'' # rstrip s" for s
      by (simp add: rstrip_def dropWhile_append)
    then show ?thesis by simp
  qed
  then obtain r where r': "rstrip (CHR '';'' # t @ [LF]) = CHR '';'' # r" by blast
  have b: "\<not> bom (CHR '';'' # t @ [LF])" "lskip (CHR '';'' # r) = CHR '';'' # r"
    by (simp_all add: bom_def char_at_def lskip_def)
  have "ini_line h (CHR '';'' # t @ [LF]) st u = Some (st\<lparr>lineno := lineno st + 1\<rparr>, u)"
    using b r' by (simp add: ini_line_def Let_def char_at_append)
  then show ?thesis using l c assms(3) by simp
qed


lemma ini_loop_step:
  assumes "line_ok l"
  shows "ini_loop h (render_line l @ LF # rest) st u =
    do { (st, u) \<leftarrow> ini_line h (cstr (render_line l @ [LF])) st u; ini_loop h rest st u }"
proof -
  have "LF \<notin> set (render_line l)" "length (render_line l) < INI_MAX_LINE - 1"
    using assms by (cases l; auto simp: plain_def MAX_SECTION_def INI_MAX_LINE_def)+
  then show ?thesis by (subst ini_loop.simps) (simp add: fgets_line)
qed

lemma ini_loop_cfg:
  assumes h: "\<And>s n v u rc u'. h s n v u = Some (rc, u') \<Longrightarrow> rc \<noteq> 0"
  shows "list_all line_ok ls \<Longrightarrow> ini_error st = 0 \<Longrightarrow>
    foldM (apply_call h) (cfg_calls (ini_section st) ls) u = Some u' \<Longrightarrow>
    \<exists>st'. ini_loop h (render_cfg ls) st u = Some (st', u') \<and> ini_error st' = 0"
proof (induction ls arbitrary: st u)
  case Nil
  then show ?case by (simp add: render_cfg_def ini_loop.simps)
next
  case (Cons l ls)
  have l: "line_ok l" using Cons.prems(1) by simp
  have ren: "render_cfg (l # ls) = render_line l @ LF # render_cfg ls" by (simp add: render_cfg_def)
  have "\<exists>st1 u1. ini_line h (cstr (render_line l @ [LF])) st u = Some (st1, u1) \<and> ini_error st1 = 0 \<and>
      foldM (apply_call h) (cfg_calls (ini_section st1) ls) u1 = Some u'"
  proof (cases l)
    case (Section s)
    then show ?thesis using section_line [of s st h u] Cons.prems l by fastforce
  next
    case (KeyVal n v)
    then obtain rc u1 where c: "h (ini_section st) n v u = Some (rc, u1)"
      "foldM (apply_call h) (cfg_calls (ini_section st) ls) u1 = Some u'"
      using Cons.prems(3) by (auto simp: apply_call_Some bind_eq_Some_iff)
    then show ?thesis using pair_line [of n v st h u rc u1] h [OF c(1)] Cons.prems(2) l KeyVal by fastforce
  next
    case (Comment t)
    then show ?thesis using other_line [of l t st h u] Cons.prems l by fastforce
  next
    case Blank
    then show ?thesis using other_line [of l "[]" st h u] Cons.prems l by fastforce
  qed
  then obtain st1 u1 where s1: "ini_line h (cstr (render_line l @ [LF])) st u = Some (st1, u1)" "ini_error st1 = 0"
    "foldM (apply_call h) (cfg_calls (ini_section st1) ls) u1 = Some u'" by blast
  obtain st' where "ini_loop h (render_cfg ls) st1 u1 = Some (st', u')" "ini_error st' = 0"
    using Cons.IH [OF _ s1(2,3)] Cons.prems(1) by auto
  then show ?case using ren s1(1) by (simp add: ini_loop_step [OF l])
qed

lemma ini_parse_cfg:
  assumes "\<And>s n v u rc u'. h s n v u = Some (rc, u') \<Longrightarrow> rc \<noteq> 0" "list_all line_ok ls"
    "foldM (apply_call h) (cfg_calls [] ls) u = Some u'"
  shows "ini_parse h (Some (render_cfg ls)) u = Some (0, u')"
  using ini_loop_cfg [of h ls "\<lparr>ini_section = [], prev_name = [], lineno = 0, ini_error = 0\<rparr>" u u'] assms
  by (auto simp: ini_parse_def ini_parse_file_def)

end
