(* ===== verification/Startup.thy ===== *)
theory Startup
  imports Ini Tracker_Service Router_Service
begin

text \<open>
  Start-up of the two services: the command line (\<open>parse_opts\<close>) and the part of \<open>main\<close> that
  determines the settings, in \<^verbatim>\<open>src/tracker/service.c\<close> and \<^verbatim>\<open>src/router/service.c\<close>. What
  \<open>getopt_long\<close> makes of the arguments is a list of options with their arguments; \<open>CHR ''?''\<close> is
  an option it does not know. \<open>Inl ()\<close> is the end of the process by \<open>usage\<close>.
\<close>

section \<open>Command line\<close>

text \<open>The test that a number is positive and nothing follows it.\<close>

definition pos_number :: "string \<Rightarrow> (int \<times> bool) option" where
  "pos_number optarg = do {
     (v, endptr) \<leftarrow> c_strtol (optarg @ [NUL]);
     e \<leftarrow> rd endptr 0;
     Some (v, e = NUL)
   }"

fun tracker_opts :: "(char \<times> string) list \<Rightarrow> Tracker_Service.settings \<Rightarrow> (unit + Tracker_Service.settings) option" where
  "tracker_opts [] s = Some (Inr s)"
| "tracker_opts ((c, optarg) # opts) s =
     (if c = CHR ''t'' then do {
        (v, whole) \<leftarrow> pos_number optarg;
        let s = s\<lparr>Tracker_Service.max_threads := int_of_long v\<rparr>;
        if Tracker_Service.max_threads s < 1 \<or> \<not> whole then Some (Inl ()) else tracker_opts opts s
      }
      else if c = CHR ''l'' then do {
        let s = s\<lparr>Tracker_Service.listen_port := optarg\<rparr>;
        (v, whole) \<leftarrow> pos_number optarg;
        if v < 1 \<or> \<not> whole then Some (Inl ()) else tracker_opts opts s
      }
      else if c = CHR ''?'' then tracker_opts opts s
      else Some (Inl ()))"

fun router_opts :: "(char \<times> string) list \<Rightarrow> Router_Service.settings \<Rightarrow> (unit + Router_Service.settings) option" where
  "router_opts [] s = Some (Inr s)"
| "router_opts ((c, optarg) # opts) s =
     (if c = CHR ''t'' then do {
        (v, whole) \<leftarrow> pos_number optarg;
        let s = s\<lparr>Router_Service.max_threads := int_of_long v\<rparr>;
        if Router_Service.max_threads s < 1 \<or> \<not> whole then Some (Inl ()) else router_opts opts s
      }
      else if c = CHR ''l'' then do {
        let s = s\<lparr>Router_Service.listen_port := optarg\<rparr>;
        (v, whole) \<leftarrow> pos_number optarg;
        if v < 1 \<or> \<not> whole then Some (Inl ()) else router_opts opts s
      }
      else if c = CHR ''a'' then router_opts opts (s\<lparr>dir_addr := optarg\<rparr>)
      else if c = CHR ''p'' then do {
        let s = s\<lparr>dir_port := optarg\<rparr>;
        (v, whole) \<leftarrow> pos_number optarg;
        if v < 1 \<or> \<not> whole then Some (Inl ()) else router_opts opts s
      }
      else if c = CHR ''?'' then router_opts opts s
      else Some (Inl ()))"

text \<open>The settings a service runs with: the defaults, changed by the file \<open>/etc/psnetrc\<close> (\<open>None\<close>
  when it cannot be opened, which is only reported) and then by the command line.\<close>

definition tracker_main :: "char list option \<Rightarrow> (char \<times> string) list \<Rightarrow> (unit + Tracker_Service.settings) option" where
  "tracker_main rc opts = do {
     (_, s) \<leftarrow> ini_parse Tracker_Service.ini_handler rc Tracker_Service.default_settings;
     tracker_opts opts s
   }"

definition router_main :: "char list option \<Rightarrow> (char \<times> string) list \<Rightarrow> (unit + Router_Service.settings) option" where
  "router_main rc opts = do {
     (_, s) \<leftarrow> ini_parse Router_Service.ini_handler rc Router_Service.default_settings;
     router_opts opts s
   }"

section \<open>Properties\<close>

lemma c_atoi_total: "\<exists>v. c_atoi (s @ [NUL]) = Some v"
  using c_strtol_total [of "s @ [NUL]"] by (auto simp: c_atoi_def)

lemma tracker_handler_total: "\<exists>s'. Tracker_Service.ini_handler sect name val s = Some (1, s')"
proof -
  obtain v where "c_atoi (val @ [NUL]) = Some v" using c_atoi_total by blast
  then show ?thesis unfolding Tracker_Service.ini_handler_def by simp
qed

lemma router_handler_total: "\<exists>s'. Router_Service.ini_handler sect name val s = Some (1, s')"
proof -
  obtain v where "c_atoi (val @ [NUL]) = Some v" using c_atoi_total by blast
  then show ?thesis unfolding Router_Service.ini_handler_def by simp
qed

lemma foldM_total: "(\<And>x s. \<exists>s'. f x s = Some s') \<Longrightarrow> \<exists>s'. foldM f xs s = Some s'"
proof (induction xs arbitrary: s)
  case (Cons x xs)
  obtain s1 where "f x s = Some s1" using Cons.prems by blast
  then show ?case using Cons by simp
qed simp

lemma config_main:
  assumes ok: "list_all line_ok ls" and h: "\<And>sect name val s. \<exists>s'. h sect name val s = Some (1, s')"
  shows "\<exists>s. foldM (apply_call h) (cfg_calls [] ls) s0 = Some s \<and> ini_parse h (Some (render_cfg ls)) s0 = Some (0, s)"
proof -
  have tot: "\<exists>s'. apply_call h c s = Some s'" for c s
  proof -
    obtain s' where "h (fst c) (fst (snd c)) (snd (snd c)) s = Some (1, s')" using h by blast
    then show ?thesis by (simp add: apply_call_def)
  qed
  have "\<exists>s. foldM (apply_call h) (cfg_calls [] ls) s0 = Some s" by (rule foldM_total) (rule tot)
  then obtain s where s: "foldM (apply_call h) (cfg_calls [] ls) s0 = Some s" by (elim exE)
  have "rc \<noteq> 0" if "h sect name val s = Some (rc, s')" for sect name val s rc s'
  proof -
    obtain s1 where "h sect name val s = Some (1, s1)" using h by blast
    then show ?thesis using that by simp
  qed
  then have "ini_parse h (Some (render_cfg ls)) s0 = Some (0, s)" by (rule ini_parse_cfg [OF _ ok s])
  then show ?thesis using s by (intro exI [of _ s] conjI)
qed

text \<open>Reading the file carries out its assignments in order, each with the section it stands in; then come the options.\<close>

lemma config_settings:
  assumes "list_all line_ok ls"
  shows "tracker_main (Some (render_cfg ls)) opts =
      do { s \<leftarrow> foldM (apply_call Tracker_Service.ini_handler) (cfg_calls [] ls) Tracker_Service.default_settings;
           tracker_opts opts s } \<and>
    router_main (Some (render_cfg ls)) opts =
      do { s \<leftarrow> foldM (apply_call Router_Service.ini_handler) (cfg_calls [] ls) Router_Service.default_settings;
           router_opts opts s }"
proof -
  obtain s where "foldM (apply_call Tracker_Service.ini_handler) (cfg_calls [] ls) Tracker_Service.default_settings = Some s"
    "ini_parse Tracker_Service.ini_handler (Some (render_cfg ls)) Tracker_Service.default_settings = Some (0, s)"
    using config_main [where h = Tracker_Service.ini_handler, OF assms tracker_handler_total] by blast
  moreover obtain s' where "foldM (apply_call Router_Service.ini_handler) (cfg_calls [] ls) Router_Service.default_settings = Some s'"
    "ini_parse Router_Service.ini_handler (Some (render_cfg ls)) Router_Service.default_settings = Some (0, s')"
    using config_main [where h = Router_Service.ini_handler, OF assms router_handler_total] by blast
  ultimately show ?thesis by (simp add: tracker_main_def router_main_def)
qed

end
