(* ===== verification/Launch.thy ===== *)
theory Launch
  imports Startup Server Router
begin

text \<open>
  From \<open>main\<close> to the running threads, for both services: \<open>main\<close> and \<open>udp_serve\<close> of \<^verbatim>\<open>src/tracker/service.c\<close> and
  \<^verbatim>\<open>src/router/service.c\<close>, with \<open>clients_init\<close>, \<open>msg_cache_init\<close>, \<open>delta_init\<close> and the threads of \<open>router_init\<close>.
  What the threads do is the matter of the other theories.
\<close>

section \<open>Model\<close>

datatype thread = ClientClock | CacheClock | UpdateThread "sockaddr_storage \<times> u16" | KeepaliveThread "sockaddr_storage \<times> u16"
  | UdpServe string int

text \<open>The results of \<open>pthread_create\<close> to come (a failure is only reported), and the threads that run.\<close>

record launch =
  creates :: "bool list"
  started :: "thread list"

definition spawn :: "thread \<Rightarrow> launch \<Rightarrow> launch" where
  "spawn t st =
     (if hd (creates st @ [True]) then st\<lparr>creates := tl (creates st), started := started st @ [t]\<rparr>
      else st\<lparr>creates := tl (creates st)\<rparr>)"

definition delta_init :: "thread \<Rightarrow> launch \<Rightarrow> launch" where
  "delta_init clock st = spawn clock st"

definition clients_init :: "launch \<Rightarrow> launch" where
  "clients_init st = delta_init ClientClock st"

definition msg_cache_init :: "launch \<Rightarrow> launch" where
  "msg_cache_init st = delta_init CacheClock st"

definition router_init_threads ::
  "(string \<Rightarrow> string \<Rightarrow> sockaddr_storage option) \<Rightarrow> string \<Rightarrow> string \<Rightarrow> char list \<Rightarrow> launch \<Rightarrow> (int \<times> launch) option" where
  "router_init_threads getaddrinfo tracker_addr tracker_port lport st = do {
     (rc, arg) \<leftarrow> router_init getaddrinfo tracker_addr tracker_port lport;
     case arg of
       None \<Rightarrow> Some (rc, st)
     | Some a \<Rightarrow> Some (rc, spawn (KeepaliveThread a) (spawn (UpdateThread a) st))
   }"

text \<open>The start of the thread of the datagram server; \<open>gai\<close> gives for a port what trying the addresses of \<open>getaddrinfo\<close> leads to.\<close>

definition udp_serve :: "(string \<Rightarrow> sock_event list option) \<Rightarrow> string \<Rightarrow> server \<Rightarrow> init_result \<times> server" where
  "udp_serve gai port srv = udp_server_init (gai port) srv"

text \<open>The process ends, or its first thread serves connections on the socket with the given limit.\<close>

datatype outcome = Exits | Serves nat int

definition tracker_service ::
  "char list option \<Rightarrow> (char \<times> string) list \<Rightarrow> (string \<Rightarrow> sock_event list option) \<Rightarrow> bool \<Rightarrow> launch \<Rightarrow> (outcome \<times> launch) option" where
  "tracker_service rc opts gai listens st = do {
     r \<leftarrow> tracker_main rc opts;
     case r of
       Inl _ \<Rightarrow> Some (Exits, st)
     | Inr s \<Rightarrow>
         let st = clients_init st;
             st = spawn (UdpServe (Tracker_Service.listen_port s) (Tracker_Service.max_threads s)) st
         in (case tcp_server_init (gai (Tracker_Service.listen_port s)) listens of
               InitExit \<Rightarrow> Some (Exits, st)
             | InitSock i \<Rightarrow> Some (Serves i (Tracker_Service.max_threads s), st))
   }"

text \<open>The result of \<open>router_init\<close> is not looked at.\<close>

definition router_service ::
  "char list option \<Rightarrow> (char \<times> string) list \<Rightarrow> (string \<Rightarrow> string \<Rightarrow> sockaddr_storage option) \<Rightarrow>
   (string \<Rightarrow> sock_event list option) \<Rightarrow> bool \<Rightarrow> launch \<Rightarrow> (outcome \<times> launch) option" where
  "router_service rc opts getaddrinfo gai listens st = do {
     r \<leftarrow> router_main rc opts;
     case r of
       Inl _ \<Rightarrow> Some (Exits, st)
     | Inr s \<Rightarrow> do {
         let st = msg_cache_init (clients_init st);
         (_, st) \<leftarrow> router_init_threads getaddrinfo (dir_addr s) (dir_port s) (Router_Service.listen_port s @ [NUL]) st;
         let st = spawn (UdpServe (Router_Service.listen_port s) (Router_Service.max_threads s)) st;
         (case tcp_server_init (gai (Router_Service.listen_port s)) listens of
            InitExit \<Rightarrow> Some (Exits, st)
          | InitSock i \<Rightarrow> Some (Serves i (Router_Service.max_threads s), st))
       }
   }"

section \<open>Lemmas\<close>

definition fresh_launch :: launch where
  "fresh_launch = \<lparr>creates = [], started = []\<rparr>"

lemma tracker_starts:
  assumes "tracker_main rc opts = Some (Inr s)" and "tcp_server_init (gai (Tracker_Service.listen_port s)) listens = InitSock i"
  shows "tracker_service rc opts gai listens fresh_launch = Some (Serves i (Tracker_Service.max_threads s),
    \<lparr>creates = [], started = [ClientClock, UdpServe (Tracker_Service.listen_port s) (Tracker_Service.max_threads s)]\<rparr>)"
  using assms by (simp add: tracker_service_def clients_init_def delta_init_def spawn_def fresh_launch_def Let_def)

text \<open>The two threads of the routing table run only if the tracker is found and the port is not 0.\<close>

definition routing_threads :: "(string \<Rightarrow> string \<Rightarrow> sockaddr_storage option) \<Rightarrow> Router_Service.settings \<Rightarrow> thread list" where
  "routing_threads getaddrinfo s =
     (let port = word_of_int (the (c_atoi (Router_Service.listen_port s @ [NUL]))) in
      case getaddrinfo (dir_addr s) (dir_port s) of
        None \<Rightarrow> []
      | Some tracker \<Rightarrow> if port = 0 then [] else [UpdateThread (tracker, port), KeepaliveThread (tracker, port)])"

lemma router_starts:
  assumes "router_main rc opts = Some (Inr s)" and "tcp_server_init (gai (Router_Service.listen_port s)) listens = InitSock i"
  shows "router_service rc opts getaddrinfo gai listens fresh_launch = Some (Serves i (Router_Service.max_threads s),
    \<lparr>creates = [], started = [ClientClock, CacheClock] @ routing_threads getaddrinfo s @
      [UdpServe (Router_Service.listen_port s) (Router_Service.max_threads s)]\<rparr>)"
proof -
  obtain v where v: "c_atoi (Router_Service.listen_port s @ [NUL]) = Some v" using c_atoi_total by blast
  then show ?thesis using assms
    by (simp add: router_service_def router_init_threads_def router_init_def psnet_new_def routing_threads_def clients_init_def
        msg_cache_init_def delta_init_def spawn_def fresh_launch_def Let_def split: option.split)
qed

section \<open>Properties\<close>

text \<open>C40. Configuration round trip: for every file of sections, assignments, comments and blank lines
  that respects the limits of the parser, the services start with the settings that follow from
  carrying out the assignments in order, each with the section it stands in, on the defaults, and
  then the options of the command line. With these settings both their servers run, on the same port and with the same
  limit, after the clocks of the tables; the router runs so also when \<open>router_init\<close> fails, without the threads that would
  fill its list of routers and keep it known.\<close>

theorem services_start:
  assumes "list_all line_ok ls"
  shows "tracker_main (Some (render_cfg ls)) opts =
      do { s \<leftarrow> foldM (apply_call Tracker_Service.ini_handler) (cfg_calls [] ls) Tracker_Service.default_settings;
           tracker_opts opts s } \<and>
    router_main (Some (render_cfg ls)) opts =
      do { s \<leftarrow> foldM (apply_call Router_Service.ini_handler) (cfg_calls [] ls) Router_Service.default_settings;
           router_opts opts s } \<and>
    (\<forall>s i. tracker_main (Some (render_cfg ls)) opts = Some (Inr s) \<longrightarrow>
      tcp_server_init (gai (Tracker_Service.listen_port s)) listens = InitSock i \<longrightarrow>
      tracker_service (Some (render_cfg ls)) opts gai listens fresh_launch = Some (Serves i (Tracker_Service.max_threads s),
        \<lparr>creates = [], started = [ClientClock, UdpServe (Tracker_Service.listen_port s) (Tracker_Service.max_threads s)]\<rparr>)) \<and>
    (\<forall>s i. router_main (Some (render_cfg ls)) opts = Some (Inr s) \<longrightarrow>
      tcp_server_init (gai (Router_Service.listen_port s)) listens = InitSock i \<longrightarrow>
      router_service (Some (render_cfg ls)) opts getaddrinfo gai listens fresh_launch = Some (Serves i (Router_Service.max_threads s),
        \<lparr>creates = [], started = [ClientClock, CacheClock] @ routing_threads getaddrinfo s @
          [UdpServe (Router_Service.listen_port s) (Router_Service.max_threads s)]\<rparr>))"
  using config_settings [OF assms] tracker_starts router_starts by blast

lemma services_start_witness:
  "tracker_main (Some (''[Tracker]'' @ [LF] @ ''max-threads=8'' @ [LF] @ '';x'' @ [LF] @ ''[Router]'' @ [LF] @ ''listen-port=9'' @ [LF]))
     [(CHR ''l'', ''77'')] = Some (Inr (Tracker_Service.default_settings\<lparr>Tracker_Service.max_threads := 8, Tracker_Service.listen_port := ''77''\<rparr>)) \<and>
   tracker_service (Some (''[Tracker]'' @ [LF] @ ''max-threads=8'' @ [LF] @ '';x'' @ [LF] @ ''[Router]'' @ [LF] @ ''listen-port=9'' @ [LF]))
     [(CHR ''l'', ''77'')] (\<lambda>_. Some [BindFails, Binds]) True fresh_launch =
     Some (Serves 1 8, \<lparr>creates = [], started = [ClientClock, UdpServe ''77'' 8]\<rparr>) \<and>
   router_service (Some (''[Tracker]'' @ [LF] @ ''max-threads=8'' @ [LF] @ '';x'' @ [LF] @ ''[Router]'' @ [LF] @ ''listen-port=9'' @ [LF]))
     [(CHR ''t'', ''5'')] (\<lambda>_ _. None) (\<lambda>_. Some [Binds]) True fresh_launch =
     Some (Serves 0 5, \<lparr>creates = [], started = [ClientClock, CacheClock, UdpServe ''9'' 5]\<rparr>)"
proof -
  let ?ls = "[Section ''Tracker'', KeyVal ''max-threads'' ''8'', Comment ''x'', Section ''Router'', KeyVal ''listen-port'' ''9'']"
  let ?t = "Tracker_Service.default_settings\<lparr>Tracker_Service.max_threads := 8, Tracker_Service.listen_port := ''77''\<rparr>"
  let ?r = "Router_Service.default_settings\<lparr>Router_Service.listen_port := ''9'', Router_Service.max_threads := 5\<rparr>"
  note eval = plain_def trimmed_def c_isspace_def MAX_SECTION_def INI_MAX_LINE_def apply_call_def
      Tracker_Service.ini_handler_def Tracker_Service.default_settings_def c_atoi_def c_strtol_def Let_def rd_def
      Router_Service.ini_handler_def Router_Service.default_settings_def
      c_isdigit_def digit_val_def clamp_long_def LONG_MAX_def LONG_MIN_def int_of_long_def pos_number_def
  have ok: "list_all line_ok ?ls" by (simp add: eval)
  have rc: "render_cfg ?ls = ''[Tracker]'' @ [LF] @ ''max-threads=8'' @ [LF] @ '';x'' @ [LF] @ ''[Router]'' @ [LF] @ ''listen-port=9'' @ [LF]"
    by (simp add: render_cfg_def)
  note start = services_start [OF ok, unfolded rc]
  have t: "tracker_main (Some (render_cfg ?ls)) [(CHR ''l'', ''77'')] = Some (Inr ?t)"
    using start [of "[(CHR ''l'', ''77'')]"] unfolding rc by (simp add: eval)
  have r: "router_main (Some (render_cfg ?ls)) [(CHR ''t'', ''5'')] = Some (Inr ?r)"
    using start [of "[(CHR ''t'', ''5'')]"] unfolding rc by (simp add: eval)
  have "tcp_server_init (Some [BindFails, Binds]) True = InitSock 1" "tcp_server_init (Some [Binds]) True = InitSock 0"
    by (simp_all add: tcp_server_init_def)
  then show ?thesis
    using t r start [of "[(CHR ''l'', ''77'')]" "\<lambda>_. Some [BindFails, Binds]" True]
      start [of "[(CHR ''t'', ''5'')]" "\<lambda>_. Some [Binds]" True "\<lambda>_ _. None"]
    unfolding rc by (simp add: routing_threads_def)
qed

end
