(* ===== verification/Spec2Isabelle.thy ===== *)
theory Spec2Isabelle
  imports Deltalist_Props Hash_List Answers Daemon Response_List Repeated_Broadcast Keepalive Locking Launch
begin

text \<open>
  psnet is a small peer-to-peer network in C: a \<^emph>\<open>tracker\<close> (\<^verbatim>\<open>src/tracker/service.c\<close>) keeps the
  addresses of the routers that report to it by datagrams and lists them on request over a
  connection; a \<^emph>\<open>router\<close> (\<^verbatim>\<open>src/router\<close>) keeps its clients in the same way, asks the tracker
  for other routers, and forwards broadcast messages to routers and clients. Both are built on a
  library (\<^verbatim>\<open>src/common\<close>): a hash table whose elements expire, a JSON tokenizer, sockets, and the
  protocol.

  \<^bold>\<open>Conventions.\<close> An operation of the code is one definition under the name it has in C. A pointer is
  an \<open>addr option\<close>, memory is a partial map, a buffer is the list of the characters from a pointer to
  the end of its object. A result of type \<open>option\<close> is \<open>None\<close> exactly where the code has undefined
  behaviour (an access out of bounds, through a dangling pointer, to a buffer that is too small) or a loop
  does not end; so every theorem with \<open>= Some \<dots>\<close> says that the code returns and stays in bounds.
  Integers have their width where they can wrap (\<open>uint\<close>, \<open>ulong\<close>, \<open>u16\<close>); \<open>int\<close> stands for C integers
  that stay small. The results of the operating system (\<open>send\<close>, \<open>recv\<close>, \<open>sendto\<close>, \<open>accept\<close>,
  \<open>pthread_create\<close>, \<open>bind\<close>) are scripts of events that a state carries or that a step chooses;
  \<open>inet_ntop\<close> and \<open>inet_pton\<close> are the parameters \<open>ntop\<close> and \<open>pton\<close>, related by \<open>inet_ok\<close>, which
  \<open>Inet_Text\<close> shows satisfiable by the usual texts of addresses.

  \<^bold>\<open>Theories.\<close>
  \<^item> \<open>Psnet_Prelude\<close>: types of machine integers and pointers, folds in the option monad, word and list
    lemmas; \<open>C_Strings\<close>: buffers, \<open>strcmp\<close>, \<open>strtol\<close>, \<open>atoi\<close> and decimal printing.
  \<^item> \<open>Deltalist\<close>, \<open>Deltalist_Inv\<close>, \<open>Deltalist_Stale\<close>, \<open>Deltalist_Props\<close>: \<^verbatim>\<open>common/deltalist.c\<close>, nodes on a heap that are
    threaded both in hash chains and in a list of expiry deltas. \<open>dl_rep\<close> represents a table as the
    list of its elements with their remaining ticks; the locale \<open>delta_table\<close> states what a table
    expects of \<open>hash\<close> and \<open>equals\<close> and holds the refinement lemmas (C1 to C4, C6);
    \<open>Deltalist_Stale\<close> is what is left of it after an operation has named the last of several elements.
    \<open>clock_turn\<close> is a turn of the clock thread. \<open>Client\<close> and \<open>Msgcache\<close> interpret the locale.
  \<^item> \<open>Linked_List\<close>, \<open>List_Entry\<close>, \<open>Linked_List_Props\<close>: the circular lists of \<^verbatim>\<open>include/list.h\<close> on a heap of cells
    and the typed loops over the structures around the cells,
    which refine operations on a family of disjoint lists (C35); \<open>Hash_List\<close>: the same for the lists with a single
    pointer as head, \<open>hlist\<close> (C16); \<open>Router_List\<close>: \<open>set_routers\<close> of
    \<^verbatim>\<open>router/router.c\<close> on the cells (C36); \<open>Response_List\<close>: responses on the cells, from \<open>malloc\<close> to
    \<open>free_response\<close> (C18).
  \<^item> \<open>Jsmn\<close>: \<^verbatim>\<open>common/jsmn.c\<close>; \<open>Jsmn_Safety\<close>: bounds and termination on every input (C9); \<open>Jsmn_Doc\<close>:
    documents, their text and their tokens, and the correctness of tokenizer and lookup (C10, C11);
    \<open>Jsmn_Forest\<close>: the tokens of any successful parse form a forest, so that the lookup ends (C5).
  \<^item> \<open>Sockaddr\<close>, \<open>Inet_Text\<close>: \<^verbatim>\<open>include/ipv6.h\<close> and \<^verbatim>\<open>include/types.h\<close>; \<open>Network\<close>:
    \<^verbatim>\<open>common/network.c\<close>, partial sends and the framing of messages (C12, C13).
  \<^item> \<open>Client\<close>: \<^verbatim>\<open>common/client.c\<close> (C15); \<open>Msgcache\<close>: \<^verbatim>\<open>router/msgcache.c\<close> (C19); \<open>Parse\<close>:
    \<^verbatim>\<open>common/parse.c\<close> (C20 to C22); \<open>Protocol\<close>: \<^verbatim>\<open>common/protocol.c\<close> (C23, C25); \<open>Router\<close>:
    \<^verbatim>\<open>router/router.c\<close> on lists of addresses, and the listings of clients and routers (C17, C26).
  \<^item> \<open>Service_Base\<close>, \<open>Tracker_Service\<close>, \<open>Router_Service\<close>: the request handlers and the callbacks of the two
    services, from the bytes of a request to the tables and the bytes of the answer (C29, C31 to C33). \<open>serve_message\<close> is the callback for a
    datagram up to the release of the message, \<open>handle_message\<close> the whole of it, with and without \<open>PSNETLOG\<close>. \<open>Exchange\<close>: the answer of the
    tracker to a discovery, read with the functions that the library has for it (C14). \<open>Answers\<close>: the requests without arguments, for every method name (C24).
  \<^item> \<open>Router_System\<close>: the threads of the router as a step relation over the state they share (C27); \<open>Repeated_Broadcast\<close>: a run of it with nothing but
    broadcasts and ticks after which the next broadcast writes to freed memory (C28);
    \<open>Keepalive\<close>: a router and the tracker together, over any number of keep-alive datagrams (C30).
  \<^item> \<open>Server\<close>: \<^verbatim>\<open>common/server.c\<close>, the two accepting loops and the callbacks as a step relation over the
    shared counter of threads (C37, C38); \<open>Datagram_Safety\<close>: the callbacks return on every
    datagram that the server can hand to them when they are built without \<open>PSNETLOG\<close>, and read freed memory on every one when they are built with it (C39); \<open>Connection_Safety\<close>: so does the connection
    callback of the tracker, whatever its peer does (C7); \<open>Router_Connections\<close>: and that of the router, as long as its turns find intact tables, whatever
    the other threads do in between (C8). The locale \<open>callback\<close> is what the server
    expects of a callback; the four callbacks of the services interpret it.
  \<^item> \<open>Locking\<close>: the mutexes of both services, each function as the list of its calls of
    \<open>pthread_mutex_lock\<close> and \<open>pthread_mutex_unlock\<close>, and the threads interleaving between any two of them (C34).
  \<^item> \<open>Ini\<close>: \<^verbatim>\<open>common/ini.c\<close>; \<open>Startup\<close>: command line and settings of both services; \<open>Launch\<close>: \<open>main\<close>
    from the settings to the running threads (C40); \<open>Daemon\<close>: \<^verbatim>\<open>common/misc.c\<close>, and the lines that the tables log.

  \<^bold>\<open>What the properties show.\<close> Refinement: the table (C1, C4, C15), the linked lists and the list of
  routers (C16, C35, C36), the responses (C18). Time: an element lives for exactly its interval (C2, C3), a router that
  sends its datagrams stays registered (C30), a message is known as
  long (C19). Safety and termination on arbitrary input: C7 to C9, C39. Round trips: lists of nodes (C20),
  response headers (C22, C23), discovery (C14), configuration (C40). Behaviour of the services end to end: C24, C29 to C33.
  Concurrency: C1 ranges over every interleaving of table operations (each holds the lock of its table
  throughout), C27 over the threads of a router, C37 over every interleaving of the servers and callbacks; C34 takes
  the locks themselves, call by call, and shows that they exclude each other and that no thread waits for ever. Where the code does not do
  what it should, the property states what it does: C6 (a tail pointer that is not reset) and C28 (what a peer can make of it), C13
  (a missing terminator), C15 (a port limit with a digit too many), C22 (a buffer of five bytes), C27 (a jump outside its condition), C26 (an inverted comparison), C32 (a capacity that shrinks), C38 (a
  counter that is reset). The corresponding hypotheses of other theorems, for example \<open>\<not> hits_last\<close>, messages that
  are shorter than the buffer and not blank, keep to the states in which these defects do not show. For the
  connection callback of the router the hypothesis cannot be about the state at its start alone, since the clock threads, datagrams and other connections change
  the tables between two requests, and a repeated broadcast can damage the message
  cache in the way of C6. The loop therefore takes an arbitrary change of the shared state before each of its turns (\<open>others\<close>): C8 says that
  the callback returns or one of its turns has found a damaged table, and C28 shows how that can come about.
  A turn reads the state as it is when it begins; changes while it runs are not represented, except in \<open>Locking\<close>.

  \<^bold>\<open>Build.\<close> \<^verbatim>\<open>src/makefile\<close> defines \<open>PSNETLOG\<close> for every object, so it is on in the default build. Most of what it adds only prints. In both
  \<open>handle_message\<close> functions it prints the address of the sender after the message that holds it has been freed: the argument \<open>psnetlog\<close> of
  \<open>handle_message\<close> selects the build, and with it the result is \<open>None\<close>. What a datagram does to the tables is over by then; the properties
  about that (C27 to C30) are stated of \<open>serve_message\<close> and hold in both builds.

  \<^bold>\<open>Bounds.\<close> There is no fuel. Loops that are structural or have a measure are \<open>fun\<close> or \<open>function\<close>;
  loops over pointers and over the turns of a connection are \<open>partial_function (option)\<close>, with lemmas that
  they return. The buffers and the number of tokens (256) and of characters (512) are those of the code. Positions in a text and numbers of
  tokens are natural numbers, which are those of the code for buffers of at most \<open>2 ^ 31\<close> characters (C9).

  \<^bold>\<open>Not modelled.\<close> \<open>usage\<close> and the lines printed under \<open>PSNETLOG\<close> (\<open>print_routers\<close> and the two \<open>delta_act\<close> are
  modelled for their buffers, the ends of the two \<open>handle_message\<close> for their access to freed memory); the statements of \<open>psnet_request\<close> after its
  first \<open>goto\<close>, which never run; \<open>psnet_free\<close>, which is never called. \<open>daemonize\<close> stands by itself: both \<open>main\<close> functions call it, under
  \<open>DAEMON\<close>, without the argument it takes. The length of the intervals \<open>sleep\<close> waits for is modelled for the clock
  threads and the keep-alive thread; failures of \<open>malloc\<close> are not modelled. What is left of the sources are prototypes, include guards and
  declarations.
\<close>

end
